theory Spec2Isabelle
  imports Main "HOL-Library.AList" "HOL-Library.List_Lexorder" "HOL-Library.Char_ord"
begin

section \<open>Data model\<close>

text \<open>
  The consensus functions of \<^verbatim>\<open>lib/consensus.js\<close> work on JavaScript event objects that
  point at each other (\<^verbatim>\<open>_parents\<close>, \<^verbatim>\<open>_children\<close>) and that the algorithm decorates with
  further properties while it runs.  An event object is identified by a reference, an index
  into the list of all event objects; the properties the algorithm only reads form the
  record \<open>event\<close>, the properties it writes are the fields of \<open>state\<close>, one map from
  references per property.  JavaScript objects used as dictionaries are association lists
  in insertion order, which is the iteration order of \<^verbatim>\<open>Object.keys\<close>, \<^verbatim>\<open>for ... in\<close>
  and \<^verbatim>\<open>_.values\<close> for keys that are not array indices (creator identifiers and event
  hashes are not).  \<^verbatim>\<open>meta.continuity2017.creator\<close> is \<open>None\<close> when the event carries
  no \<^verbatim>\<open>meta.continuity2017\<close>; \<^verbatim>\<open>_parents\<close> and \<^verbatim>\<open>event.parentHash\<close> are always arrays,
  a missing \<^verbatim>\<open>_children\<close> is the empty list (reading its first element fails either way).
\<close>

type_synonym ref = nat
type_synonym hash = string
type_synonym elector = string

record event =
  eventHash :: hash
  creator0 :: "string option"
  treeHash :: "hash option"
  parentHash :: "hash list"
  parents :: "ref list"
  children :: "ref list"

text \<open>A vote is a voting event or the sentinel \<^verbatim>\<open>false\<close> of a byzantine elector.\<close>

datatype vote = Byzantine | Voting ref

type_synonym dmap = "(hash \<times> ref list) list"
type_synonym tails = "(elector \<times> ref list) list"
type_synonym byElector = "(elector \<times> ref) list"
type_synonym votes = "(elector \<times> vote) list"

text \<open>
  The derived properties.  \<^verbatim>\<open>_treeParent\<close>, \<^verbatim>\<open>_preCommit\<close>, \<^verbatim>\<open>_confirmPoint\<close>,
  \<^verbatim>\<open>_toConfirm\<close> and \<^verbatim>\<open>_y\<close> are only tested for truthiness and dereferenced, so
  \<open>None\<close> stands for \<^verbatim>\<open>undefined\<close>, \<^verbatim>\<open>null\<close> and \<^verbatim>\<open>false\<close> alike; a missing
  \<^verbatim>\<open>_treeChildren\<close> is read as \<^verbatim>\<open>[]\<close> by the code itself.  The object behind
  \<^verbatim>\<open>_yDescendants\<close> is shared between an event and its tree descendants: the field holds
  the reference of the event that created the object and \<open>yDescStore\<close> holds the objects.
\<close>

record state =
  meta :: "ref \<Rightarrow> string option"
  treeParent :: "ref \<Rightarrow> ref option"
  treeChildren :: "ref \<Rightarrow> ref list"
  generation :: "ref \<Rightarrow> nat option"
  initDescendants :: "ref \<Rightarrow> dmap option"
  xDescendants :: "ref \<Rightarrow> dmap option"
  yDescendants :: "ref \<Rightarrow> ref option"
  yDescStore :: "ref \<Rightarrow> (elector \<times> dmap) list"
  supporting :: "ref \<Rightarrow> ref list option"
  votes :: "ref \<Rightarrow> votes option"
  preCommit :: "ref \<Rightarrow> ref option"
  confirmPoint :: "ref \<Rightarrow> ref option"
  toConfirm :: "ref \<Rightarrow> ref option"
  yOf :: "ref \<Rightarrow> ref option"

text \<open>The state at the start of a call: nothing derived yet, creators as the events carry them.\<close>

definition initState :: "event list \<Rightarrow> state" where
  "initState E =
     \<lparr>meta = (\<lambda>r. creator0 (E ! r)), treeParent = (\<lambda>_. None), treeChildren = (\<lambda>_. []),
      generation = (\<lambda>_. None), initDescendants = (\<lambda>_. None), xDescendants = (\<lambda>_. None),
      yDescendants = (\<lambda>_. None), yDescStore = (\<lambda>_. []), supporting = (\<lambda>_. None),
      votes = (\<lambda>_. None), preCommit = (\<lambda>_. None), confirmPoint = (\<lambda>_. None),
      toConfirm = (\<lambda>_. None), yOf = (\<lambda>_. None)\<rparr>"

subsection \<open>Results: a value, a thrown TypeError, or no return\<close>

datatype error = TypeError

type_synonym 'a res = "(error + 'a) option"

definition ret :: "'a \<Rightarrow> 'a res" where
  "ret x = Some (Inr x)"

definition throw :: "'a res" where
  "throw = Some (Inl TypeError)"

definition bindr :: "'a res \<Rightarrow> ('a \<Rightarrow> 'b res) \<Rightarrow> 'b res" where
  "bindr m f = (case m of None \<Rightarrow> None | Some (Inl e) \<Rightarrow> Some (Inl e) | Some (Inr x) \<Rightarrow> f x)"

text \<open>\<^verbatim>\<open>_.uniq\<close>: the first occurrence of every element, in order.\<close>

definition uniq :: "'a list \<Rightarrow> 'a list" where
  "uniq xs = rev (remdups (rev xs))"

text \<open>\<^verbatim>\<open>Set.prototype.add\<close> on a set kept in insertion order.\<close>

definition setAdd :: "'a \<Rightarrow> 'a list \<Rightarrow> 'a list" where
  "setAdd x xs = (if x \<in> set xs then xs else xs @ [x])"

section \<open>The program\<close>

subsection \<open>twoThirdsMajority and \_getCreator\<close>

definition twoThirdsMajority :: "nat \<Rightarrow> nat" where
  "twoThirdsMajority electorCount =
     (if electorCount \<le> 3 then electorCount else (electorCount div 3) * 2 + 1)"

definition getCreator :: "event list \<Rightarrow> ref \<Rightarrow> state \<Rightarrow> (string \<times> state) res" where
  "getCreator E event s =
     (if meta s event \<noteq> None \<and> meta s event \<noteq> Some []
      then ret (the (meta s event), s)
      else (case children (E ! event) of
              [] \<Rightarrow> throw
            | c # _ \<Rightarrow> (case meta s c of
                          None \<Rightarrow> throw
                        | Some creator \<Rightarrow> ret (creator, s\<lparr>meta := (meta s)(event := Some creator)\<rparr>))))"

subsection \<open>\_getElectorBranches\<close>

definition findTreeParent :: "event list \<Rightarrow> ref \<Rightarrow> ref option" where
  "findTreeParent E e =
     List.find (\<lambda>p. Some (eventHash (E ! p)) = treeHash (E ! e)) (parents (E ! e))"

text \<open>The first loop: tree parents, tree children and the tails of every elector.\<close>

fun linkEvents :: "event list \<Rightarrow> elector list \<Rightarrow> ref list \<Rightarrow> tails \<Rightarrow> state \<Rightarrow> (tails \<times> state) res" where
  "linkEvents E electors [] electorTails s = ret (electorTails, s)"
| "linkEvents E electors (e # rest) electorTails s =
     bindr (getCreator E e s) (\<lambda>(creator, s1).
       if creator \<in> set electors then
         (case findTreeParent E e of
            Some p \<Rightarrow>
              linkEvents E electors rest electorTails
                (s1\<lparr>treeParent := (treeParent s1)(e := Some p),
                    treeChildren := (treeChildren s1)(p := treeChildren s1 p @ [e])\<rparr>)
          | None \<Rightarrow>
              linkEvents E electors rest
                (AList.update creator
                   (case map_of electorTails creator of Some ts \<Rightarrow> ts @ [e] | None \<Rightarrow> [e])
                   electorTails)
                (s1\<lparr>treeParent := (treeParent s1)(e := None)\<rparr>))
       else linkEvents E electors rest electorTails s1)"

text \<open>The second loop, for one elector: generations along the tree children, level by level.\<close>

partial_function (option) setGenerations :: "nat \<Rightarrow> ref list \<Rightarrow> state \<Rightarrow> state option" where
  "setGenerations g current s =
     (case current of
        [] \<Rightarrow> Some s
      | _ # _ \<Rightarrow>
          setGenerations (g + 1) (concat (map (treeChildren s) current))
            (s\<lparr>generation := foldl (\<lambda>m event. m(event := Some g)) (generation s) current\<rparr>))"

fun setAllGenerations :: "tails \<Rightarrow> state \<Rightarrow> state option" where
  "setAllGenerations [] s = Some s"
| "setAllGenerations ((elector, ts) # rest) s =
     (case setGenerations 1 ts s of None \<Rightarrow> None | Some s' \<Rightarrow> setAllGenerations rest s')"

definition getElectorBranches :: "event list \<Rightarrow> ref list \<Rightarrow> elector list \<Rightarrow> state \<Rightarrow> (tails \<times> state) res" where
  "getElectorBranches E events electors s =
     bindr (linkEvents E electors events [] s) (\<lambda>(electorTails, s1).
       case setAllGenerations electorTails s1 of
         None \<Rightarrow> None
       | Some s2 \<Rightarrow> ret (electorTails, s2))"

subsection \<open>\_getAncestorHashes\<close>

fun ancestorHashesLevel ::
  "event list \<Rightarrow> ref list \<Rightarrow> ref list \<Rightarrow> hash list \<Rightarrow> ref list \<Rightarrow> ref list \<times> hash list \<times> ref list" where
  "ancestorHashesLevel E [] next hashes descendants = (next, hashes, descendants)"
| "ancestorHashesLevel E (event # rest) next hashes descendants =
     (if event \<in> set descendants then ancestorHashesLevel E rest next hashes descendants
      else ancestorHashesLevel E rest (next @ parents (E ! event))
             (foldl (\<lambda>hs h. setAdd h hs) (setAdd (eventHash (E ! event)) hashes)
                (parentHash (E ! event)))
             (descendants @ [event]))"

partial_function (option) ancestorHashesLoop ::
  "event list \<Rightarrow> ref list \<Rightarrow> hash list \<Rightarrow> ref list \<Rightarrow> (hash list \<times> ref list) option" where
  "ancestorHashesLoop E current hashes descendants =
     (case current of
        [] \<Rightarrow> Some (hashes, descendants)
      | _ # _ \<Rightarrow>
          (case ancestorHashesLevel E current [] hashes descendants of
             (next, hashes', descendants') \<Rightarrow> ancestorHashesLoop E next hashes' descendants'))"

fun ancestorHashesAll ::
  "event list \<Rightarrow> ref list \<Rightarrow> hash list \<Rightarrow> ref list \<Rightarrow> (hash list \<times> ref list) option" where
  "ancestorHashesAll E [] hashes descendants = Some (hashes, descendants)"
| "ancestorHashesAll E (x # xs) hashes descendants =
     (case ancestorHashesLoop E [x] hashes descendants of
        None \<Rightarrow> None
      | Some (hashes', descendants') \<Rightarrow> ancestorHashesAll E xs hashes' descendants')"

definition getAncestorHashes :: "event list \<Rightarrow> ref list \<Rightarrow> hash list option" where
  "getAncestorHashes E allXs = map_option fst (ancestorHashesAll E allXs [] [])"

subsection \<open>Shared graph utilities\<close>

text \<open>\<^verbatim>\<open>_buildAncestryMap\<close>; the map only ever holds \<^verbatim>\<open>true\<close>, so its keys stand for it.\<close>

fun buildAncestryLevel :: "event list \<Rightarrow> ref list \<Rightarrow> ref list \<Rightarrow> hash list \<Rightarrow> ref list \<times> hash list" where
  "buildAncestryLevel E [] next m = (next, m)"
| "buildAncestryLevel E (event # rest) next m =
     (if eventHash (E ! event) \<in> set m then buildAncestryLevel E rest next m
      else buildAncestryLevel E rest (next @ parents (E ! event)) (m @ [eventHash (E ! event)]))"

partial_function (option) buildAncestryLoop :: "event list \<Rightarrow> ref list \<Rightarrow> hash list \<Rightarrow> hash list option" where
  "buildAncestryLoop E current m =
     (case current of
        [] \<Rightarrow> Some m
      | _ # _ \<Rightarrow>
          (case buildAncestryLevel E current [] m of
             (next, m') \<Rightarrow> buildAncestryLoop E (uniq next) m'))"

definition buildAncestryMap :: "event list \<Rightarrow> ref \<Rightarrow> hash list option" where
  "buildAncestryMap E event = buildAncestryLoop E [event] []"

text \<open>
  \<^verbatim>\<open>_findDescendantsInPath\<close>.  Its parameter \<^verbatim>\<open>x\<close> only serves the default value of
  \<^verbatim>\<open>ancestryMap\<close>, which every caller passes; the ancestry map is used through
  \<^verbatim>\<open>hash in ancestryMap\<close> alone and is given by its keys.
\<close>

fun descendantsInPathParents ::
  "event list \<Rightarrow> ref \<Rightarrow> ref list \<Rightarrow> ref list \<Rightarrow> dmap \<Rightarrow> ref list \<times> dmap" where
  "descendantsInPathParents E event [] next descendants = (next, descendants)"
| "descendantsInPathParents E event (parent # ps) next descendants =
     (case map_of descendants (eventHash (E ! parent)) of
        Some d \<Rightarrow>
          descendantsInPathParents E event ps next
            (if event \<in> set d then descendants
             else AList.update (eventHash (E ! parent)) (d @ [event]) descendants)
      | None \<Rightarrow>
          descendantsInPathParents E event ps (next @ [parent])
            (AList.update (eventHash (E ! parent)) [event] descendants))"

fun descendantsInPathLevel ::
  "event list \<Rightarrow> hash list \<Rightarrow> ref list \<Rightarrow> ref list \<Rightarrow> dmap \<Rightarrow> ref list \<times> dmap" where
  "descendantsInPathLevel E ancestryMap [] next descendants = (next, descendants)"
| "descendantsInPathLevel E ancestryMap (event # rest) next descendants =
     (if eventHash (E ! event) \<in> set ancestryMap
      then descendantsInPathLevel E ancestryMap rest next descendants
      else (case descendantsInPathParents E event (parents (E ! event)) next descendants of
              (next', descendants') \<Rightarrow> descendantsInPathLevel E ancestryMap rest next' descendants'))"

partial_function (option) descendantsInPathLoop ::
  "event list \<Rightarrow> hash list \<Rightarrow> ref list \<Rightarrow> dmap \<Rightarrow> dmap option" where
  "descendantsInPathLoop E ancestryMap current descendants =
     (case current of
        [] \<Rightarrow> Some descendants
      | _ # _ \<Rightarrow>
          (case descendantsInPathLevel E ancestryMap current [] descendants of
             (next, descendants') \<Rightarrow> descendantsInPathLoop E ancestryMap next descendants'))"

definition findDescendantsInPath :: "event list \<Rightarrow> hash list \<Rightarrow> ref \<Rightarrow> dmap \<Rightarrow> dmap option" where
  "findDescendantsInPath E ancestryMap y descendants =
     descendantsInPathLoop E ancestryMap [y] descendants"

text \<open>\<^verbatim>\<open>descendants[event.eventHash]\<close>, read as no descendants when the entry is missing.\<close>

definition descendantsOf :: "event list \<Rightarrow> dmap \<Rightarrow> ref \<Rightarrow> ref list" where
  "descendantsOf E descendants event =
     (case map_of descendants (eventHash (E ! event)) of Some d \<Rightarrow> d | None \<Rightarrow> [])"

partial_function (option) flattenLoop ::
  "event list \<Rightarrow> dmap \<Rightarrow> ref list \<Rightarrow> ref list \<Rightarrow> ref list option" where
  "flattenLoop E descendants current result =
     (case current of
        [] \<Rightarrow> Some (uniq result)
      | _ # _ \<Rightarrow>
          flattenLoop E descendants (uniq (concat (map (descendantsOf E descendants) current)))
            (result @ uniq (concat (map (descendantsOf E descendants) current))))"

definition flattenDescendants :: "event list \<Rightarrow> ref \<Rightarrow> dmap \<Rightarrow> ref list option" where
  "flattenDescendants E x descendants = flattenLoop E descendants [x] []"

text \<open>
  \<^verbatim>\<open>_hasSufficientEndorsements\<close>: the innermost loop over the descendants \<^verbatim>\<open>d\<close> of one
  event, the loop over one level, and the loop over the levels.  The flag says that the
  function has returned \<^verbatim>\<open>true\<close>.
\<close>

fun endorsementsOfDescendants ::
  "event list \<Rightarrow> elector list \<Rightarrow> nat \<Rightarrow> ref list \<Rightarrow> string list \<Rightarrow> nat \<Rightarrow> state
   \<Rightarrow> (bool \<times> string list \<times> nat \<times> state) res" where
  "endorsementsOfDescendants E electors supermajority [] endorsements tot s =
     ret (False, endorsements, tot, s)"
| "endorsementsOfDescendants E electors supermajority (e # d) endorsements tot s =
     bindr (getCreator E e s) (\<lambda>(creator, s1).
       if creator \<notin> set endorsements \<and> creator \<in> set electors then
         (if tot + 1 \<ge> supermajority then ret (True, endorsements @ [creator], tot + 1, s1)
          else endorsementsOfDescendants E electors supermajority d
                 (endorsements @ [creator]) (tot + 1) s1)
       else endorsementsOfDescendants E electors supermajority d endorsements tot s1)"

fun endorsementsLevel ::
  "event list \<Rightarrow> elector list \<Rightarrow> nat \<Rightarrow> dmap \<Rightarrow> ref list \<Rightarrow> ref list \<Rightarrow> string list \<Rightarrow> nat \<Rightarrow> state
   \<Rightarrow> (bool \<times> ref list \<times> string list \<times> nat \<times> state) res" where
  "endorsementsLevel E electors supermajority descendants [] next endorsements tot s =
     ret (False, next, endorsements, tot, s)"
| "endorsementsLevel E electors supermajority descendants (event # rest) next endorsements tot s =
     bindr (endorsementsOfDescendants E electors supermajority
              (descendantsOf E descendants event) endorsements tot s)
       (\<lambda>(found, endorsements', tot', s1).
          if found then ret (True, next, endorsements', tot', s1)
          else endorsementsLevel E electors supermajority descendants rest
                 (next @ descendantsOf E descendants event) endorsements' tot' s1)"

partial_function (option) endorsementsLoop ::
  "event list \<Rightarrow> elector list \<Rightarrow> nat \<Rightarrow> dmap \<Rightarrow> ref list \<Rightarrow> string list \<Rightarrow> nat \<Rightarrow> state
   \<Rightarrow> (bool \<times> state) res" where
  "endorsementsLoop E electors supermajority descendants current endorsements tot s =
     (case current of
        [] \<Rightarrow> ret (False, s)
      | _ # _ \<Rightarrow>
          (case endorsementsLevel E electors supermajority descendants current []
                  endorsements tot s of
             None \<Rightarrow> None
           | Some (Inl err) \<Rightarrow> Some (Inl err)
           | Some (Inr (found, next, endorsements', tot', s1)) \<Rightarrow>
               if found then ret (True, s1)
               else endorsementsLoop E electors supermajority descendants (uniq next)
                      endorsements' tot' s1))"

definition hasSufficientEndorsements ::
  "event list \<Rightarrow> ref \<Rightarrow> dmap \<Rightarrow> elector list \<Rightarrow> nat \<Rightarrow> state \<Rightarrow> (bool \<times> state) res" where
  "hasSufficientEndorsements E x descendants electors supermajority s =
     bindr (getCreator E x s) (\<lambda>(creator, s1).
       endorsementsLoop E electors supermajority descendants [x] [creator] 1 s1)"

text \<open>
  \<^verbatim>\<open>_findDiversePedigreeMergeEvent\<close>: the walk along the only tree child, and the function.
  The result carries the \<^verbatim>\<open>descendants\<close> map, which the code fills in place.
\<close>

partial_function (option) diversePedigreeLoop ::
  "event list \<Rightarrow> elector list \<Rightarrow> nat \<Rightarrow> hash list \<Rightarrow> ref \<Rightarrow> ref \<Rightarrow> dmap \<Rightarrow> state
   \<Rightarrow> (ref option \<times> dmap \<times> state) res" where
  "diversePedigreeLoop E electors supermajority ancestryMap x0 treeDescendant descendants s =
     (case findDescendantsInPath E ancestryMap treeDescendant descendants of
        None \<Rightarrow> None
      | Some descendants' \<Rightarrow>
          (case hasSufficientEndorsements E x0 descendants' electors supermajority s of
             None \<Rightarrow> None
           | Some (Inl err) \<Rightarrow> Some (Inl err)
           | Some (Inr (sufficient, s1)) \<Rightarrow>
               if sufficient then ret (Some treeDescendant, descendants', s1)
               else (case treeChildren s1 treeDescendant of
                       [c] \<Rightarrow> diversePedigreeLoop E electors supermajority ancestryMap x0 c
                                descendants' s1
                     | _ \<Rightarrow> ret (None, descendants', s1))))"

definition findDiversePedigreeMergeEvent ::
  "event list \<Rightarrow> ref \<Rightarrow> elector list \<Rightarrow> nat \<Rightarrow> dmap \<Rightarrow> hash list \<Rightarrow> state
   \<Rightarrow> (ref option \<times> dmap \<times> state) res" where
  "findDiversePedigreeMergeEvent E x electors supermajority descendants ancestryMap s =
     (if supermajority = 1 then ret (Some x, descendants, s)
      else (case treeChildren s x of
              [c] \<Rightarrow> diversePedigreeLoop E electors supermajority ancestryMap x c descendants s
            | _ \<Rightarrow> ret (None, descendants, s)))"

subsection \<open>\_findMergeEventProofCandidates\<close>

definition liftO :: "'a option \<Rightarrow> 'a res" where
  "liftO m = map_option Inr m"

text \<open>The loop that selects the X of every elector with exactly one tail.\<close>

fun findXs :: "event list \<Rightarrow> tails \<Rightarrow> elector list \<Rightarrow> byElector \<Rightarrow> state \<Rightarrow> (byElector \<times> state) res" where
  "findXs E tails [] xByElector s = ret (xByElector, s)"
| "findXs E tails (elector # rest) xByElector s =
     (case map_of tails elector of
        None \<Rightarrow> throw
      | Some electorTails \<Rightarrow>
          (case electorTails of
             [result] \<Rightarrow>
               findXs E tails rest (AList.update elector result xByElector)
                 (s\<lparr>initDescendants :=
                      (initDescendants s)(result := Some [(eventHash (E ! result), [])])\<rparr>)
           | _ \<Rightarrow> findXs E tails rest xByElector s))"

text \<open>The loop that looks for the Y of every elector that has an X.\<close>

fun findYs ::
  "event list \<Rightarrow> elector list \<Rightarrow> nat \<Rightarrow> byElector \<Rightarrow> elector list \<Rightarrow> byElector \<Rightarrow> state
   \<Rightarrow> (byElector \<times> state) res" where
  "findYs E electors supermajority xByElector [] yByElector s = ret (yByElector, s)"
| "findYs E electors supermajority xByElector (elector # rest) yByElector s =
     (case map_of xByElector elector of
        None \<Rightarrow> throw
      | Some x \<Rightarrow>
          bindr (case initDescendants s x of
                   Some d \<Rightarrow> ret (map fst d)
                 | None \<Rightarrow> liftO (buildAncestryMap E x))
            (\<lambda>ancestryMap.
               bindr (findDiversePedigreeMergeEvent E x electors supermajority [] ancestryMap s)
                 (\<lambda>(result, descendants, s1).
                    case result of
                      Some y \<Rightarrow>
                        findYs E electors supermajority xByElector rest
                          (AList.update elector y yByElector)
                          (s1\<lparr>xDescendants := (xDescendants s1)(y := Some descendants)\<rparr>)
                    | None \<Rightarrow> findYs E electors supermajority xByElector rest yByElector s1)))"

definition findMergeEventProofCandidates ::
  "event list \<Rightarrow> tails \<Rightarrow> elector list \<Rightarrow> state \<Rightarrow> ((byElector \<times> byElector) option \<times> state) res" where
  "findMergeEventProofCandidates E tails electors s =
     (let supermajority = twoThirdsMajority (length electors);
          electorsWithTails = map fst tails
      in if length electorsWithTails < supermajority then ret (None, s)
         else bindr (findXs E tails electorsWithTails [] s) (\<lambda>(xByElector, s1).
                if length (map fst xByElector) < supermajority then ret (None, s1)
                else bindr (findYs E electors supermajority xByElector (map fst xByElector) [] s1)
                       (\<lambda>(yByElector, s2). ret (Some (yByElector, xByElector), s2))))"

subsection \<open>\_hasAncestors and \_allEndorsedYs\<close>

text \<open>\<^verbatim>\<open>difference.some(c => !(parent.eventHash in candidateAncestryMaps[c.eventHash]))\<close>\<close>

fun viable :: "event list \<Rightarrow> (hash \<times> hash list) list \<Rightarrow> ref \<Rightarrow> ref list \<Rightarrow> bool res" where
  "viable E candidateAncestryMaps parent [] = ret False"
| "viable E candidateAncestryMaps parent (c # cs) =
     (case map_of candidateAncestryMaps (eventHash (E ! c)) of
        None \<Rightarrow> throw
      | Some m \<Rightarrow>
          if eventHash (E ! parent) \<notin> set m then ret True
          else viable E candidateAncestryMaps parent cs)"

fun hasAncestorsLevel ::
  "event list \<Rightarrow> ref list \<Rightarrow> nat \<Rightarrow> (hash \<times> hash list) list \<Rightarrow> ref list \<Rightarrow> ref list \<Rightarrow> ref list
   \<Rightarrow> ref list \<Rightarrow> ref list \<Rightarrow> (bool \<times> ref list \<times> ref list \<times> ref list \<times> ref list) res" where
  "hasAncestorsLevel E candidates minimum candidateAncestryMaps [] next found difference checked =
     ret (False, next, found, difference, checked)"
| "hasAncestorsLevel E candidates minimum candidateAncestryMaps (parent # rest) next found
       difference checked =
     (if parent \<in> set checked
      then hasAncestorsLevel E candidates minimum candidateAncestryMaps rest next found
             difference checked
      else
        (let isNew = (parent \<in> set candidates \<and> parent \<notin> set found);
             found' = (if isNew then found @ [parent] else found)
         in if isNew \<and> length found' \<ge> minimum
            then ret (True, next, found', difference, checked @ [parent])
            else
              (let difference' =
                     (if isNew
                      then (if parent \<in> set difference then remove1 parent difference
                            else butlast difference)
                      else difference)
               in bindr (viable E candidateAncestryMaps parent difference') (\<lambda>v.
                    hasAncestorsLevel E candidates minimum candidateAncestryMaps rest
                      (if v then next @ parents (E ! parent) else next)
                      found' difference' (checked @ [parent])))))"

partial_function (option) hasAncestorsLoop ::
  "event list \<Rightarrow> ref list \<Rightarrow> nat \<Rightarrow> (hash \<times> hash list) list \<Rightarrow> ref list \<Rightarrow> ref list
   \<Rightarrow> ref list \<Rightarrow> ref list \<Rightarrow> ref list res" where
  "hasAncestorsLoop E candidates minimum candidateAncestryMaps current found difference checked =
     (case current of
        [] \<Rightarrow> ret found
      | _ # _ \<Rightarrow>
          (case hasAncestorsLevel E candidates minimum candidateAncestryMaps current [] found
                  difference checked of
             None \<Rightarrow> None
           | Some (Inl err) \<Rightarrow> Some (Inl err)
           | Some (Inr (done, next, found', difference', checked')) \<Rightarrow>
               if done then ret found'
               else hasAncestorsLoop E candidates minimum candidateAncestryMaps (uniq next) found'
                      difference' checked'))"

text \<open>\<^verbatim>\<open>_allEndorsedYs\<close>: \<^verbatim>\<open>_hasAncestors\<close> with an empty \<^verbatim>\<open>found\<close>, which it returns.\<close>

definition allEndorsedYs ::
  "event list \<Rightarrow> ref \<Rightarrow> ref list \<Rightarrow> (hash \<times> hash list) list \<Rightarrow> ref list res" where
  "allEndorsedYs E event allYs yAncestryMaps =
     hasAncestorsLoop E allYs (length allYs) yAncestryMaps (parents (E ! event)) []
       (uniq allYs) []"

subsection \<open>Votes\<close>

definition generationGreater :: "state \<Rightarrow> ref \<Rightarrow> ref \<Rightarrow> bool" where
  "generationGreater s a b =
     (case (generation s a, generation s b) of (Some m, Some n) \<Rightarrow> m > n | _ \<Rightarrow> False)"

definition generationGreaterEq :: "state \<Rightarrow> ref \<Rightarrow> ref \<Rightarrow> bool" where
  "generationGreaterEq s a b =
     (case (generation s a, generation s b) of (Some m, Some n) \<Rightarrow> m \<ge> n | _ \<Rightarrow> False)"

definition useMostRecentVotingEvent :: "state \<Rightarrow> elector \<Rightarrow> votes \<Rightarrow> ref \<Rightarrow> votes" where
  "useMostRecentVotingEvent s elector vs votingEvent =
     (case map_of vs elector of
        Some Byzantine \<Rightarrow> vs
      | Some (Voting existing) \<Rightarrow>
          if generationGreater s votingEvent existing
          then AList.update elector (Voting votingEvent) vs
          else if generation s votingEvent = generation s existing \<and> votingEvent \<noteq> existing
          then AList.update elector Byzantine vs
          else vs
      | None \<Rightarrow> AList.update elector (Voting votingEvent) vs)"

text \<open>
  \<^verbatim>\<open>_updateToMostRecentVotes\<close>.  Its \<^verbatim>\<open>electorSet\<close> is the key set of \<^verbatim>\<open>yByElector\<close>
  at its only call, so \<^verbatim>\<open>electorSet.has(creator)\<close> is the lookup in \<^verbatim>\<open>yByElector\<close>.
\<close>

fun mostRecentVotesLevel ::
  "event list \<Rightarrow> byElector \<Rightarrow> dmap \<Rightarrow> ref list \<Rightarrow> ref list \<Rightarrow> votes \<Rightarrow> state
   \<Rightarrow> (ref list \<times> votes \<times> state) res" where
  "mostRecentVotesLevel E yByElector descendants [] next vs s = ret (next, vs, s)"
| "mostRecentVotesLevel E yByElector descendants (event # rest) next vs s =
     (case map_of descendants (eventHash (E ! event)) of
        None \<Rightarrow> mostRecentVotesLevel E yByElector descendants rest next vs s
      | Some d \<Rightarrow>
          bindr (getCreator E event s) (\<lambda>(creator, s1).
            mostRecentVotesLevel E yByElector descendants rest (next @ d)
              (case map_of yByElector creator of
                 Some y \<Rightarrow>
                   if generationGreaterEq s1 event y
                   then useMostRecentVotingEvent s1 creator vs event
                   else vs
               | None \<Rightarrow> vs)
              s1))"

partial_function (option) mostRecentVotesLoop ::
  "event list \<Rightarrow> byElector \<Rightarrow> dmap \<Rightarrow> ref list \<Rightarrow> votes \<Rightarrow> state \<Rightarrow> (votes \<times> state) res" where
  "mostRecentVotesLoop E yByElector descendants current vs s =
     (case current of
        [] \<Rightarrow> ret (vs, s)
      | _ # _ \<Rightarrow>
          (case mostRecentVotesLevel E yByElector descendants current [] vs s of
             None \<Rightarrow> None
           | Some (Inl err) \<Rightarrow> Some (Inl err)
           | Some (Inr (next, vs', s1)) \<Rightarrow>
               mostRecentVotesLoop E yByElector descendants (uniq next) vs' s1))"

definition updateToMostRecentVotes ::
  "event list \<Rightarrow> ref \<Rightarrow> byElector \<Rightarrow> dmap \<Rightarrow> votes \<Rightarrow> state \<Rightarrow> (votes \<times> state) res" where
  "updateToMostRecentVotes E y yByElector descendants vs s =
     mostRecentVotesLoop E yByElector descendants [y] vs s"

subsection \<open>\_tally\<close>

text \<open>
  A tally entry is \<^verbatim>\<open>{set, count}\<close>.  \<^verbatim>\<open>_findSetInTally\<close> and \<^verbatim>\<open>_compareSupportSet\<close>
  compare two support sets by their event hashes (equal length, no hash of the first
  missing in the second); their shortcut for one and the same array gives the same answer.
  \<^verbatim>\<open>_.find(tally, _findSetInTally(set))\<close> is the index of the first matching entry:
  the code compares the entries it finds by identity.
\<close>

type_synonym tallyEntry = "ref list \<times> nat"

definition compareSupportSet :: "event list \<Rightarrow> ref list \<Rightarrow> ref list \<Rightarrow> bool" where
  "compareSupportSet E set1 set2 =
     (let a = map (\<lambda>r. eventHash (E ! r)) set1; b = map (\<lambda>r. eventHash (E ! r)) set2
      in length a = length b \<and> filter (\<lambda>h. h \<notin> set b) a = [])"

fun findIndex :: "('a \<Rightarrow> bool) \<Rightarrow> 'a list \<Rightarrow> nat option" where
  "findIndex P [] = None"
| "findIndex P (x # xs) = (if P x then Some 0 else map_option Suc (findIndex P xs))"

definition findSetInTally :: "event list \<Rightarrow> ref list option \<Rightarrow> tallyEntry list \<Rightarrow> nat option" where
  "findSetInTally E st entries =
     (case st of
        None \<Rightarrow> None
      | Some set1 \<Rightarrow> findIndex (\<lambda>tallyResult. compareSupportSet E set1 (fst tallyResult)) entries)"

text \<open>The loop that tallies the votes; it also rewrites \<^verbatim>\<open>e._supporting\<close>.\<close>

fun tallyVotes :: "event list \<Rightarrow> vote list \<Rightarrow> tallyEntry list \<Rightarrow> state \<Rightarrow> tallyEntry list \<times> state" where
  "tallyVotes E [] entries s = (entries, s)"
| "tallyVotes E (Byzantine # vs) entries s = tallyVotes E vs entries s"
| "tallyVotes E (Voting e # vs) entries s =
     (case supporting s e of
        None \<Rightarrow> tallyVotes E vs entries s
      | Some supp \<Rightarrow>
          (case findSetInTally E (Some supp) entries of
             Some i \<Rightarrow>
               tallyVotes E vs (entries[i := (fst (entries ! i), snd (entries ! i) + 1)])
                 (s\<lparr>supporting := (supporting s)(e := Some (fst (entries ! i)))\<rparr>)
           | None \<Rightarrow> tallyVotes E vs (entries @ [(supp, 1)]) s))"

text \<open>\<^verbatim>\<open>_findUnionPreCommitSet\<close>\<close>

fun unionPreCommit :: "state \<Rightarrow> vote list \<Rightarrow> ref list option \<Rightarrow> ref list option res" where
  "unionPreCommit s [] unionSet = ret unionSet"
| "unionPreCommit s (Byzantine # vs) unionSet = unionPreCommit s vs unionSet"
| "unionPreCommit s (Voting r # vs) unionSet =
     (case preCommit s r of
        None \<Rightarrow> unionPreCommit s vs unionSet
      | Some pc \<Rightarrow>
          (case supporting s pc of
             None \<Rightarrow> throw
           | Some supp \<Rightarrow>
               (case unionSet of
                  None \<Rightarrow> throw
                | Some u \<Rightarrow>
                    unionPreCommit s vs (if length supp > length u then Some supp else unionSet))))"

definition votesOf :: "state \<Rightarrow> ref \<Rightarrow> vote list" where
  "votesOf s event = (case votes s event of Some vs \<Rightarrow> map snd vs | None \<Rightarrow> [])"

definition findUnionPreCommitSet :: "state \<Rightarrow> ref \<Rightarrow> ref \<Rightarrow> ref list option res" where
  "findUnionPreCommitSet s event existingPrecommit =
     unionPreCommit s (votesOf s event) (supporting s existingPrecommit)"

definition votingEvents :: "vote list \<Rightarrow> ref list" where
  "votingEvents vs = concat (map (\<lambda>v. case v of Voting r \<Rightarrow> [r] | Byzantine \<Rightarrow> []) vs)"

text \<open>
  The next choice: the index of the tally entry it is, if it is one, its set and its
  count before the increment.  The union of the Ys fails on a voting event without
  \<^verbatim>\<open>_y\<close>, whose hash \<^verbatim>\<open>_findSetInTally\<close> would read.
\<close>

definition chooseNext ::
  "event list \<Rightarrow> ref \<Rightarrow> tallyEntry list \<Rightarrow> ref option \<Rightarrow> state
   \<Rightarrow> (nat option \<times> ref list \<times> nat) res" where
  "chooseNext E event entries existingPreCommit s =
     bindr (case existingPreCommit of
              Some pc \<Rightarrow>
                bindr (findUnionPreCommitSet s event pc)
                  (\<lambda>unionSet. ret (findSetInTally E unionSet entries))
            | None \<Rightarrow> ret None)
       (\<lambda>fromPreCommit.
          case fromPreCommit of
            Some i \<Rightarrow> ret (Some i, fst (entries ! i), snd (entries ! i))
          | None \<Rightarrow>
              (let ys = map (yOf s) (votingEvents (votesOf s event))
               in if None \<in> set ys then throw
                  else (let unionSet = uniq (map the ys)
                        in case findSetInTally E (Some unionSet) entries of
                             Some i \<Rightarrow> ret (Some i, fst (entries ! i), snd (entries ! i))
                           | None \<Rightarrow> ret (None, unionSet, 0))))"

text \<open>
  Parts of \<^verbatim>\<open>_tally\<close>: the previous choice of the creator, the creation of a precommit
  with its confirm point, and the end, where the event supports the next choice and votes
  for itself.
\<close>

definition previousChoice :: "event list \<Rightarrow> ref \<Rightarrow> string \<Rightarrow> tallyEntry list \<Rightarrow> state \<Rightarrow> nat option res" where
  "previousChoice E event creator entries s =
     (case votes s event of
        None \<Rightarrow> throw
      | Some vs \<Rightarrow>
          (case map_of vs creator of
             Some (Voting r) \<Rightarrow> ret (findSetInTally E (supporting s r) entries)
           | _ \<Rightarrow> ret None))"

definition createPreCommit ::
  "event list \<Rightarrow> elector list \<Rightarrow> ref \<Rightarrow> state \<Rightarrow> state res" where
  "createPreCommit E electors event s =
     bindr (liftO (buildAncestryMap E event)) (\<lambda>ancestryMap.
       bindr (findDiversePedigreeMergeEvent E event electors
                (twoThirdsMajority (length electors)) [] ancestryMap s)
         (\<lambda>(confirmPoint', descendants, s1).
            case confirmPoint' of
              Some c \<Rightarrow>
                ret (s1\<lparr>confirmPoint := (confirmPoint s1)(event := Some c),
                        toConfirm := (toConfirm s1)(c := Some event)\<rparr>)
            | None \<Rightarrow> ret s1))"

definition supportNextChoice ::
  "ref \<Rightarrow> string \<Rightarrow> ref list \<Rightarrow> ref option \<Rightarrow> state \<Rightarrow> (ref list option \<times> state) res" where
  "supportNextChoice event creator nextSet existingPreCommit s =
     (let s1 = (case existingPreCommit of
                  Some pc \<Rightarrow> s\<lparr>preCommit := (preCommit s)(event := Some pc)\<rparr>
                | None \<Rightarrow> s);
          s2 = s1\<lparr>supporting := (supporting s1)(event := Some nextSet)\<rparr>
      in case votes s2 event of
           None \<Rightarrow> throw
         | Some vs \<Rightarrow>
             ret (None, s2\<lparr>votes := (votes s2)(event := Some (AList.update creator (Voting event) vs))\<rparr>))"

definition finishTally ::
  "event list \<Rightarrow> elector list \<Rightarrow> ref \<Rightarrow> string \<Rightarrow> ref list \<Rightarrow> bool \<Rightarrow> ref option \<Rightarrow> state
   \<Rightarrow> (ref list option \<times> state) res" where
  "finishTally E electors event creator nextSet hasSupermajority existingPreCommit s =
     (if hasSupermajority \<and> existingPreCommit = None
      then bindr (createPreCommit E electors event s)
             (supportNextChoice event creator nextSet (Some event))
      else supportNextChoice event creator nextSet existingPreCommit s)"

text \<open>
  \<^verbatim>\<open>_tally\<close>, first half: the votes are tallied, the next choice is made and its count is
  incremented if the choice of the creator changes.  The result is the creator, the
  precommit of the tree parent, and the set and the count of the next choice.
\<close>

definition tallyChoice ::
  "event list \<Rightarrow> ref \<Rightarrow> state \<Rightarrow> (string \<times> ref option \<times> ref list \<times> nat \<times> state) res" where
  "tallyChoice E event s0 =
     (case tallyVotes E (votesOf s0 event) [] s0 of
        (entries, s1) \<Rightarrow>
          bindr (getCreator E event s1) (\<lambda>(creator, s).
            let existingPreCommit =
                  (case treeParent s event of Some tp \<Rightarrow> preCommit s tp | None \<Rightarrow> None)
            in bindr (chooseNext E event entries existingPreCommit s)
                 (\<lambda>(nextIndex, nextSet, count).
                    bindr (previousChoice E event creator entries s) (\<lambda>previous.
                      ret (creator, existingPreCommit, nextSet,
                           (if previous \<noteq> None \<and> previous = nextIndex then count
                            else count + 1), s)))))"

text \<open>
  \<^verbatim>\<open>_tally\<close>, second half: with an existing precommit, local support that differs
  rejects it; otherwise, at a confirm point, a supermajority is the decision (the only
  return of a value) and anything less rejects the precommit.
\<close>

definition tally :: "event list \<Rightarrow> elector list \<Rightarrow> ref \<Rightarrow> state \<Rightarrow> (ref list option \<times> state) res" where
  "tally E electors event s0 =
     bindr (tallyChoice E event s0) (\<lambda>(creator, existingPreCommit, nextSet, nextCount, s).
       let hasSupermajority = (nextCount \<ge> twoThirdsMajority (length electors))
       in case existingPreCommit of
            None \<Rightarrow> finishTally E electors event creator nextSet hasSupermajority None s
          | Some pc \<Rightarrow>
              (case supporting s pc of
                 None \<Rightarrow> throw
               | Some pcSupporting \<Rightarrow>
                   if \<not> compareSupportSet E pcSupporting nextSet then
                     finishTally E electors event creator nextSet hasSupermajority None
                       (case confirmPoint s pc of
                          Some cp \<Rightarrow> s\<lparr>toConfirm := (toConfirm s)(cp := None)\<rparr>
                        | None \<Rightarrow> s)
                   else
                     (case toConfirm s event of
                        Some tc \<Rightarrow>
                          if hasSupermajority then ret (supporting s tc, s)
                          else finishTally E electors event creator nextSet hasSupermajority
                                 None s
                      | None \<Rightarrow>
                          finishTally E electors event creator nextSet hasSupermajority
                            (Some pc) s)))"

subsection \<open>\_tallyBranches\<close>

text \<open>
  The body of the loop for one event up to the call of \<^verbatim>\<open>_tally\<close>: the votes of the tree
  parent are copied, the descendants between every Y and the event are added to the shared
  \<^verbatim>\<open>_yDescendants\<close> and the votes are brought up to date.  An undefined
  \<^verbatim>\<open>y._xDescendants\<close> makes \<^verbatim>\<open>_findDescendantsInPath\<close> build the ancestry of \<^verbatim>\<open>y\<close>.
\<close>

fun collectFromYs :: "event list \<Rightarrow> byElector \<Rightarrow> ref \<Rightarrow> elector list \<Rightarrow> state \<Rightarrow> state res" where
  "collectFromYs E yByElector event [] s = ret s"
| "collectFromYs E yByElector event (elector # rest) s =
     (case map_of yByElector elector of
        None \<Rightarrow> throw
      | Some y \<Rightarrow>
          (case yDescendants s event of
             None \<Rightarrow> throw
           | Some owner \<Rightarrow>
               bindr (case xDescendants s y of
                        Some xd \<Rightarrow> ret (map fst xd)
                      | None \<Rightarrow> liftO (buildAncestryMap E y))
                 (\<lambda>ancestryMap.
                    case map_of (yDescStore s owner) elector of
                      None \<Rightarrow>
                        bindr (liftO (findDescendantsInPath E ancestryMap event []))
                          (\<lambda>descendants. throw)
                    | Some descendants0 \<Rightarrow>
                        bindr (liftO (findDescendantsInPath E ancestryMap event descendants0))
                          (\<lambda>descendants.
                             let s1 = s\<lparr>yDescStore := (yDescStore s)
                                        (owner := AList.update elector descendants
                                                    (yDescStore s owner))\<rparr>
                             in case votes s1 event of
                                  None \<Rightarrow> throw
                                | Some vs \<Rightarrow>
                                    bindr (updateToMostRecentVotes E y yByElector descendants vs s1)
                                      (\<lambda>(vs', s2).
                                         collectFromYs E yByElector event rest
                                           (s2\<lparr>votes := (votes s2)(event := Some vs')\<rparr>))))))"

definition collectVotes :: "event list \<Rightarrow> byElector \<Rightarrow> ref \<Rightarrow> ref \<Rightarrow> state \<Rightarrow> state res" where
  "collectVotes E yByElector event tp s =
     (let s1 = (if votes s event = None
                then s\<lparr>votes := (votes s)
                       (event := Some (case votes s tp of Some vs \<Rightarrow> vs | None \<Rightarrow> []))\<rparr>
                else s);
          s2 = (if yDescendants s1 event = None
                then (case yDescendants s1 tp of
                        Some owner \<Rightarrow> s1\<lparr>yDescendants := (yDescendants s1)(event := Some owner)\<rparr>
                      | None \<Rightarrow>
                          s1\<lparr>yDescendants := (yDescendants s1)(event := Some event),
                             yDescStore := (yDescStore s1)
                               (event := map (\<lambda>e. (e, [])) (map fst yByElector))\<rparr>)
                else s1)
      in collectFromYs E yByElector event (map fst yByElector) s2)"

text \<open>Some vote other than the event's own is a voting event without \<^verbatim>\<open>_supporting\<close>.\<close>

definition outstandingVotes :: "state \<Rightarrow> ref \<Rightarrow> bool" where
  "outstandingVotes s event =
     (\<exists>e \<in> set (votingEvents (votesOf s event)). e \<noteq> event \<and> supporting s e = None)"

datatype step = Outstanding | Decided "ref list" | Continue

definition tallyEvent :: "event list \<Rightarrow> byElector \<Rightarrow> elector list \<Rightarrow> ref \<Rightarrow> state \<Rightarrow> (step \<times> state) res" where
  "tallyEvent E yByElector electors event s =
     (case treeParent s event of
        None \<Rightarrow> throw
      | Some tp \<Rightarrow>
          (let s1 = (case yOf s tp of
                       Some y \<Rightarrow> s\<lparr>yOf := (yOf s)(event := Some y)\<rparr>
                     | None \<Rightarrow> s)
           in bindr (if supporting s1 event = None
                     then bindr (collectVotes E yByElector event tp s1)
                            (\<lambda>s2. ret (outstandingVotes s2 event, s2))
                     else ret (False, s1))
                (\<lambda>(outstanding, s2).
                   if outstanding then ret (Outstanding, s2)
                   else bindr (tally E electors event s2) (\<lambda>(result, s3).
                          case result of
                            Some r \<Rightarrow> ret (Decided r, s3)
                          | None \<Rightarrow> ret (Continue, s3)))))"

fun tallyCurrent ::
  "event list \<Rightarrow> byElector \<Rightarrow> elector list \<Rightarrow> ref list \<Rightarrow> ref list \<Rightarrow> state
   \<Rightarrow> (ref list option \<times> ref list \<times> state) res" where
  "tallyCurrent E yByElector electors [] next s = ret (None, next, s)"
| "tallyCurrent E yByElector electors (event # rest) next s =
     bindr (tallyEvent E yByElector electors event s) (\<lambda>(st, s1).
       case st of
         Decided r \<Rightarrow> ret (Some r, next, s1)
       | Outstanding \<Rightarrow> tallyCurrent E yByElector electors rest (next @ [event]) s1
       | Continue \<Rightarrow>
           tallyCurrent E yByElector electors rest (next @ treeChildren s1 event) s1)"

partial_function (option) tallyLoop ::
  "event list \<Rightarrow> byElector \<Rightarrow> elector list \<Rightarrow> ref list \<Rightarrow> state \<Rightarrow> (ref list option \<times> state) res" where
  "tallyLoop E yByElector electors current s =
     (case current of
        [] \<Rightarrow> ret (None, s)
      | _ # _ \<Rightarrow>
          (case tallyCurrent E yByElector electors current [] s of
             None \<Rightarrow> None
           | Some (Inl err) \<Rightarrow> Some (Inl err)
           | Some (Inr (result, next, s1)) \<Rightarrow>
               (case result of
                  Some r \<Rightarrow> ret (Some r, s1)
                | None \<Rightarrow> tallyLoop E yByElector electors next s1)))"

definition tallyBranches :: "event list \<Rightarrow> byElector \<Rightarrow> elector list \<Rightarrow> state \<Rightarrow> (ref list option \<times> state) res" where
  "tallyBranches E yByElector electors s = tallyLoop E yByElector electors (map snd yByElector) s"

subsection \<open>\_findConsensusMergeEventProof\<close>

fun buildAncestryMaps :: "event list \<Rightarrow> ref list \<Rightarrow> (hash \<times> hash list) list \<Rightarrow> (hash \<times> hash list) list option" where
  "buildAncestryMaps E [] ancestryMaps = Some ancestryMaps"
| "buildAncestryMaps E (e # es) ancestryMaps =
     (case buildAncestryMap E e of
        None \<Rightarrow> None
      | Some m \<Rightarrow> buildAncestryMaps E es (AList.update (eventHash (E ! e)) m ancestryMaps))"

definition keysOf :: "dmap option \<Rightarrow> hash list" where
  "keysOf d = (case d of Some m \<Rightarrow> map fst m | None \<Rightarrow> [])"

text \<open>The loop that adds the known X descendants and initial descendants to every map.\<close>

fun extendAncestryMaps ::
  "event list \<Rightarrow> byElector \<Rightarrow> ref list \<Rightarrow> (hash \<times> hash list) list \<Rightarrow> state
   \<Rightarrow> ((hash \<times> hash list) list \<times> state) res" where
  "extendAncestryMaps E xByElector [] yAncestryMaps s = ret (yAncestryMaps, s)"
| "extendAncestryMaps E xByElector (y # ys) yAncestryMaps s =
     (case map_of yAncestryMaps (eventHash (E ! y)) of
        None \<Rightarrow> throw
      | Some m \<Rightarrow>
          bindr (getCreator E y s) (\<lambda>(creator, s1).
            case map_of xByElector creator of
              None \<Rightarrow> throw
            | Some x \<Rightarrow>
                extendAncestryMaps E xByElector ys
                  (AList.update (eventHash (E ! y))
                     (foldl (\<lambda>m h. setAdd h m)
                        (foldl (\<lambda>m h. setAdd h m) m (keysOf (xDescendants s y)))
                        (keysOf (initDescendants s1 x)))
                     yAncestryMaps)
                  s1))"

fun setInitialVotes :: "event list \<Rightarrow> ref list \<Rightarrow> votes \<Rightarrow> state \<Rightarrow> (votes \<times> state) res" where
  "setInitialVotes E [] vs s = ret (vs, s)"
| "setInitialVotes E (supported # rest) vs s =
     bindr (getCreator E supported s) (\<lambda>(creator, s1).
       setInitialVotes E rest (AList.update creator (Voting supported) vs) s1)"

fun initYVotes ::
  "event list \<Rightarrow> ref list \<Rightarrow> (hash \<times> hash list) list \<Rightarrow> ref list \<Rightarrow> state \<Rightarrow> state res" where
  "initYVotes E allYs yAncestryMaps [] s = ret s"
| "initYVotes E allYs yAncestryMaps (y # ys) s =
     bindr (allEndorsedYs E y allYs yAncestryMaps) (\<lambda>found.
       bindr (setInitialVotes E (setAdd y found) [] (s\<lparr>yOf := (yOf s)(y := Some y)\<rparr>))
         (\<lambda>(vs, s1).
            initYVotes E allYs yAncestryMaps ys (s1\<lparr>votes := (votes s1)(y := Some vs)\<rparr>)))"

definition findConsensusMergeEventProof ::
  "event list \<Rightarrow> byElector \<Rightarrow> byElector \<Rightarrow> elector list \<Rightarrow> state \<Rightarrow> (ref list \<times> state) res" where
  "findConsensusMergeEventProof E xByElector yByElector electors s =
     (let allYs = map snd yByElector
      in if length electors = 1 then ret (allYs, s)
         else
           bindr (liftO (buildAncestryMaps E allYs [])) (\<lambda>maps0.
             bindr (extendAncestryMaps E xByElector allYs maps0 s) (\<lambda>(yAncestryMaps, s1).
               bindr (initYVotes E allYs yAncestryMaps allYs s1) (\<lambda>s2.
                 bindr (tallyBranches E yByElector electors s2) (\<lambda>(consensus, s3).
                   ret (case consensus of Some c \<Rightarrow> c | None \<Rightarrow> [], s3))))))"

subsection \<open>\_findMergeEventProof and findConsensus\<close>

record proofEntry =
  py :: ref
  px :: ref
  pproof :: "ref list"

fun pairYsWithXs ::
  "event list \<Rightarrow> byElector \<Rightarrow> nat \<Rightarrow> ref list \<Rightarrow> state \<Rightarrow> (proofEntry list \<times> state) res" where
  "pairYsWithXs E xByElector supermajority [] s = ret ([], s)"
| "pairYsWithXs E xByElector supermajority (y # ys) s =
     bindr (getCreator E y s) (\<lambda>(creator, s1).
       case map_of xByElector creator of
         None \<Rightarrow> throw
       | Some x \<Rightarrow>
           (case xDescendants s1 y of
              None \<Rightarrow> throw
            | Some descendants \<Rightarrow>
                bindr (liftO (flattenDescendants E x descendants)) (\<lambda>proof0.
                  bindr (pairYsWithXs E xByElector supermajority ys s1) (\<lambda>(ps, s2).
                    ret (\<lparr>py = y, px = x,
                          pproof = (if length proof0 = 0 \<and> supermajority = 1 then [x]
                                    else proof0)\<rparr> # ps, s2)))))"

definition findMergeEventProof ::
  "event list \<Rightarrow> tails \<Rightarrow> elector list \<Rightarrow> state \<Rightarrow> (proofEntry list \<times> state) res" where
  "findMergeEventProof E tails electors s =
     bindr (findMergeEventProofCandidates E tails electors s) (\<lambda>(candidates, s1).
       case candidates of
         None \<Rightarrow> ret ([], s1)
       | Some (yByElector, xByElector) \<Rightarrow>
           (let supermajority = twoThirdsMajority (length electors)
            in if length (map fst yByElector) < supermajority then ret ([], s1)
               else
                 bindr (findConsensusMergeEventProof E xByElector yByElector electors s1)
                   (\<lambda>(ys, s2).
                      if length ys = 0 then ret ([], s2)
                      else pairYsWithXs E xByElector supermajority ys s2)))"

record result =
  eventHashes :: "hash list"
  consensusProofHashes :: "hash list"

text \<open>
  \<^verbatim>\<open>findConsensus\<close>, on the event objects \<open>E\<close>, \<^verbatim>\<open>history.events\<close> and the identifiers of
  the electors.  \<open>ret None\<close> is the result \<^verbatim>\<open>null\<close>.  \<^verbatim>\<open>ledgerNode\<close> and
  \<^verbatim>\<open>blockHeight\<close> only reach the log.
\<close>

definition findConsensus :: "event list \<Rightarrow> ref list \<Rightarrow> elector list \<Rightarrow> result option res" where
  "findConsensus E events electors =
     bindr (getElectorBranches E events electors (initState E)) (\<lambda>(tails, s1).
       bindr (findMergeEventProof E tails electors s1) (\<lambda>(consensus, s2).
         if length consensus = 0 then ret None
         else
           bindr (liftO (getAncestorHashes E (map px consensus))) (\<lambda>hashes.
             ret (Some \<lparr>eventHashes = hashes,
                       consensusProofHashes =
                         uniq (concat (map (\<lambda>current. map (\<lambda>r. eventHash (E ! r))
                                                        (pproof current)) consensus))\<rparr>))))"

section \<open>Notions used in the statements\<close>

text \<open>The value of \<^verbatim>\<open>proof.consensus\<close> in \<^verbatim>\<open>findConsensus\<close>: the pairs of a Y, its X and the proof.\<close>

definition consensusProof :: "event list \<Rightarrow> ref list \<Rightarrow> elector list \<Rightarrow> proofEntry list res" where
  "consensusProof E events electors =
     bindr (getElectorBranches E events electors (initState E)) (\<lambda>(tails, s1).
       bindr (findMergeEventProof E tails electors s1) (\<lambda>(consensus, s2). ret consensus))"

text \<open>
  The events whose creator \<^verbatim>\<open>_getCreator\<close> finds: the event carries it, or its first
  child does.
\<close>

definition carriesCreator :: "event list \<Rightarrow> ref \<Rightarrow> bool" where
  "carriesCreator E r \<longleftrightarrow> creator0 (E ! r) \<noteq> None \<and> creator0 (E ! r) \<noteq> Some []"

definition creatorFound :: "event list \<Rightarrow> ref \<Rightarrow> bool" where
  "creatorFound E r \<longleftrightarrow>
     carriesCreator E r
     \<or> (case children (E ! r) of c # _ \<Rightarrow> carriesCreator E c | [] \<Rightarrow> False)"

text \<open>A merge event that carries its creator, and an event without creator and children.\<close>

definition merge :: "hash \<Rightarrow> string \<Rightarrow> hash option \<Rightarrow> hash list \<Rightarrow> ref list \<Rightarrow> event" where
  "merge h c t ph ps =
     \<lparr>eventHash = h, creator0 = Some c, treeHash = t, parentHash = ph, parents = ps,
      children = []\<rparr>"

definition orphan :: event where
  "orphan = \<lparr>eventHash = ''e1'', creator0 = None, treeHash = None, parentHash = [],
             parents = [], children = []\<rparr>"

text \<open>Scenario S1: one elector A with the merge events a1 (the tail), a2 and a3.\<close>

definition S1 :: "event list" where
  "S1 = [merge ''a1'' ''A'' None [] [],
         merge ''a2'' ''A'' (Some ''a1'') [''a1''] [0],
         merge ''a3'' ''A'' (Some ''a2'') [''a2''] [1]]"

text \<open>
  \<^verbatim>\<open>_getCreator\<close> writes the creator of an event only where the event carries none:
  creators that are present stay.  Most of the functions change nothing else.
\<close>

definition metaKept :: "state \<Rightarrow> state \<Rightarrow> bool" where
  "metaKept s s' \<longleftrightarrow>
     (\<forall>e. meta s e \<noteq> None \<and> meta s e \<noteq> Some [] \<longrightarrow> meta s' e = meta s e)"

definition metaOnly :: "state \<Rightarrow> state \<Rightarrow> bool" where
  "metaOnly s s' \<longleftrightarrow> s' = s\<lparr>meta := meta s'\<rparr> \<and> metaKept s s'"

definition treeChild :: "state \<Rightarrow> ref \<Rightarrow> bool" where
  "treeChild s c \<longleftrightarrow> (\<exists>p. c \<in> set (treeChildren s p))"

text \<open>What the first loop of \<^verbatim>\<open>_getElectorBranches\<close> establishes.\<close>

definition linked :: "event list \<Rightarrow> tails \<Rightarrow> state \<Rightarrow> bool" where
  "linked E t s \<longleftrightarrow>
     (\<forall>p c. c \<in> set (treeChildren s p) \<longrightarrow> findTreeParent E c = Some p)
     \<and> (\<forall>el xs x. map_of t el = Some xs \<and> x \<in> set xs \<longrightarrow> findTreeParent E x = None)
     \<and> distinct (map fst t)"

text \<open>
  Histories of tails only: one elector's tail; the tail of A and two tails of B; the tails
  of A, B and C and two tails of D.
\<close>

definition W1 :: "event list" where
  "W1 = [merge ''a1'' ''A'' None [] []]"

definition W3 :: "event list" where
  "W3 = [merge ''a1'' ''A'' None [] [], merge ''b1'' ''B'' None [] [],
         merge ''b9'' ''B'' None [] []]"

definition W4 :: "event list" where
  "W4 = [merge ''a1'' ''A'' None [] [], merge ''b1'' ''B'' None [] [],
         merge ''c1'' ''C'' None [] [], merge ''d1'' ''D'' None [] [],
         merge ''d9'' ''D'' None [] []]"

text \<open>
  The merge events reached from a set of events through \<^verbatim>\<open>_parents\<close> (the events
  themselves included), and the hashes they contribute: their own and those of their
  \<^verbatim>\<open>parentHash\<close>.
\<close>

definition parentRel :: "event list \<Rightarrow> (ref \<times> ref) set" where
  "parentRel E = {(e, p). p \<in> set (parents (E ! e))}"

definition ancestorsOf :: "event list \<Rightarrow> ref set \<Rightarrow> ref set" where
  "ancestorsOf E X = (parentRel E)\<^sup>* `` X"

definition hashesOf :: "event list \<Rightarrow> ref set \<Rightarrow> hash set" where
  "hashesOf E V = (\<Union>e \<in> V. insert (eventHash (E ! e)) (set (parentHash (E ! e))))"

text \<open>The invariant of the traversal of \<^verbatim>\<open>_getAncestorHashes\<close>, with the events still to visit.\<close>

definition traversal :: "event list \<Rightarrow> ref set \<Rightarrow> ref set \<Rightarrow> hash list \<Rightarrow> ref list \<Rightarrow> bool" where
  "traversal E X pending hashes visited \<longleftrightarrow>
     distinct hashes \<and> set hashes = hashesOf E (set visited)
     \<and> set visited \<union> pending \<subseteq> ancestorsOf E X
     \<and> X \<subseteq> set visited \<union> pending
     \<and> (\<forall>v \<in> set visited. set (parents (E ! v)) \<subseteq> set visited \<union> pending)"

text \<open>
  One elector A whose only merge event m1 names its earlier merge event m0 (which already
  has consensus and is not in the snapshot) and the regular event r1 in \<^verbatim>\<open>parentHash\<close>.
\<close>

definition R1 :: "event list" where
  "R1 = [merge ''m1'' ''A'' (Some ''m0'') [''m0'', ''r1''] []]"

text \<open>
  What the proof protocol leaves alone: the links and generations of
  \<^verbatim>\<open>_getElectorBranches\<close> and the descendant maps of the candidates.
\<close>

definition protocolFrame :: "state \<Rightarrow> state \<Rightarrow> bool" where
  "protocolFrame s s' \<longleftrightarrow>
     treeParent s' = treeParent s \<and> treeChildren s' = treeChildren s
     \<and> generation s' = generation s \<and> initDescendants s' = initDescendants s
     \<and> xDescendants s' = xDescendants s"

text \<open>Every precommit that waits for its confirm point supports a set.\<close>

definition precommitsSupported :: "state \<Rightarrow> bool" where
  "precommitsSupported s \<longleftrightarrow> (\<forall>c p. toConfirm s c = Some p \<longrightarrow> supporting s p \<noteq> None)"

text \<open>
  Two electors A and C in a clean round: the tails a1 and c1, then merge events that each
  have the creator's previous merge event and the other elector's latest one as parents.
\<close>

definition T2 :: "event list" where
  "T2 = [merge ''a1'' ''A'' None [] [], merge ''c1'' ''C'' None [] [],
         merge ''c2'' ''C'' (Some ''c1'') [''c1'', ''a1''] [1, 0],
         merge ''a2'' ''A'' (Some ''a1'') [''a1'', ''c2''] [0, 2],
         merge ''c3'' ''C'' (Some ''c2'') [''c2'', ''a2''] [2, 3],
         merge ''a3'' ''A'' (Some ''a2'') [''a2'', ''c3''] [3, 4],
         merge ''c4'' ''C'' (Some ''c3'') [''c3'', ''a3''] [4, 5],
         merge ''a4'' ''A'' (Some ''a3'') [''a3'', ''c4''] [5, 6],
         merge ''c5'' ''C'' (Some ''c4'') [''c4'', ''a4''] [6, 7],
         merge ''a5'' ''A'' (Some ''a4'') [''a4'', ''c5''] [7, 8],
         merge ''c6'' ''C'' (Some ''c5'') [''c5'', ''a5''] [8, 9],
         merge ''a6'' ''A'' (Some ''a5'') [''a5'', ''c6''] [9, 10]]"

text \<open>
  A history of the electors A and C in which C forks after its Y: \<open>c3\<close> (reference 4)
  has the two tree children \<open>c4\<close> (5) and \<open>c9\<close> (6), which merge the regular events \<open>r4\<close>
  and \<open>r9\<close>; A merges \<open>c9\<close> into \<open>a3\<close> (7) and C merges \<open>a3\<close> into \<open>c5\<close> (8), the tree
  child of \<open>c4\<close>.
\<close>

definition F2 :: "event list" where
  "F2 = [merge ''a1'' ''A'' None [] [],
         merge ''c1'' ''C'' None [] [],
         merge ''c2'' ''C'' (Some ''c1'') [''c1'', ''a1''] [1, 0],
         merge ''a2'' ''A'' (Some ''a1'') [''a1'', ''c2''] [0, 2],
         merge ''c3'' ''C'' (Some ''c2'') [''c2'', ''a2''] [2, 3],
         merge ''c4'' ''C'' (Some ''c3'') [''c3'', ''r4''] [4],
         merge ''c9'' ''C'' (Some ''c3'') [''c3'', ''r9''] [4],
         merge ''a3'' ''A'' (Some ''a2'') [''a2'', ''c9''] [3, 6],
         merge ''c5'' ''C'' (Some ''c4'') [''c4'', ''a3''] [5, 7]]"

text \<open>
  The steps of \<^verbatim>\<open>findConsensus\<close> up to the call of \<^verbatim>\<open>_tallyBranches\<close>: the Ys by elector
  and the state that \<^verbatim>\<open>_tallyBranches\<close> starts from.
\<close>

definition branchesInit ::
  "event list \<Rightarrow> ref list \<Rightarrow> elector list \<Rightarrow> (byElector \<times> state) res" where
  "branchesInit E events electors =
     bindr (getElectorBranches E events electors (initState E)) (\<lambda>(tails, s1).
       bindr (findMergeEventProofCandidates E tails electors s1) (\<lambda>(candidates, s2).
         case candidates of
           None \<Rightarrow> throw
         | Some (yByElector, xByElector) \<Rightarrow>
             (let allYs = map snd yByElector
              in bindr (liftO (buildAncestryMaps E allYs [])) (\<lambda>maps0.
                   bindr (extendAncestryMaps E xByElector allYs maps0 s2)
                     (\<lambda>(yAncestryMaps, s3).
                        bindr (initYVotes E allYs yAncestryMaps allYs s3) (\<lambda>s4.
                          ret (yByElector, s4)))))))"

text \<open>
  A snapshot as the callers build it: the events and their \<^verbatim>\<open>_parents\<close> are objects of
  the snapshot, every event carries its creator, the tree parent of an event has the
  creator of the event, and the hash of an event identifies it.
\<close>

definition snapshot :: "event list \<Rightarrow> ref list \<Rightarrow> bool" where
  "snapshot E events \<longleftrightarrow>
     list_all (\<lambda>e. e < length E) events
     \<and> list_all (\<lambda>e.
          list_all (\<lambda>p. p < length E) (parents (E ! e))
          \<and> creator0 (E ! e) \<noteq> None \<and> creator0 (E ! e) \<noteq> Some []
          \<and> (case findTreeParent E e of
                Some p \<Rightarrow> creator0 (E ! p) = creator0 (E ! e)
              | None \<Rightarrow> True)
          \<and> list_all (\<lambda>e'. eventHash (E ! e') = eventHash (E ! e) \<longrightarrow> e' = e) [0..<length E])
        [0..<length E]"

text \<open>
  The entries of a map of descendants that was filled on the way back from \<open>y\<close>: an entry
  under a hash is an event reached from \<open>y\<close> that has a parent with this hash.
\<close>

definition pathMap :: "event list \<Rightarrow> ref \<Rightarrow> dmap \<Rightarrow> bool" where
  "pathMap E y ds \<longleftrightarrow>
     (\<forall>h es e. map_of ds h = Some es \<and> e \<in> set es \<longrightarrow>
        e < length E \<and> (y, e) \<in> (parentRel E)\<^sup>*
        \<and> (\<exists>p \<in> set (parents (E ! e)). eventHash (E ! p) = h))"

definition reached :: "event list \<Rightarrow> ref \<Rightarrow> ref list \<Rightarrow> bool" where
  "reached E y xs \<longleftrightarrow> (\<forall>e \<in> set xs. e < length E \<and> (y, e) \<in> (parentRel E)\<^sup>*)"

text \<open>The tree children are events whose parents include their tree parent, of the same creator.\<close>

definition branchLinks :: "event list \<Rightarrow> (ref \<Rightarrow> ref list) \<Rightarrow> bool" where
  "branchLinks E tc \<longleftrightarrow>
     (\<forall>p c. c \<in> set (tc p) \<longrightarrow>
        c < length E \<and> p \<in> set (parents (E ! c)) \<and> creator0 (E ! c) = creator0 (E ! p))"

text \<open>A Y of the X \<open>x\<close> with its map of descendants.\<close>

definition candidate :: "event list \<Rightarrow> ref \<Rightarrow> ref \<Rightarrow> dmap \<Rightarrow> bool" where
  "candidate E x y ds \<longleftrightarrow>
     y < length E \<and> (y, x) \<in> (parentRel E)\<^sup>* \<and> creator0 (E ! y) = creator0 (E ! x)
     \<and> pathMap E y ds"

text \<open>
  The objects are numbered so that the parents of an event come before the event: the
  history has no cycle.
\<close>

definition parentsFirst :: "event list \<Rightarrow> bool" where
  "parentsFirst E \<longleftrightarrow>
     list_all (\<lambda>e. list_all (\<lambda>p. p < e) (parents (E ! e))) [0..<length E]"


text \<open>
  The two loops of \<^verbatim>\<open>_tallyBranches\<close>, one step at a time.  A configuration is the rest
  of \<^verbatim>\<open>current\<close>, the list \<^verbatim>\<open>next\<close> and the state.  A step processes the first event of
  \<^verbatim>\<open>current\<close>, which waits for outstanding votes or is tallied without a decision, or it
  starts the next round of the outer loop.  There is no step from a decision, from a
  TypeError, or from the end of the loop, where \<^verbatim>\<open>current\<close> and \<^verbatim>\<open>next\<close> are empty.
\<close>

type_synonym config = "ref list \<times> ref list \<times> state"

inductive tallyStep :: "event list \<Rightarrow> byElector \<Rightarrow> elector list \<Rightarrow> config \<Rightarrow> config \<Rightarrow> bool"
  for E :: "event list" and yByElector :: byElector and electors :: "elector list" where
  waits: "tallyEvent E yByElector electors event s = ret (Outstanding, s1)
    \<Longrightarrow> tallyStep E yByElector electors (event # rest, nxt, s) (rest, nxt @ [event], s1)"
| tallied: "tallyEvent E yByElector electors event s = ret (Continue, s1)
    \<Longrightarrow> tallyStep E yByElector electors (event # rest, nxt, s)
          (rest, nxt @ treeChildren s1 event, s1)"
| round: "nxt \<noteq> []
    \<Longrightarrow> tallyStep E yByElector electors ([], nxt, s) (nxt, [], s)"


text \<open>What the loops return from a configuration.\<close>

definition restOfLoop ::
  "event list \<Rightarrow> byElector \<Rightarrow> elector list \<Rightarrow> config \<Rightarrow> (ref list option \<times> state) res" where
  "restOfLoop E yByElector electors c =
     (case c of (current, nxt, s) \<Rightarrow>
        (case tallyCurrent E yByElector electors current nxt s of
           None \<Rightarrow> None
         | Some (Inl err) \<Rightarrow> Some (Inl err)
         | Some (Inr (result, nxt', s1)) \<Rightarrow>
             (case result of
                Some r \<Rightarrow> ret (Some r, s1)
              | None \<Rightarrow> tallyLoop E yByElector electors nxt' s1)))"

text \<open>
  Two event objects that are copies of each other under a correspondence \<open>A\<close> of the
  objects: the same hashes and creator, corresponding \<^verbatim>\<open>_parents\<close> and \<^verbatim>\<open>_children\<close>.  Two
  lists of objects are copies when corresponding objects are.
\<close>

definition rel_event :: "(ref \<Rightarrow> ref \<Rightarrow> bool) \<Rightarrow> event \<Rightarrow> event \<Rightarrow> bool" where
  "rel_event A e e' \<longleftrightarrow>
     eventHash e = eventHash e' \<and> creator0 e = creator0 e' \<and> treeHash e = treeHash e'
     \<and> parentHash e = parentHash e' \<and> list_all2 A (parents e) (parents e')
     \<and> list_all2 A (children e) (children e')"

definition rel_store :: "(ref \<Rightarrow> ref \<Rightarrow> bool) \<Rightarrow> event list \<Rightarrow> event list \<Rightarrow> bool" where
  "rel_store A E E' \<longleftrightarrow> (\<forall>r r'. A r r' \<longrightarrow> rel_event A (E ! r) (E' ! r'))"

text \<open>
  Values and states that differ only in the objects they refer to: votes, the steps of
  \<^verbatim>\<open>_tallyBranches\<close>, maps of descendants, the derived properties and the pairs of the proof.
\<close>

definition rel_vote :: "(ref \<Rightarrow> ref \<Rightarrow> bool) \<Rightarrow> vote \<Rightarrow> vote \<Rightarrow> bool" where
  "rel_vote A v v' =
     (case v of
        Byzantine \<Rightarrow> (case v' of Byzantine \<Rightarrow> True | Voting _ \<Rightarrow> False)
      | Voting r \<Rightarrow> (case v' of Byzantine \<Rightarrow> False | Voting r' \<Rightarrow> A r r'))"

definition rel_step :: "(ref \<Rightarrow> ref \<Rightarrow> bool) \<Rightarrow> step \<Rightarrow> step \<Rightarrow> bool" where
  "rel_step A t t' =
     (case t of
        Outstanding \<Rightarrow> (case t' of Outstanding \<Rightarrow> True | _ \<Rightarrow> False)
      | Decided ys \<Rightarrow> (case t' of Decided ys' \<Rightarrow> list_all2 A ys ys' | _ \<Rightarrow> False)
      | Continue \<Rightarrow> (case t' of Continue \<Rightarrow> True | _ \<Rightarrow> False))"

abbreviation rel_dmap :: "(ref \<Rightarrow> ref \<Rightarrow> bool) \<Rightarrow> dmap \<Rightarrow> dmap \<Rightarrow> bool" where
  "rel_dmap A \<equiv> list_all2 (rel_prod (=) (list_all2 A))"

definition rel_state :: "(ref \<Rightarrow> ref \<Rightarrow> bool) \<Rightarrow> state \<Rightarrow> state \<Rightarrow> bool" where
  "rel_state A s s' \<longleftrightarrow>
     (rel_fun A (=)) (meta s) (meta s')
     \<and> (rel_fun A (rel_option A)) (treeParent s) (treeParent s')
     \<and> (rel_fun A (list_all2 A)) (treeChildren s) (treeChildren s')
     \<and> (rel_fun A (=)) (generation s) (generation s')
     \<and> (rel_fun A (rel_option (rel_dmap A))) (initDescendants s) (initDescendants s')
     \<and> (rel_fun A (rel_option (rel_dmap A))) (xDescendants s) (xDescendants s')
     \<and> (rel_fun A (rel_option A)) (yDescendants s) (yDescendants s')
     \<and> (rel_fun A (list_all2 (rel_prod (=) (rel_dmap A)))) (yDescStore s) (yDescStore s')
     \<and> (rel_fun A (rel_option (list_all2 A))) (supporting s) (supporting s')
     \<and> (rel_fun A (rel_option (list_all2 (rel_prod (=) (rel_vote A))))) (votes s) (votes
       s')
     \<and> (rel_fun A (rel_option A)) (preCommit s) (preCommit s')
     \<and> (rel_fun A (rel_option A)) (confirmPoint s) (confirmPoint s')
     \<and> (rel_fun A (rel_option A)) (toConfirm s) (toConfirm s')
     \<and> (rel_fun A (rel_option A)) (yOf s) (yOf s')"

definition rel_proofEntry :: "(ref \<Rightarrow> ref \<Rightarrow> bool) \<Rightarrow> proofEntry \<Rightarrow> proofEntry \<Rightarrow> bool" where
  "rel_proofEntry A p p' \<longleftrightarrow>
     A (py p) (py p') \<and> A (px p) (px p') \<and> list_all2 A (pproof p) (pproof p')"

abbreviation rel_res :: "('a \<Rightarrow> 'b \<Rightarrow> bool) \<Rightarrow> 'a res \<Rightarrow> 'b res \<Rightarrow> bool" where
  "rel_res R \<equiv> rel_option (rel_sum (=) R)"

text \<open>If the first computation returns, the second returns a related value.\<close>

definition rel_le :: "('a \<Rightarrow> 'b \<Rightarrow> bool) \<Rightarrow> 'a option \<Rightarrow> 'b option \<Rightarrow> bool" where
  "rel_le R m m' \<longleftrightarrow> (\<forall>y. m = Some y \<longrightarrow> (\<exists>y'. m' = Some y' \<and> R y y'))"

text \<open>
  A copy of a history with its objects in the opposite order: the object \<open>r\<close> of \<open>E\<close> is
  the object \<open>length E - 1 - r\<close> of the copy, with the same hashes and creator.
\<close>

definition renamed :: "(ref \<Rightarrow> ref) \<Rightarrow> event \<Rightarrow> event" where
  "renamed f e = e\<lparr>parents := map f (parents e), children := map f (children e)\<rparr>"

definition mirrored :: "event list \<Rightarrow> event list" where
  "mirrored E = rev (map (renamed (\<lambda>r. length E - Suc r)) E)"

definition mirror :: "nat \<Rightarrow> ref \<Rightarrow> ref \<Rightarrow> bool" where
  "mirror n r r' \<longleftrightarrow> r < n \<and> r' = n - Suc r"

text \<open>
  A history of the electors A and C in which C forks after its Y: \<open>c3\<close> (reference 4) has
  the tree children \<open>c5\<close> (5), which merges the regular event \<open>r5\<close>, and \<open>c9\<close> (7), which
  merges \<open>a3\<close> (6); \<open>a3\<close> merges \<open>c5\<close>.  It is presented with \<open>c9\<close> before \<open>c5\<close> and
  \<open>a3\<close>.
\<close>

definition H1 :: "event list" where
  "H1 = [merge ''a1'' ''A'' None [] [], merge ''c1'' ''C'' None [] [],
         merge ''c2'' ''C'' (Some ''c1'') [''c1'', ''a1''] [1, 0],
         merge ''a2'' ''A'' (Some ''a1'') [''a1'', ''c2''] [0, 2],
         merge ''c3'' ''C'' (Some ''c2'') [''c2'', ''a2''] [2, 3],
         merge ''c5'' ''C'' (Some ''c3'') [''c3'', ''r5''] [4],
         merge ''a3'' ''A'' (Some ''a2'') [''a2'', ''c5''] [3, 5],
         merge ''c9'' ''C'' (Some ''c3'') [''c3'', ''a3''] [4, 6]]"

section \<open>Properties\<close>

subsection \<open>Results and evaluation\<close>

lemma bindr_ret [simp]: "bindr (ret x) f = f x"
  by (simp add: bindr_def ret_def)

lemma bindr_throw [simp]: "bindr throw f = throw"
  by (simp add: bindr_def throw_def)

lemma bindr_None [simp]: "bindr None f = None"
  by (simp add: bindr_def)

lemma bindr_weak_cong [cong]: "m = m' \<Longrightarrow> bindr m f = bindr m' f"
  by simp

lemma bindr_Some_Inr [simp]: "bindr (Some (Inr x)) f = f x"
  by (simp add: bindr_def)

lemma bindr_Some_Inl [simp]: "bindr (Some (Inl e)) f = Some (Inl e)"
  by (simp add: bindr_def)

lemma bindr_eq_Inr:
  "bindr m f = Some (Inr y) \<longleftrightarrow> (\<exists>x. m = Some (Inr x) \<and> f x = Some (Inr y))"
  by (auto simp: bindr_def split: option.splits sum.splits)

lemma ret_neq_throw [simp]: "ret x \<noteq> throw" "throw \<noteq> ret x"
  by (simp_all add: ret_def throw_def)

lemma ret_inject [simp]: "ret x = ret y \<longleftrightarrow> x = y"
  by (simp add: ret_def)

lemma getCreator_cases:
  "getCreator E r s = throw \<or> (\<exists>c s'. getCreator E r s = ret (c, s'))"
  by (simp add: getCreator_def split: list.splits option.splits)

lemma getCreator_present:
  "meta s r \<noteq> None \<Longrightarrow> meta s r \<noteq> Some [] \<Longrightarrow> getCreator E r s = ret (the (meta s r), s)"
  by (simp add: getCreator_def)

lemma getCreator_frame:
  "getCreator E r s = Some (Inr (c, s')) \<Longrightarrow> s' = s\<lparr>meta := meta s'\<rparr>"
  by (auto simp: getCreator_def ret_def throw_def split: if_splits list.splits option.splits)

subsection \<open>The supermajority\<close>

text \<open>
  C9.  \<^verbatim>\<open>twoThirdsMajority(n)\<close> is \<open>n\<close> for \<open>n \<le> 3\<close> and \<open>2 \<cdot> \<lfloor>n/3\<rfloor> + 1\<close> otherwise,
  for every natural number \<open>n\<close>; the values at 1, 2, 3, 4, 7, 10 and 13 are
  1, 2, 3, 3, 5, 7 and 9.
\<close>

theorem C9_twoThirdsMajority:
  "twoThirdsMajority n = (if n \<le> 3 then n else 2 * (n div 3) + 1)
   \<and> twoThirdsMajority 1 = 1 \<and> twoThirdsMajority 2 = 2 \<and> twoThirdsMajority 3 = 3
   \<and> twoThirdsMajority 4 = 3 \<and> twoThirdsMajority 7 = 5 \<and> twoThirdsMajority 10 = 7
   \<and> twoThirdsMajority 13 = 9"
  by (simp add: twoThirdsMajority_def)

lemma twoThirdsMajority_eq_1: "twoThirdsMajority n = 1 \<longleftrightarrow> n = 1"
  by (auto simp: twoThirdsMajority_def div_greater_zero_iff)

subsection \<open>No electors\<close>

lemma linkEvents_no_electors:
  "linkEvents E [] events t s = throw \<or> (\<exists>s'. linkEvents E [] events t s = ret (t, s'))"
proof (induction events arbitrary: s)
  case Nil
  show ?case by simp
next
  case (Cons e rest)
  from getCreator_cases [of E e s] show ?case
  proof
    assume "getCreator E e s = throw"
    then show ?thesis by simp
  next
    assume "\<exists>c s'. getCreator E e s = ret (c, s')"
    then obtain c s1 where "getCreator E e s = ret (c, s1)" by blast
    with Cons.IH [of s1] show ?thesis by simp
  qed
qed

lemma tallyLoop_Nil [simp]: "tallyLoop E yBy electors [] s = ret (None, s)"
  by (simp add: tallyLoop.simps)

lemma findMergeEventProof_no_electors:
  "findMergeEventProof E [] [] s = ret ([], s)"
  by (simp add: findMergeEventProof_def findMergeEventProofCandidates_def twoThirdsMajority_def
      findConsensusMergeEventProof_def liftO_def tallyBranches_def Let_def ret_def)

lemma getElectorBranches_no_electors:
  "getElectorBranches E events [] s = throw \<or> (\<exists>s'. getElectorBranches E events [] s = ret ([], s'))"
  using linkEvents_no_electors [of E events "[]" s]
  by (auto simp: getElectorBranches_def)

lemma findConsensus_no_electors:
  "findConsensus E events [] = throw \<or> findConsensus E events [] = ret None"
  using getElectorBranches_no_electors [of E events "initState E"]
  by (auto simp: findConsensus_def findMergeEventProof_no_electors)

lemma getCreator_found:
  assumes "\<forall>r. carriesCreator E r \<longrightarrow> meta s r = creator0 (E ! r)" and "creatorFound E e"
  shows "\<exists>c s'. getCreator E e s = ret (c, s')
           \<and> (\<forall>r. carriesCreator E r \<longrightarrow> meta s' r = creator0 (E ! r))"
proof (cases "meta s e \<noteq> None \<and> meta s e \<noteq> Some []")
  case True
  then have "getCreator E e s = ret (the (meta s e), s)" by (simp add: getCreator_present)
  with assms(1) show ?thesis by blast
next
  case False
  with assms(1) have n: "\<not> carriesCreator E e" by (auto simp: carriesCreator_def)
  with assms(2) obtain c cs where
    c: "children (E ! e) = c # cs" "carriesCreator E c"
    by (auto simp: creatorFound_def split: list.splits)
  with assms(1) obtain cr where cr: "meta s c = Some cr"
    by (auto simp: carriesCreator_def)
  with False c(1) have
    "getCreator E e s = ret (cr, s\<lparr>meta := (meta s)(e := Some cr)\<rparr>)"
    by (auto simp: getCreator_def)
  moreover from assms(1) n have
    "\<forall>r. carriesCreator E r \<longrightarrow> meta (s\<lparr>meta := (meta s)(e := Some cr)\<rparr>) r = creator0 (E ! r)"
    by auto
  ultimately show ?thesis by blast
qed

lemma linkEvents_no_electors_found:
  "\<forall>r \<in> set events. creatorFound E r
   \<Longrightarrow> \<forall>r. carriesCreator E r \<longrightarrow> meta s r = creator0 (E ! r)
   \<Longrightarrow> \<exists>s'. linkEvents E [] events t s = ret (t, s')"
proof (induction events arbitrary: s)
  case Nil
  show ?case by simp
next
  case (Cons e rest)
  from Cons.prems have "creatorFound E e" by simp
  from getCreator_found [OF Cons.prems(2) this] obtain c s1 where
    g: "getCreator E e s = ret (c, s1)" and
    i: "\<forall>r. carriesCreator E r \<longrightarrow> meta s1 r = creator0 (E ! r)" by blast
  from Cons.prems(1) have "\<forall>r \<in> set rest. creatorFound E r" by simp
  from Cons.IH [OF this i] g show ?case by simp
qed

lemma findConsensus_orphan: "findConsensus [orphan] [0] [] = throw"
  by (simp add: findConsensus_def getElectorBranches_def getCreator_def initState_def orphan_def)

text \<open>
  C10.  With no electors \<^verbatim>\<open>findConsensus\<close> returns \<^verbatim>\<open>null\<close> on every history in which
  \<^verbatim>\<open>_getCreator\<close> finds the creator of every event (the event carries it, or its first
  child does): the supermajority is 0, no early return fires, there are no X and no Y and the
  tally loop ends at once.  On a malformed history, with an event that has no creator and
  no children, \<^verbatim>\<open>_getCreator\<close> throws a TypeError; there is no other outcome.
\<close>

theorem C10_empty_electors:
  "(findConsensus E events [] = ret None \<or> findConsensus E events [] = throw)
   \<and> ((\<forall>r \<in> set events. creatorFound E r) \<longrightarrow> findConsensus E events [] = ret None)"
proof (intro conjI impI)
  show "findConsensus E events [] = ret None \<or> findConsensus E events [] = throw"
    using findConsensus_no_electors [of E events] by blast
next
  assume a: "\<forall>r \<in> set events. creatorFound E r"
  have "\<forall>r. carriesCreator E r \<longrightarrow> meta (initState E) r = creator0 (E ! r)"
    by (simp add: initState_def)
  from linkEvents_no_electors_found [OF a this] obtain s' where
    "linkEvents E [] events [] (initState E) = ret ([], s')" by blast
  then show "findConsensus E events [] = ret None"
    by (simp add: findConsensus_def getElectorBranches_def findMergeEventProof_no_electors)
qed

theorem C10_witness:
  "findConsensus
     [\<lparr>eventHash = ''r1'', creator0 = None, treeHash = None, parentHash = [], parents = [],
       children = [1]\<rparr>,
      merge ''a1'' ''A'' None [''r1''] []] [0, 1] [] = ret None"
  using C10_empty_electors
    [of "[\<lparr>eventHash = ''r1'', creator0 = None, treeHash = None, parentHash = [], parents = [],
           children = [1]\<rparr>,
          merge ''a1'' ''A'' None [''r1''] []]" "[0, 1]"]
  by (simp add: merge_def creatorFound_def carriesCreator_def)

subsection \<open>A single elector\<close>

lemma bindr_assoc_like:
  "bindr (bindr m f) g = bindr m (\<lambda>x. bindr (f x) g)"
  by (simp add: bindr_def split: option.splits sum.splits)

lemma findConsensus_consensusProof:
  "findConsensus E events electors =
     bindr (consensusProof E events electors) (\<lambda>consensus.
       if length consensus = 0 then ret None
       else bindr (liftO (getAncestorHashes E (map px consensus))) (\<lambda>hashes.
              ret (Some \<lparr>eventHashes = hashes,
                        consensusProofHashes =
                          uniq (concat (map (\<lambda>current. map (\<lambda>r. eventHash (E ! r))
                                                         (pproof current)) consensus))\<rparr>)))"
  by (auto simp: findConsensus_def consensusProof_def bindr_def ret_def
           split: option.splits sum.splits prod.splits)

lemma values_update: "snd ` set (AList.update k v al) \<subseteq> insert v (snd ` set al)"
  by (induction al) auto

lemma findYs_one:
  "findYs E electors 1 xBy keys yBy s = Some (Inr (yBy', s'))
   \<Longrightarrow> \<forall>y \<in> snd ` set yBy. xDescendants s y = Some []
   \<Longrightarrow> \<forall>y \<in> snd ` set yBy'. xDescendants s' y = Some []"
proof (induction keys arbitrary: yBy s)
  case Nil
  then show ?case by (simp add: ret_def)
next
  case (Cons elector rest)
  from Cons.prems(1) obtain x where x: "map_of xBy elector = Some x"
    by (auto simp: throw_def split: option.splits)
  from Cons.prems(1) x obtain am where
    "findYs E electors 1 xBy rest (AList.update elector x yBy)
       (s\<lparr>xDescendants := (xDescendants s)(x := Some [])\<rparr>) = Some (Inr (yBy', s'))"
    by (auto simp: bindr_eq_Inr findDiversePedigreeMergeEvent_def ret_def)
  moreover have "\<forall>y \<in> snd ` set (AList.update elector x yBy).
      xDescendants (s\<lparr>xDescendants := (xDescendants s)(x := Some [])\<rparr>) y = Some []"
  proof
    fix y assume "y \<in> snd ` set (AList.update elector x yBy)"
    with values_update [of elector x yBy] have "y = x \<or> y \<in> snd ` set yBy" by blast
    then show "xDescendants (s\<lparr>xDescendants := (xDescendants s)(x := Some [])\<rparr>) y = Some []"
      using Cons.prems(2) by auto
  qed
  ultimately show ?case by (rule Cons.IH)
qed

lemma flattenDescendants_empty: "flattenDescendants E x [] = Some []"
  by (simp add: flattenDescendants_def flattenLoop.simps descendantsOf_def uniq_def)

lemma pairYsWithXs_one:
  "pairYsWithXs E xBy 1 ys s = Some (Inr (ps, s'))
   \<Longrightarrow> \<forall>y \<in> set ys. xDescendants s y = Some []
   \<Longrightarrow> \<forall>p \<in> set ps. pproof p = [px p]"
proof (induction ys arbitrary: s ps)
  case Nil
  then show ?case by (simp add: ret_def)
next
  case (Cons y ys)
  from Cons.prems(1) obtain c s1 where g: "getCreator E y s = Some (Inr (c, s1))"
    by (auto simp: bindr_eq_Inr)
  from getCreator_frame [OF g] have xd: "xDescendants s1 = xDescendants s"
    by (metis state.select_convs(6) state.surjective state.update_convs(1))
  from Cons.prems(1) g obtain x where x: "map_of xBy c = Some x"
    by (auto simp: throw_def split: option.splits)
  have d: "xDescendants s1 y = Some []" using Cons.prems(2) xd by simp
  from Cons.prems(1) g x d obtain ps' where
    r: "pairYsWithXs E xBy 1 ys s1 = Some (Inr (ps', s'))" and
    ps: "ps = \<lparr>py = y, px = x, pproof = [x]\<rparr> # ps'"
    by (auto simp: bindr_eq_Inr flattenDescendants_empty liftO_def ret_def)
  from Cons.IH [OF r] Cons.prems(2) xd have "\<forall>p \<in> set ps'. pproof p = [px p]" by simp
  with ps show ?case by simp
qed

lemma findMergeEventProof_one:
  assumes s1: "twoThirdsMajority (length electors) = 1"
    and r: "findMergeEventProof E tails electors s = ret (consensus, s')"
  shows "\<forall>p \<in> set consensus. pproof p = [px p]"
proof -
  have n: "length electors = 1"
    using s1 twoThirdsMajority_eq_1 [of "length electors"] by blast
  from r obtain cand s1' where c: "findMergeEventProofCandidates E tails electors s = Some (Inr (cand, s1'))"
    by (auto simp: findMergeEventProof_def bindr_eq_Inr ret_def)
  show ?thesis
  proof (cases cand)
    case None
    with r c show ?thesis by (simp add: findMergeEventProof_def ret_def)
  next
    case (Some yx)
    obtain yBy xBy where yx: "yx = (yBy, xBy)" by (cases yx)
    from c Some yx obtain s0 where
      ys: "findYs E electors 1 xBy (map fst xBy) [] s0 = Some (Inr (yBy, s1'))"
      by (auto simp: findMergeEventProofCandidates_def Let_def s1 bindr_eq_Inr ret_def
               split: if_splits)
    from findYs_one [OF ys] have xd: "\<forall>y \<in> snd ` set yBy. xDescendants s1' y = Some []"
      by simp
    from r c Some yx n s1 have
      "consensus = [] \<or> pairYsWithXs E xBy 1 (map snd yBy) s1' = Some (Inr (consensus, s'))"
      by (auto simp: findMergeEventProof_def findConsensusMergeEventProof_def Let_def ret_def
               split: if_splits)
    then show ?thesis
    proof
      assume "consensus = []" then show ?thesis by simp
    next
      assume "pairYsWithXs E xBy 1 (map snd yBy) s1' = Some (Inr (consensus, s'))"
      from pairYsWithXs_one [OF this] xd show ?thesis by simp
    qed
  qed
qed

lemmas eval_defs = findConsensus_def getElectorBranches_def getCreator_def initState_def
  findTreeParent_def findMergeEventProof_def findMergeEventProofCandidates_def
  twoThirdsMajority_def findDiversePedigreeMergeEvent_def findConsensusMergeEventProof_def
  flattenDescendants_def liftO_def uniq_def getAncestorHashes_def setAdd_def descendantsOf_def
  ret_def throw_def buildAncestryMap_def findDescendantsInPath_def
  hasSufficientEndorsements_def allEndorsedYs_def generationGreater_def generationGreaterEq_def
  useMostRecentVotingEvent_def updateToMostRecentVotes_def compareSupportSet_def
  findSetInTally_def votesOf_def findUnionPreCommitSet_def votingEvents_def chooseNext_def
  previousChoice_def createPreCommit_def supportNextChoice_def finishTally_def tally_def
  tallyChoice_def
  collectVotes_def outstandingVotes_def tallyEvent_def tallyBranches_def keysOf_def
  consensusProof_def merge_def Let_def

lemmas eval_loops = setGenerations.simps ancestorHashesLoop.simps buildAncestryLoop.simps
  descendantsInPathLoop.simps flattenLoop.simps endorsementsLoop.simps diversePedigreeLoop.simps
  hasAncestorsLoop.simps mostRecentVotesLoop.simps tallyLoop.simps

lemma S1_consensus:
  "consensusProof S1 [0, 1, 2] [''A''] = ret [\<lparr>py = 0, px = 0, pproof = [0]\<rparr>]"
  by (simp add: S1_def eval_defs eval_loops)

lemma S1_findConsensus:
  "findConsensus S1 [0, 1, 2] [''A'']
     = ret (Some \<lparr>eventHashes = [''a1''], consensusProofHashes = [''a1'']\<rparr>)"
  by (simp add: S1_def eval_defs eval_loops)

text \<open>
  C8.  In scenario S1 (one elector A; a1 the tail, a2 with parent a1, a3 with parent a2)
  the Y-set is a1, paired with the X a1 and the proof a1, and \<^verbatim>\<open>findConsensus\<close> returns
  the event hashes a1 and the consensus proof hashes a1.  Whenever the supermajority is 1,
  the proof of every pair of \<^verbatim>\<open>_findMergeEventProof\<close> is its X alone.
\<close>

theorem C8_single_elector:
  "consensusProof S1 [0, 1, 2] [''A''] = ret [\<lparr>py = 0, px = 0, pproof = [0]\<rparr>]
   \<and> findConsensus S1 [0, 1, 2] [''A'']
       = ret (Some \<lparr>eventHashes = [''a1''], consensusProofHashes = [''a1'']\<rparr>)
   \<and> (twoThirdsMajority (length electors) = 1
        \<longrightarrow> findMergeEventProof E tails electors s = ret (consensus, s')
        \<longrightarrow> (\<forall>p \<in> set consensus. pproof p = [px p]))"
  using S1_consensus S1_findConsensus findMergeEventProof_one by blast

theorem C8_witness:
  "twoThirdsMajority (length [''A'']) = 1
   \<and> (\<exists>s'. findMergeEventProof S1 [(''A'', [0])] [''A''] (initState S1)
              = ret ([\<lparr>py = 0, px = 0, pproof = [0]\<rparr>], s'))
   \<and> pproof \<lparr>py = 0, px = 0, pproof = [0]\<rparr> = [px \<lparr>py = 0, px = 0, pproof = [0]\<rparr>]"
proof -
  have n: "twoThirdsMajority (length [''A'']) = 1"
    by (simp add: twoThirdsMajority_def)
  have "\<exists>s'. findMergeEventProof S1 [(''A'', [0])] [''A''] (initState S1)
              = ret ([\<lparr>py = 0, px = 0, pproof = [0]\<rparr>], s')"
    by (simp add: S1_def eval_defs eval_loops)
  then obtain s' where
    r: "findMergeEventProof S1 [(''A'', [0])] [''A''] (initState S1)
          = ret ([\<lparr>py = 0, px = 0, pproof = [0]\<rparr>], s')" ..
  from C8_single_elector [of "[''A'']" S1 "[(''A'', [0])]" "initState S1"
      "[\<lparr>py = 0, px = 0, pproof = [0]\<rparr>]" s'] n r
  have "pproof \<lparr>py = 0, px = 0, pproof = [0]\<rparr> = [px \<lparr>py = 0, px = 0, pproof = [0]\<rparr>]"
    by simp
  with n r show ?thesis by blast
qed

lemma metaKept_refl [simp]: "metaKept s s"
  by (simp add: metaKept_def)

lemma metaKept_trans: "metaKept s s1 \<Longrightarrow> metaKept s1 s2 \<Longrightarrow> metaKept s s2"
  unfolding metaKept_def by metis

lemma metaKept_meta: "meta s' = meta s \<Longrightarrow> metaKept s s'"
  by (simp add: metaKept_def)

lemma metaOnly_refl [simp]: "metaOnly s s"
  by (simp add: metaOnly_def)

lemma metaOnly_trans: "metaOnly s s1 \<Longrightarrow> metaOnly s1 s2 \<Longrightarrow> metaOnly s s2"
proof -
  assume a: "metaOnly s s1" "metaOnly s1 s2"
  then have "s1 = s\<lparr>meta := meta s1\<rparr>" "s2 = s1\<lparr>meta := meta s2\<rparr>"
    by (simp_all add: metaOnly_def)
  then have "s2 = s\<lparr>meta := meta s2\<rparr>" by (cases s, cases s1, cases s2) simp
  moreover from a have "metaKept s s2" unfolding metaOnly_def by (blast intro: metaKept_trans)
  ultimately show ?thesis by (simp add: metaOnly_def)
qed

lemma metaOnly_metaKept: "metaOnly s s' \<Longrightarrow> metaKept s s'"
  by (simp add: metaOnly_def)

lemma metaOnly_fields:
  assumes "metaOnly s s'"
  shows "treeParent s' = treeParent s" "treeChildren s' = treeChildren s"
    "generation s' = generation s" "initDescendants s' = initDescendants s"
    "xDescendants s' = xDescendants s" "yDescendants s' = yDescendants s"
    "yDescStore s' = yDescStore s" "supporting s' = supporting s" "votes s' = votes s"
    "preCommit s' = preCommit s" "confirmPoint s' = confirmPoint s"
    "toConfirm s' = toConfirm s" "yOf s' = yOf s"
proof -
  from assms have "s' = s\<lparr>meta := meta s'\<rparr>" by (simp add: metaOnly_def)
  then show "treeParent s' = treeParent s" "treeChildren s' = treeChildren s"
    "generation s' = generation s" "initDescendants s' = initDescendants s"
    "xDescendants s' = xDescendants s" "yDescendants s' = yDescendants s"
    "yDescStore s' = yDescStore s" "supporting s' = supporting s" "votes s' = votes s"
    "preCommit s' = preCommit s" "confirmPoint s' = confirmPoint s"
    "toConfirm s' = toConfirm s" "yOf s' = yOf s"
    by (cases s, cases s', simp)+
qed

lemma getCreator_metaKept: "getCreator E r s = Some (Inr (c, s')) \<Longrightarrow> metaKept s s'"
  unfolding getCreator_def metaKept_def
  by (auto simp: ret_def throw_def split: if_splits list.splits option.splits)

lemma getCreator_metaOnly: "getCreator E r s = Some (Inr (c, s')) \<Longrightarrow> metaOnly s s'"
  unfolding metaOnly_def by (blast intro: getCreator_frame getCreator_metaKept)

lemma endorsementsOfDescendants_metaOnly:
  "endorsementsOfDescendants E electors sm d en tot s = Some (Inr (b, en', tot', s'))
   \<Longrightarrow> metaOnly s s'"
proof (induction d arbitrary: en tot s)
  case Nil
  then show ?case by (simp add: ret_def)
next
  case (Cons e d)
  from Cons.prems obtain c s1 where g: "getCreator E e s = Some (Inr (c, s1))"
    by (auto simp: bindr_eq_Inr)
  from Cons.prems g have
    "s' = s1 \<or> (\<exists>en1 tot1. endorsementsOfDescendants E electors sm d en1 tot1 s1
                    = Some (Inr (b, en', tot', s')))"
    by (auto simp: ret_def split: if_splits)
  then have "metaOnly s1 s'" using Cons.IH by auto
  with getCreator_metaOnly [OF g] show ?case by (rule metaOnly_trans)
qed

lemma endorsementsLevel_metaOnly:
  "endorsementsLevel E electors sm ds cur nxt en tot s = Some (Inr (b, nxt', en', tot', s'))
   \<Longrightarrow> metaOnly s s'"
proof (induction cur arbitrary: nxt en tot s)
  case Nil
  then show ?case by (simp add: ret_def)
next
  case (Cons e cur)
  from Cons.prems obtain f en1 tot1 s1 where
    g: "endorsementsOfDescendants E electors sm (descendantsOf E ds e) en tot s
          = Some (Inr (f, en1, tot1, s1))"
    by (auto simp: bindr_eq_Inr)
  from Cons.prems g have
    "s' = s1 \<or> (\<exists>nxt1. endorsementsLevel E electors sm ds cur nxt1 en1 tot1 s1
                    = Some (Inr (b, nxt', en', tot', s')))"
    by (auto simp: ret_def split: if_splits)
  then have "metaOnly s1 s'" using Cons.IH by auto
  with endorsementsOfDescendants_metaOnly [OF g] show ?case by (rule metaOnly_trans)
qed

lemma endorsementsLoop_metaOnly:
  "endorsementsLoop E electors sm ds cur en tot s = Some r \<Longrightarrow> r = Inr (b, s') \<Longrightarrow> metaOnly s s'"
proof (induction arbitrary: b s' rule: endorsementsLoop.raw_induct [rotated -1, consumes 1])
  case (1 loop E electors sm ds cur en tot s r)
  show ?case
  proof (cases cur)
    case Nil
    with 1 show ?thesis by (simp add: ret_def)
  next
    case (Cons e rest)
    with 1(2,3) obtain f next1 en1 tot1 s1 where
      l: "endorsementsLevel E electors sm ds cur [] en tot s = Some (Inr (f, next1, en1, tot1, s1))"
      by (auto split: option.splits sum.splits)
    from Cons 1(2,3) l have
      "s' = s1 \<or> loop E electors sm ds (uniq next1) en1 tot1 s1 = Some (Inr (b, s'))"
      by (auto simp: ret_def split: if_splits)
    then have "metaOnly s1 s'" using 1(1) by auto
    with endorsementsLevel_metaOnly [OF l] show ?thesis by (rule metaOnly_trans)
  qed
qed

lemma hasSufficientEndorsements_metaOnly:
  "hasSufficientEndorsements E x ds electors sm s = Some (Inr (b, s')) \<Longrightarrow> metaOnly s s'"
  by (auto simp: hasSufficientEndorsements_def bindr_eq_Inr
           dest: getCreator_metaOnly endorsementsLoop_metaOnly intro: metaOnly_trans)

lemma diversePedigreeLoop_metaOnly:
  "diversePedigreeLoop E electors sm am x td ds s = Some r \<Longrightarrow> r = Inr (y, ds', s')
   \<Longrightarrow> metaOnly s s'"
proof (induction arbitrary: y ds' s' rule: diversePedigreeLoop.raw_induct [rotated -1, consumes 1])
  case (1 loop E electors sm am x td ds s r)
  from 1(2,3) obtain ds1 suff s1 where
    f: "findDescendantsInPath E am td ds = Some ds1" and
    h: "hasSufficientEndorsements E x ds1 electors sm s = Some (Inr (suff, s1))"
    by (auto split: option.splits sum.splits)
  from 1(2,3) f h have
    "s' = s1 \<or> (\<exists>c. loop E electors sm am x c ds1 s1 = Some (Inr (y, ds', s')))"
    by (auto simp: ret_def split: if_splits list.splits)
  then have "metaOnly s1 s'" using 1(1) by auto
  with hasSufficientEndorsements_metaOnly [OF h] show ?case by (rule metaOnly_trans)
qed

lemma findDiversePedigreeMergeEvent_metaOnly:
  "findDiversePedigreeMergeEvent E x electors sm ds am s = Some (Inr (y, ds', s'))
   \<Longrightarrow> metaOnly s s'"
  by (auto simp: findDiversePedigreeMergeEvent_def ret_def
           split: if_splits list.splits dest: diversePedigreeLoop_metaOnly)

lemma findXs_map:
  "findXs E tails keys xBy s = Some (Inr (xBy', s'))
   \<Longrightarrow> map_of xBy' el =
         (if el \<in> set keys \<and> (\<exists>t. map_of tails el = Some [t])
          then Some (hd (the (map_of tails el))) else map_of xBy el)"
proof (induction keys arbitrary: xBy s)
  case Nil
  then show ?case by (simp add: ret_def)
next
  case (Cons k rest)
  from Cons.prems obtain ts where ts: "map_of tails k = Some ts"
    by (auto simp: throw_def split: option.splits)
  show ?case
  proof (cases "\<exists>t. ts = [t]")
    case True
    then obtain t where t: "ts = [t]" by blast
    from Cons.prems ts t have
      "findXs E tails rest (AList.update k t xBy)
         (s\<lparr>initDescendants := (initDescendants s)(t := Some [(eventHash (E ! t), [])])\<rparr>)
       = Some (Inr (xBy', s'))"
      by simp
    from Cons.IH [OF this] ts t show ?thesis
      by (auto simp: update_conv')
  next
    case False
    with Cons.prems ts have "findXs E tails rest xBy s = Some (Inr (xBy', s'))"
      by (auto split: list.splits)
    from Cons.IH [OF this] ts False show ?thesis
      by auto
  qed
qed

lemma findXs_init:
  "findXs E tails keys xBy s = Some (Inr (xBy', s'))
   \<Longrightarrow> initDescendants s' r =
         (if \<exists>el \<in> set keys. map_of tails el = Some [r]
          then Some [(eventHash (E ! r), [])] else initDescendants s r)"
proof (induction keys arbitrary: xBy s)
  case Nil
  then show ?case by (simp add: ret_def)
next
  case (Cons k rest)
  from Cons.prems obtain ts where ts: "map_of tails k = Some ts"
    by (auto simp: throw_def split: option.splits)
  show ?case
  proof (cases "\<exists>t. ts = [t]")
    case True
    then obtain t where t: "ts = [t]" by blast
    from Cons.prems ts t have
      "findXs E tails rest (AList.update k t xBy)
         (s\<lparr>initDescendants := (initDescendants s)(t := Some [(eventHash (E ! t), [])])\<rparr>)
       = Some (Inr (xBy', s'))"
      by simp
    from Cons.IH [OF this] ts t show ?thesis
      by auto
  next
    case False
    with Cons.prems ts have "findXs E tails rest xBy s = Some (Inr (xBy', s'))"
      by (auto split: list.splits)
    from Cons.IH [OF this] ts False show ?thesis
      by auto
  qed
qed

lemma findYs_keys:
  "findYs E electors sm xBy keys yBy s = Some (Inr (yBy', s'))
   \<Longrightarrow> fst ` set yBy' \<subseteq> fst ` set yBy \<union> set keys
     \<and> s' = s\<lparr>meta := meta s', xDescendants := xDescendants s'\<rparr>"
proof (induction keys arbitrary: yBy s)
  case Nil
  then show ?case by (simp add: ret_def)
next
  case (Cons el rest)
  from Cons.prems obtain x where x: "map_of xBy el = Some x"
    by (auto simp: throw_def split: option.splits)
  from Cons.prems x obtain am y ds s1 where
    f: "findDiversePedigreeMergeEvent E x electors sm [] am s = Some (Inr (y, ds, s1))" and
    k: "(case y of
           Some y' \<Rightarrow> findYs E electors sm xBy rest (AList.update el y' yBy)
                        (s1\<lparr>xDescendants := (xDescendants s1)(y' := Some ds)\<rparr>)
         | None \<Rightarrow> findYs E electors sm xBy rest yBy s1) = Some (Inr (yBy', s'))"
    by (auto simp: bindr_eq_Inr)
  have m: "s1 = s\<lparr>meta := meta s1\<rparr>"
    using findDiversePedigreeMergeEvent_metaOnly [OF f] by (simp add: metaOnly_def)
  show ?case
  proof (cases y)
    case None
    with k have "findYs E electors sm xBy rest yBy s1 = Some (Inr (yBy', s'))" by simp
    from Cons.IH [OF this] have
      a: "fst ` set yBy' \<subseteq> fst ` set yBy \<union> set rest" and
      b: "s' = s1\<lparr>meta := meta s', xDescendants := xDescendants s'\<rparr>" by auto
    from b m have "s' = s\<lparr>meta := meta s', xDescendants := xDescendants s'\<rparr>"
      by (cases s, cases s1, cases s') simp
    with a show ?thesis by auto
  next
    case (Some y')
    let ?s2 = "s1\<lparr>xDescendants := (xDescendants s1)(y' := Some ds)\<rparr>"
    from k Some have
      "findYs E electors sm xBy rest (AList.update el y' yBy) ?s2 = Some (Inr (yBy', s'))"
      by simp
    from Cons.IH [OF this] have
      a: "fst ` set yBy' \<subseteq> fst ` set (AList.update el y' yBy) \<union> set rest" and
      b: "s' = ?s2\<lparr>meta := meta s', xDescendants := xDescendants s'\<rparr>" by auto
    from b m have "s' = s\<lparr>meta := meta s', xDescendants := xDescendants s'\<rparr>"
      by (cases s, cases s1, cases s') simp
    moreover have "fst ` set (AList.update el y' yBy) = insert el (fst ` set yBy)"
      using dom_update [of el y' yBy] by (simp add: dom_map_of_conv_image_fst)
    ultimately show ?thesis using a by auto
  qed
qed

lemma map_of_None_keys: "k \<notin> fst ` set al \<Longrightarrow> map_of al k = None"
  by (simp add: map_of_eq_None_iff)

lemma candidates_spec:
  assumes "findMergeEventProofCandidates E tails electors s = ret (Some (yBy, xBy), s')"
  shows "(\<forall>el t. map_of tails el = Some [t] \<longrightarrow>
            map_of xBy el = Some t
            \<and> initDescendants s' t = Some [(eventHash (E ! t), [])])
       \<and> (\<forall>el ts. map_of tails el = Some ts \<and> length ts \<noteq> 1 \<longrightarrow>
            map_of xBy el = None \<and> map_of yBy el = None)"
proof -
  let ?sm = "twoThirdsMajority (length electors)"
  from assms obtain s1 where
    xs: "findXs E tails (map fst tails) [] s = Some (Inr (xBy, s1))" and
    ys: "findYs E electors ?sm xBy (map fst xBy) [] s1 = Some (Inr (yBy, s'))"
    by (auto simp: findMergeEventProofCandidates_def Let_def bindr_eq_Inr ret_def
             split: if_splits)
  note Xm = findXs_map [OF xs]
  note Xi = findXs_init [OF xs]
  note Y = findYs_keys [OF ys]
  have keys: "\<And>el ts. map_of tails el = Some ts \<Longrightarrow> el \<in> set (map fst tails)"
    by (metis domI dom_map_of_conv_image_fst set_map)
  have init: "initDescendants s' = initDescendants s1"
    using Y by (cases s1, cases s') simp
  have one: "\<And>el t. map_of tails el = Some [t] \<Longrightarrow>
      map_of xBy el = Some t \<and> initDescendants s' t = Some [(eventHash (E ! t), [])]"
  proof -
    fix el t assume a: "map_of tails el = Some [t]"
    with keys have k: "el \<in> set (map fst tails)" by blast
    with a have "\<exists>el \<in> set (map fst tails). map_of tails el = Some [t]" by blast
    with Xi [of t] init have "initDescendants s' t = Some [(eventHash (E ! t), [])]"
      by simp
    moreover from Xm [of el] a k have "map_of xBy el = Some t" by simp
    ultimately show "map_of xBy el = Some t
        \<and> initDescendants s' t = Some [(eventHash (E ! t), [])]" by simp
  qed
  have other: "\<And>el ts. map_of tails el = Some ts \<Longrightarrow> length ts \<noteq> 1 \<Longrightarrow>
      map_of xBy el = None \<and> map_of yBy el = None"
  proof -
    fix el ts assume a: "map_of tails el = Some ts" "length ts \<noteq> 1"
    then have "\<not> (\<exists>t. map_of tails el = Some [t])" by auto
    with Xm [of el] have x: "map_of xBy el = None" by simp
    then have "el \<notin> fst ` set xBy" by (simp add: map_of_eq_None_iff)
    with Y have "el \<notin> fst ` set yBy" by auto
    with x show "map_of xBy el = None \<and> map_of yBy el = None"
      by (simp add: map_of_eq_None_iff)
  qed
  from one other show ?thesis by blast
qed

subsection \<open>Generations of the tails\<close>

lemma foldl_generation:
  "foldl (\<lambda>m event. m(event := Some g)) m cur e = (if e \<in> set cur then Some g else m e)"
  by (induction cur arbitrary: m) auto

lemma setGenerations_frame:
  "setGenerations g cur s = Some s'
   \<Longrightarrow> treeChildren s' = treeChildren s
     \<and> (\<forall>e. e \<notin> set cur \<and> \<not> treeChild s e \<longrightarrow> generation s' e = generation s e)"
proof (induction rule: setGenerations.raw_induct [rotated -1, consumes 1])
  case (1 loop g cur s s')
  show ?case
  proof (cases cur)
    case Nil
    with 1(2) show ?thesis by simp
  next
    case (Cons c rest)
    let ?s1 = "s\<lparr>generation := foldl (\<lambda>m event. m(event := Some g)) (generation s) cur\<rparr>"
    let ?nxt = "concat (map (treeChildren s) cur)"
    from Cons 1(2) have "loop (g + 1) ?nxt ?s1 = Some s'" by simp
    from 1(1) [OF this] have
      a: "treeChildren s' = treeChildren s" and
      b: "\<forall>e. e \<notin> set ?nxt \<and> \<not> treeChild ?s1 e \<longrightarrow> generation s' e = generation ?s1 e"
      by simp_all
    have c: "\<And>e. \<not> treeChild s e \<Longrightarrow> e \<notin> set ?nxt \<and> \<not> treeChild ?s1 e"
      by (auto simp: treeChild_def)
    show ?thesis
    proof (intro conjI allI impI)
      show "treeChildren s' = treeChildren s" by (rule a)
    next
      fix e assume e: "e \<notin> set cur \<and> \<not> treeChild s e"
      with b c have "generation s' e = generation ?s1 e" by blast
      with e show "generation s' e = generation s e" by (simp add: foldl_generation)
    qed
  qed
qed

lemma setGenerations_step:
  "cur \<noteq> [] \<Longrightarrow>
   setGenerations g cur s =
     setGenerations (g + 1) (concat (map (treeChildren s) cur))
       (s\<lparr>generation := foldl (\<lambda>m event. m(event := Some g)) (generation s) cur\<rparr>)"
  by (subst setGenerations.simps) (simp split: list.splits)

lemma setGenerations_first:
  assumes "setGenerations g cur s = Some s'" and "t \<in> set cur" and "\<not> treeChild s t"
  shows "generation s' t = Some g"
proof -
  let ?s1 = "s\<lparr>generation := foldl (\<lambda>m event. m(event := Some g)) (generation s) cur\<rparr>"
  let ?nxt = "concat (map (treeChildren s) cur)"
  from assms(2) have "cur \<noteq> []" by auto
  from setGenerations_step [OF this, of g s] assms(1)
  have r: "setGenerations (g + 1) ?nxt ?s1 = Some s'" by simp
  have "t \<notin> set ?nxt \<and> \<not> treeChild ?s1 t" using assms(3) by (auto simp: treeChild_def)
  with setGenerations_frame [OF r] have "generation s' t = generation ?s1 t" by blast
  with assms(2) show ?thesis by (simp add: foldl_generation)
qed

lemma setAllGenerations_tails:
  "setAllGenerations ts s = Some s'
   \<Longrightarrow> \<forall>(el, xs) \<in> set ts. \<forall>t \<in> set xs. \<not> treeChild s t
   \<Longrightarrow> treeChildren s' = treeChildren s
     \<and> (\<forall>(el, xs) \<in> set ts. \<forall>t \<in> set xs. generation s' t = Some 1)
     \<and> (\<forall>e. \<not> treeChild s e \<and> generation s e = Some 1 \<longrightarrow> generation s' e = Some 1)"
proof (induction ts arbitrary: s)
  case Nil
  then show ?case by simp
next
  case (Cons p rest)
  obtain el xs where p: "p = (el, xs)" by (cases p)
  from Cons.prems(1) p obtain s1 where
    g: "setGenerations 1 xs s = Some s1" and r: "setAllGenerations rest s1 = Some s'"
    by (auto split: option.splits)
  note F = setGenerations_frame [OF g]
  from F have tc: "\<And>e. treeChild s1 e = treeChild s e" by (simp add: treeChild_def)
  have "\<forall>(el, xs) \<in> set rest. \<forall>t \<in> set xs. \<not> treeChild s1 t"
    using Cons.prems(2) tc by auto
  from Cons.IH [OF r this] have
    a: "treeChildren s' = treeChildren s1" and
    b: "\<forall>(el, xs) \<in> set rest. \<forall>t \<in> set xs. generation s' t = Some 1" and
    c: "\<forall>e. \<not> treeChild s1 e \<and> generation s1 e = Some 1 \<longrightarrow> generation s' e = Some 1"
    by auto
  have keep: "\<And>e. \<not> treeChild s e \<Longrightarrow> generation s e = Some 1 \<Longrightarrow> generation s1 e = Some 1"
  proof -
    fix e assume e: "\<not> treeChild s e" "generation s e = Some 1"
    show "generation s1 e = Some 1"
    proof (cases "e \<in> set xs")
      case True
      from setGenerations_first [OF g True e(1)] show ?thesis .
    next
      case False
      with F e show ?thesis by simp
    qed
  qed
  have first: "\<forall>t \<in> set xs. generation s' t = Some 1"
  proof
    fix t assume t: "t \<in> set xs"
    with Cons.prems(2) p have n: "\<not> treeChild s t" by auto
    from setGenerations_first [OF g t n] have "generation s1 t = Some 1" .
    with c n tc show "generation s' t = Some 1" by simp
  qed
  show ?case
  proof (intro conjI)
    show "treeChildren s' = treeChildren s" using a F by simp
    show "\<forall>(el, xs) \<in> set (p # rest). \<forall>t \<in> set xs. generation s' t = Some 1"
      using b first p by auto
    show "\<forall>e. \<not> treeChild s e \<and> generation s e = Some 1 \<longrightarrow> generation s' e = Some 1"
      using c keep tc by auto
  qed
qed

lemma linkEvents_linked:
  "linkEvents E electors events t s = Some (Inr (t', s')) \<Longrightarrow> linked E t s \<Longrightarrow> linked E t' s'"
proof (induction events arbitrary: t s)
  case Nil
  then show ?case by (simp add: ret_def)
next
  case (Cons e rest)
  from Cons.prems(1) obtain c s1 where g: "getCreator E e s = Some (Inr (c, s1))"
    by (auto simp: bindr_eq_Inr)
  from getCreator_metaOnly [OF g] have tc: "treeChildren s1 = treeChildren s"
    by (rule metaOnly_fields)
  show ?case
  proof (cases "c \<in> set electors")
    case False
    with Cons.prems(1) g have "linkEvents E electors rest t s1 = Some (Inr (t', s'))" by simp
    moreover have "linked E t s1" using Cons.prems(2) tc by (simp add: linked_def)
    ultimately show ?thesis by (rule Cons.IH)
  next
    case True
    show ?thesis
    proof (cases "findTreeParent E e")
      case (Some p)
      let ?s2 = "s1\<lparr>treeParent := (treeParent s1)(e := Some p),
                     treeChildren := (treeChildren s1)(p := treeChildren s1 p @ [e])\<rparr>"
      from Cons.prems(1) g True Some have
        "linkEvents E electors rest t ?s2 = Some (Inr (t', s'))" by simp
      moreover have "linked E t ?s2"
        using Cons.prems(2) tc Some by (auto simp: linked_def)
      ultimately show ?thesis by (rule Cons.IH)
    next
      case None
      let ?t2 = "AList.update c (case map_of t c of Some ts \<Rightarrow> ts @ [e] | None \<Rightarrow> [e]) t"
      let ?s2 = "s1\<lparr>treeParent := (treeParent s1)(e := None)\<rparr>"
      from Cons.prems(1) g True None have
        "linkEvents E electors rest ?t2 ?s2 = Some (Inr (t', s'))" by simp
      moreover have "linked E ?t2 ?s2"
        using Cons.prems(2) tc None
        by (auto simp: linked_def update_conv' distinct_update split: option.splits if_splits)
      ultimately show ?thesis by (rule Cons.IH)
    qed
  qed
qed

lemma linked_initState: "linked E [] (initState E)"
  by (simp add: linked_def initState_def)

lemma getElectorBranches_generation:
  assumes "getElectorBranches E events electors (initState E) = ret (tails, s)"
    and "map_of tails el = Some xs" and "t \<in> set xs"
  shows "generation s t = Some 1"
proof -
  from assms(1) obtain s1 where
    l: "linkEvents E electors events [] (initState E) = Some (Inr (tails, s1))" and
    g: "setAllGenerations tails s1 = Some s"
    by (auto simp: getElectorBranches_def bindr_eq_Inr ret_def split: option.splits)
  from linkEvents_linked [OF l linked_initState] have L: "linked E tails s1" .
  have "\<forall>(el, xs) \<in> set tails. \<forall>t \<in> set xs. \<not> treeChild s1 t"
  proof (clarify)
    fix el xs t assume a: "(el, xs) \<in> set tails" "t \<in> set xs" "treeChild s1 t"
    from a(3) obtain p where "t \<in> set (treeChildren s1 p)" by (auto simp: treeChild_def)
    with L have "findTreeParent E t = Some p" by (simp add: linked_def)
    moreover from L a(1) have "map_of tails el = Some xs" by (simp add: linked_def)
    with L a(2) have "findTreeParent E t = None" unfolding linked_def by blast
    ultimately show False by simp
  qed
  from setAllGenerations_tails [OF g this] have
    "\<forall>(el, xs) \<in> set tails. \<forall>t \<in> set xs. generation s t = Some 1" by blast
  moreover from assms(2) have "(el, xs) \<in> set tails" by (rule map_of_SomeD)
  ultimately show ?thesis using assms(3) by blast
qed

subsection \<open>The X candidates\<close>

text \<open>
  C7.  In the loop that selects the Xs (and so in every result of
  \<^verbatim>\<open>_findMergeEventProofCandidates\<close>) an elector with exactly one tail gets that tail as
  its X, and the hash of the X is the one key of the \<^verbatim>\<open>_initDescendants\<close> of the X; an
  elector with any other number of tails gets no X, and no Y either.  After
  \<^verbatim>\<open>_getElectorBranches\<close> every tail has generation 1.
\<close>

theorem C7_x_candidates:
  "(findXs E tails (map fst tails) [] s = ret (xByElector, s') \<longrightarrow>
      (\<forall>elector t. map_of tails elector = Some [t] \<longrightarrow>
          map_of xByElector elector = Some t
          \<and> initDescendants s' t = Some [(eventHash (E ! t), [])])
      \<and> (\<forall>elector ts. map_of tails elector = Some ts \<and> length ts \<noteq> 1 \<longrightarrow>
          map_of xByElector elector = None))
   \<and> (findMergeEventProofCandidates E tails electors s = ret (Some (yByElector, xByElector), s')
       \<longrightarrow>
      (\<forall>elector t. map_of tails elector = Some [t] \<longrightarrow>
          map_of xByElector elector = Some t
          \<and> initDescendants s' t = Some [(eventHash (E ! t), [])])
      \<and> (\<forall>elector ts. map_of tails elector = Some ts \<and> length ts \<noteq> 1 \<longrightarrow>
          map_of xByElector elector = None \<and> map_of yByElector elector = None))
   \<and> (getElectorBranches E events electors (initState E) = ret (tails, s) \<longrightarrow>
      (\<forall>elector ts t. map_of tails elector = Some ts \<and> t \<in> set ts \<longrightarrow>
          generation s t = Some 1))"
proof (intro conjI impI allI)
  fix elector t
  assume a: "findXs E tails (map fst tails) [] s = ret (xByElector, s')"
    and b: "map_of tails elector = Some [t]"
  from b have k: "elector \<in> set (map fst tails)"
    by (metis domI dom_map_of_conv_image_fst set_map)
  from findXs_map [OF a [unfolded ret_def], of elector] b k
  show "map_of xByElector elector = Some t" by simp
  from b k have "\<exists>el \<in> set (map fst tails). map_of tails el = Some [t]" by blast
  with findXs_init [OF a [unfolded ret_def], of t]
  show "initDescendants s' t = Some [(eventHash (E ! t), [])]" by simp
next
  fix elector ts
  assume a: "findXs E tails (map fst tails) [] s = ret (xByElector, s')"
    and b: "map_of tails elector = Some ts \<and> length ts \<noteq> 1"
  then have "\<not> (\<exists>t. map_of tails elector = Some [t])" by auto
  with findXs_map [OF a [unfolded ret_def], of elector]
  show "map_of xByElector elector = None" by simp
next
  fix elector t
  assume a: "findMergeEventProofCandidates E tails electors s
               = ret (Some (yByElector, xByElector), s')"
    and b: "map_of tails elector = Some [t]"
  from candidates_spec [OF a] b
  show "map_of xByElector elector = Some t"
    and "initDescendants s' t = Some [(eventHash (E ! t), [])]" by blast+
next
  fix elector ts
  assume a: "findMergeEventProofCandidates E tails electors s
               = ret (Some (yByElector, xByElector), s')"
    and b: "map_of tails elector = Some ts \<and> length ts \<noteq> 1"
  from candidates_spec [OF a] b
  show "map_of xByElector elector = None" and "map_of yByElector elector = None" by blast+
next
  fix elector ts t
  assume "getElectorBranches E events electors (initState E) = ret (tails, s)"
    and "map_of tails elector = Some ts \<and> t \<in> set ts"
  then show "generation s t = Some 1"
    using getElectorBranches_generation by blast
qed

lemma W4_branches:
  "\<exists>s. getElectorBranches W4 [0, 1, 2, 3, 4] [''A'', ''B'', ''C'', ''D''] (initState W4)
         = ret ([(''A'', [0]), (''B'', [1]), (''C'', [2]), (''D'', [3, 4])], s)"
  by (simp add: W4_def eval_defs eval_loops)

lemma W4_candidates:
  "getElectorBranches W4 [0, 1, 2, 3, 4] [''A'', ''B'', ''C'', ''D''] (initState W4)
         = ret (t, s)
   \<Longrightarrow> \<exists>s'. findMergeEventProofCandidates W4 t [''A'', ''B'', ''C'', ''D''] s
         = ret (Some ([], [(''A'', 0), (''B'', 1), (''C'', 2)]), s')"
  by (simp add: W4_def eval_defs eval_loops) (auto simp: eval_defs)

theorem C7_witness:
  "\<exists>s s'. getElectorBranches W4 [0, 1, 2, 3, 4] [''A'', ''B'', ''C'', ''D''] (initState W4)
         = ret ([(''A'', [0]), (''B'', [1]), (''C'', [2]), (''D'', [3, 4])], s)
     \<and> findMergeEventProofCandidates W4 [(''A'', [0]), (''B'', [1]), (''C'', [2]), (''D'', [3, 4])]
          [''A'', ''B'', ''C'', ''D''] s
         = ret (Some ([], [(''A'', 0), (''B'', 1), (''C'', 2)]), s')
     \<and> map_of [(''A'', 0), (''B'', 1), (''C'', 2)] ''A'' = Some (0::nat)
     \<and> initDescendants s' 0 = Some [(eventHash (W4 ! 0), [])]
     \<and> map_of [(''A'', 0), (''B'', 1), (''C'', 2)] ''D'' = (None :: nat option)
     \<and> generation s 3 = Some 1"
proof -
  let ?t = "[(''A'', [0]), (''B'', [1]), (''C'', [2]), (''D'', [3, 4])]"
  let ?els = "[''A'', ''B'', ''C'', ''D'']"
  from W4_branches obtain s where
    b: "getElectorBranches W4 [0, 1, 2, 3, 4] ?els (initState W4) = ret (?t, s)" ..
  from W4_candidates [OF b] obtain s' where
    c: "findMergeEventProofCandidates W4 ?t ?els s
          = ret (Some ([], [(''A'', 0), (''B'', 1), (''C'', 2)]), s')" ..
  note T = C7_x_candidates [of W4 ?t s "[(''A'', 0), (''B'', 1), (''C'', 2)]" s' ?els "[]"
      "[0, 1, 2, 3, 4]"]
  have t1: "map_of ?t ''A'' = Some [0]" by simp
  have t2: "map_of ?t ''D'' = Some [3, 4] \<and> (3::nat) \<in> set [3, 4]" by simp
  from T c t1 have "initDescendants s' 0 = Some [(eventHash (W4 ! 0), [])]" by blast
  moreover from T b t2 have "generation s 3 = Some 1" by blast
  ultimately show ?thesis using b c by auto
qed

subsection \<open>The committed event hashes\<close>

lemma setAdd_set [simp]: "set (setAdd x xs) = insert x (set xs)"
  by (auto simp: setAdd_def)

lemma setAdd_distinct [simp]: "distinct (setAdd x xs) = distinct xs"
  by (auto simp: setAdd_def)

lemma foldl_setAdd_set [simp]: "set (foldl (\<lambda>hs h. setAdd h hs) hs xs) = set hs \<union> set xs"
  by (induction xs arbitrary: hs) auto

lemma foldl_setAdd_distinct [simp]:
  "distinct (foldl (\<lambda>hs h. setAdd h hs) hs xs) = distinct hs"
  by (induction xs arbitrary: hs) auto

lemma uniq_set [simp]: "set (uniq xs) = set xs"
  by (simp add: uniq_def)

lemma uniq_distinct [simp]: "distinct (uniq xs)"
  by (simp add: uniq_def)

lemma ancestorsOf_parents:
  "e \<in> ancestorsOf E X \<Longrightarrow> p \<in> set (parents (E ! e)) \<Longrightarrow> p \<in> ancestorsOf E X"
  unfolding ancestorsOf_def parentRel_def
  by (auto intro: rtrancl_into_rtrancl)

lemma ancestorsOf_mono: "X \<subseteq> Y \<Longrightarrow> ancestorsOf E X \<subseteq> ancestorsOf E Y"
  unfolding ancestorsOf_def by blast

lemma ancestorsOf_self: "X \<subseteq> ancestorsOf E X"
  unfolding ancestorsOf_def by blast

lemma hashesOf_insert:
  "hashesOf E (insert e V) = insert (eventHash (E ! e)) (set (parentHash (E ! e))) \<union> hashesOf E V"
  by (simp add: hashesOf_def)

lemma traversal_skip:
  "traversal E X (insert e P) h v \<Longrightarrow> e \<in> set v \<Longrightarrow> traversal E X P h v"
  unfolding traversal_def by auto

lemma traversal_visit:
  assumes "traversal E X (insert e P) h v" and "e \<notin> set v"
  shows "traversal E X (P \<union> set (parents (E ! e)))
           (foldl (\<lambda>hs h. setAdd h hs) (setAdd (eventHash (E ! e)) h) (parentHash (E ! e)))
           (v @ [e])"
proof -
  from assms(1) have e: "e \<in> ancestorsOf E X" unfolding traversal_def by auto
  then have "set (parents (E ! e)) \<subseteq> ancestorsOf E X"
    using ancestorsOf_parents by blast
  with assms e show ?thesis
    unfolding traversal_def by (auto simp: hashesOf_insert)
qed

lemma ancestorHashesLevel_traversal:
  "ancestorHashesLevel E cur nxt h v = (nxt', h', v')
   \<Longrightarrow> traversal E X (set cur \<union> set nxt) h v
   \<Longrightarrow> traversal E X (set nxt') h' v'"
proof (induction cur arbitrary: nxt h v)
  case Nil
  then show ?case by simp
next
  case (Cons e rest)
  show ?case
  proof (cases "e \<in> set v")
    case True
    with Cons.prems(1) have r: "ancestorHashesLevel E rest nxt h v = (nxt', h', v')" by simp
    from Cons.prems(2) have "traversal E X (insert e (set rest \<union> set nxt)) h v" by simp
    from traversal_skip [OF this True] Cons.IH [OF r] show ?thesis by simp
  next
    case False
    let ?h = "foldl (\<lambda>hs h. setAdd h hs) (setAdd (eventHash (E ! e)) h) (parentHash (E ! e))"
    from False Cons.prems(1) have
      r: "ancestorHashesLevel E rest (nxt @ parents (E ! e)) ?h (v @ [e]) = (nxt', h', v')"
      by simp
    from Cons.prems(2) have "traversal E X (insert e (set rest \<union> set nxt)) h v" by simp
    from traversal_visit [OF this False]
    have "traversal E X (set rest \<union> set (nxt @ parents (E ! e))) ?h (v @ [e])"
      by (simp add: Un_assoc)
    from Cons.IH [OF r this] show ?thesis .
  qed
qed

lemma ancestorHashesLoop_traversal:
  "ancestorHashesLoop E cur h v = Some r \<Longrightarrow> traversal E X (set cur) h v
   \<Longrightarrow> traversal E X {} (fst r) (snd r)"
proof (induction rule: ancestorHashesLoop.raw_induct [rotated -1, consumes 1])
  case (1 loop E cur h v r)
  show ?case
  proof (cases cur)
    case Nil
    with 1(2,3) show ?thesis by auto
  next
    case (Cons e rest)
    obtain nxt h1 v1 where l: "ancestorHashesLevel E cur [] h v = (nxt, h1, v1)"
      by (cases "ancestorHashesLevel E cur [] h v") auto
    with Cons 1(2) have r: "loop E nxt h1 v1 = Some r" by simp
    from ancestorHashesLevel_traversal [OF l] 1(3) have "traversal E X (set nxt) h1 v1" by simp
    from 1(1) [OF r this] show ?thesis .
  qed
qed

lemma traversal_root:
  "traversal E X {} h v \<Longrightarrow> traversal E (insert x X) {x} h v"
  unfolding traversal_def
  using ancestorsOf_mono [of X "insert x X" E] ancestorsOf_self [of "insert x X" E]
  by auto

lemma ancestorHashesAll_traversal:
  "ancestorHashesAll E xs h v = Some r \<Longrightarrow> traversal E X {} h v
   \<Longrightarrow> traversal E (X \<union> set xs) {} (fst r) (snd r)"
proof (induction xs arbitrary: h v X)
  case Nil
  then show ?case by auto
next
  case (Cons x xs)
  from Cons.prems(1) obtain h1 v1 where
    l: "ancestorHashesLoop E [x] h v = Some (h1, v1)" and
    r: "ancestorHashesAll E xs h1 v1 = Some r"
    by (auto split: option.splits)
  from traversal_root [OF Cons.prems(2), of x] have "traversal E (insert x X) (set [x]) h v"
    by simp
  from ancestorHashesLoop_traversal [OF l this] have "traversal E (insert x X) {} h1 v1"
    by simp
  from Cons.IH [OF r this] show ?case by simp
qed

lemma traversal_done:
  assumes "traversal E X {} h v"
  shows "set v = ancestorsOf E X"
proof
  show "set v \<subseteq> ancestorsOf E X" using assms unfolding traversal_def by auto
  show "ancestorsOf E X \<subseteq> set v"
  proof
    fix e assume "e \<in> ancestorsOf E X"
    then obtain x where x: "x \<in> X" and p: "(x, e) \<in> (parentRel E)\<^sup>*"
      unfolding ancestorsOf_def by blast
    from p show "e \<in> set v"
    proof (induction rule: rtrancl_induct)
      case base
      from x assms show ?case unfolding traversal_def by auto
    next
      case (step a b)
      then show ?case using assms unfolding traversal_def parentRel_def by auto
    qed
  qed
qed

lemma getAncestorHashes_spec:
  assumes "getAncestorHashes E allXs = Some hashes"
  shows "distinct hashes \<and> set hashes = hashesOf E (ancestorsOf E (set allXs))"
proof -
  from assms obtain v where r: "ancestorHashesAll E allXs [] [] = Some (hashes, v)"
    by (auto simp: getAncestorHashes_def)
  have "traversal E {} {} [] []"
    by (simp add: traversal_def hashesOf_def)
  from ancestorHashesAll_traversal [OF r this] have t: "traversal E (set allXs) {} hashes v"
    by simp
  from traversal_done [OF t] t show ?thesis
    unfolding traversal_def by simp
qed

lemma R1_findConsensus:
  "findConsensus R1 [0] [''A'']
     = ret (Some \<lparr>eventHashes = [''m1'', ''m0'', ''r1''], consensusProofHashes = [''m1'']\<rparr>)"
  by (simp add: R1_def eval_defs eval_loops)

lemma R1_consensus:
  "consensusProof R1 [0] [''A''] = ret [\<lparr>py = 0, px = 0, pproof = [0]\<rparr>]"
  by (simp add: R1_def eval_defs eval_loops)

lemma findConsensus_result:
  assumes "findConsensus E events electors = ret (Some r)"
  shows "\<exists>consensus. consensusProof E events electors = ret consensus \<and> consensus \<noteq> []
           \<and> getAncestorHashes E (map px consensus) = Some (eventHashes r)
           \<and> consensusProofHashes r
               = uniq (concat (map (\<lambda>current. map (\<lambda>x. eventHash (E ! x)) (pproof current))
                                consensus))"
  using assms
  by (auto simp: findConsensus_consensusProof bindr_eq_Inr ret_def liftO_def split: if_splits)

text \<open>
  C6.  In every non-null result \<^verbatim>\<open>eventHashes\<close> has no duplicates and holds exactly the
  hashes of the events reached through \<^verbatim>\<open>_parents\<close> from the paired Xs (the Xs included)
  together with the hashes in the \<^verbatim>\<open>parentHash\<close> of these events; so every hash in the
  \<^verbatim>\<open>parentHash\<close> of a committed merge event is in \<^verbatim>\<open>eventHashes\<close>.
\<close>

theorem C6_event_hashes:
  "findConsensus E events electors = ret (Some r) \<longrightarrow>
     (\<exists>consensus. consensusProof E events electors = ret consensus
        \<and> distinct (eventHashes r)
        \<and> set (eventHashes r)
            = (\<Union>e \<in> ancestorsOf E (px ` set consensus).
                 insert (eventHash (E ! e)) (set (parentHash (E ! e))))
        \<and> (\<forall>e \<in> ancestorsOf E (px ` set consensus).
              eventHash (E ! e) \<in> set (eventHashes r)
              \<and> set (parentHash (E ! e)) \<subseteq> set (eventHashes r)))"
proof
  assume "findConsensus E events electors = ret (Some r)"
  from findConsensus_result [OF this] obtain consensus where
    c: "consensusProof E events electors = ret consensus" and
    h: "getAncestorHashes E (map px consensus) = Some (eventHashes r)" by blast
  from getAncestorHashes_spec [OF h] have
    "distinct (eventHashes r)"
    "set (eventHashes r) = hashesOf E (ancestorsOf E (px ` set consensus))" by simp_all
  with c show "\<exists>consensus. consensusProof E events electors = ret consensus
        \<and> distinct (eventHashes r)
        \<and> set (eventHashes r)
            = (\<Union>e \<in> ancestorsOf E (px ` set consensus).
                 insert (eventHash (E ! e)) (set (parentHash (E ! e))))
        \<and> (\<forall>e \<in> ancestorsOf E (px ` set consensus).
              eventHash (E ! e) \<in> set (eventHashes r)
              \<and> set (parentHash (E ! e)) \<subseteq> set (eventHashes r))"
    unfolding hashesOf_def by auto
qed

theorem C6_witness:
  "findConsensus R1 [0] [''A'']
     = ret (Some \<lparr>eventHashes = [''m1'', ''m0'', ''r1''], consensusProofHashes = [''m1'']\<rparr>)
   \<and> consensusProof R1 [0] [''A''] = ret [\<lparr>py = 0, px = 0, pproof = [0]\<rparr>]
   \<and> set [''m1'', ''m0'', ''r1'']
       = (\<Union>e \<in> ancestorsOf R1 {0}. insert (eventHash (R1 ! e)) (set (parentHash (R1 ! e))))
   \<and> set (parentHash (R1 ! 0)) \<subseteq> set [''m1'', ''m0'', ''r1'']"
proof -
  from C6_event_hashes [of R1 "[0]" "[''A'']"
      "\<lparr>eventHashes = [''m1'', ''m0'', ''r1''], consensusProofHashes = [''m1'']\<rparr>"]
    R1_findConsensus R1_consensus
  have "set [''m1'', ''m0'', ''r1'']
       = (\<Union>e \<in> ancestorsOf R1 {0}. insert (eventHash (R1 ! e)) (set (parentHash (R1 ! e))))"
    by auto
  moreover have "set (parentHash (R1 ! 0)) \<subseteq> set [''m1'', ''m0'', ''r1'']"
    by (simp add: R1_def merge_def)
  ultimately show ?thesis using R1_findConsensus R1_consensus by blast
qed

subsection \<open>What the proof protocol changes\<close>

lemma protocolFrame_refl [simp]: "protocolFrame s s"
  by (simp add: protocolFrame_def)

lemma protocolFrame_trans: "protocolFrame s s1 \<Longrightarrow> protocolFrame s1 s2 \<Longrightarrow> protocolFrame s s2"
  by (simp add: protocolFrame_def)

lemma metaOnly_protocolFrame: "metaOnly s s' \<Longrightarrow> protocolFrame s s'"
  by (simp add: protocolFrame_def metaOnly_fields)

lemma mostRecentVotesLevel_metaOnly:
  "mostRecentVotesLevel E yBy ds cur nxt vs s = Some (Inr (nxt', vs', s')) \<Longrightarrow> metaOnly s s'"
proof (induction cur arbitrary: nxt vs s)
  case Nil
  then show ?case by (simp add: ret_def)
next
  case (Cons e cur)
  show ?case
  proof (cases "map_of ds (eventHash (E ! e))")
    case None
    with Cons show ?thesis by simp
  next
    case (Some d)
    with Cons.prems obtain c s1 where g: "getCreator E e s = Some (Inr (c, s1))"
      by (auto simp: bindr_eq_Inr)
    with Cons.prems Some obtain nxt1 vs1 where
      "mostRecentVotesLevel E yBy ds cur nxt1 vs1 s1 = Some (Inr (nxt', vs', s'))"
      by auto
    from Cons.IH [OF this] getCreator_metaOnly [OF g] show ?thesis
      by (blast intro: metaOnly_trans)
  qed
qed

lemma mostRecentVotesLoop_metaOnly:
  "mostRecentVotesLoop E yBy ds cur vs s = Some r \<Longrightarrow> r = Inr (vs', s') \<Longrightarrow> metaOnly s s'"
proof (induction arbitrary: vs' s' rule: mostRecentVotesLoop.raw_induct [rotated -1, consumes 1])
  case (1 loop E yBy ds cur vs s r)
  show ?case
  proof (cases cur)
    case Nil
    with 1(2,3) show ?thesis by (simp add: ret_def)
  next
    case (Cons e rest)
    with 1(2,3) obtain nxt1 vs1 s1 where
      l: "mostRecentVotesLevel E yBy ds cur [] vs s = Some (Inr (nxt1, vs1, s1))" and
      r: "loop E yBy ds (uniq nxt1) vs1 s1 = Some (Inr (vs', s'))"
      by (auto split: option.splits sum.splits)
    from 1(1) [OF r] mostRecentVotesLevel_metaOnly [OF l] show ?thesis
      by (blast intro: metaOnly_trans)
  qed
qed

lemma updateToMostRecentVotes_metaOnly:
  "updateToMostRecentVotes E y yBy ds vs s = Some (Inr (vs', s')) \<Longrightarrow> metaOnly s s'"
  unfolding updateToMostRecentVotes_def by (rule mostRecentVotesLoop_metaOnly) simp_all

lemma collectFromYs_frame:
  "collectFromYs E yBy event els s = Some (Inr s')
   \<Longrightarrow> s' = s\<lparr>meta := meta s', votes := votes s', yDescStore := yDescStore s'\<rparr>"
proof (induction els arbitrary: s)
  case Nil
  then show ?case by (simp add: ret_def)
next
  case (Cons el rest)
  from Cons.prems obtain y owner where
    y: "map_of yBy el = Some y" and o: "yDescendants s event = Some owner"
    by (auto simp: throw_def split: option.splits)
  from Cons.prems y o obtain ds vs vs' s2 where
    u: "updateToMostRecentVotes E y yBy ds vs
          (s\<lparr>yDescStore := (yDescStore s)(owner := AList.update el ds (yDescStore s owner))\<rparr>)
        = Some (Inr (vs', s2))" and
    r: "collectFromYs E yBy event rest (s2\<lparr>votes := (votes s2)(event := Some vs')\<rparr>)
          = Some (Inr s')"
    by (auto simp: bindr_eq_Inr throw_def Let_def split: option.splits)
  let ?s1 = "s\<lparr>yDescStore := (yDescStore s)(owner := AList.update el ds (yDescStore s owner))\<rparr>"
  from updateToMostRecentVotes_metaOnly [OF u] have m: "s2 = ?s1\<lparr>meta := meta s2\<rparr>"
    by (simp add: metaOnly_def)
  from Cons.IH [OF r] have
    "s' = (s2\<lparr>votes := (votes s2)(event := Some vs')\<rparr>)
            \<lparr>meta := meta s', votes := votes s', yDescStore := yDescStore s'\<rparr>" .
  with m show ?case by (cases s, cases s2, cases s') simp
qed

lemma collectVotes_frame:
  "collectVotes E yBy event tp s = Some (Inr s')
   \<Longrightarrow> s' = s\<lparr>meta := meta s', votes := votes s', yDescendants := yDescendants s',
               yDescStore := yDescStore s'\<rparr>"
  unfolding collectVotes_def Let_def
  by (drule collectFromYs_frame) (cases s, cases s', auto split: if_splits option.splits)

lemma tallyVotes_frame:
  "tallyVotes E vs entries s = (entries', s')
   \<Longrightarrow> s' = s\<lparr>supporting := supporting s'\<rparr>
     \<and> (\<forall>e. supporting s' e = None \<longleftrightarrow> supporting s e = None)"
proof (induction E vs entries s rule: tallyVotes.induct)
  case (1 E entries s)
  then show ?case by simp
next
  case (2 E vs entries s)
  then show ?case by simp
next
  case (3 E e vs entries s)
  show ?case
  proof (cases "supporting s e")
    case None
    with 3 show ?thesis by simp
  next
    case (Some supp)
    show ?thesis
    proof (cases "findSetInTally E (Some supp) entries")
      case None
      with 3 Some show ?thesis by simp
    next
      case i: (Some i)
      let ?s1 = "s\<lparr>supporting := (supporting s)(e := Some (fst (entries ! i)))\<rparr>"
      from 3(3) [OF Some i] 3(4) Some i have
        a: "s' = ?s1\<lparr>supporting := supporting s'\<rparr>" and
        b: "\<forall>x. supporting s' x = None \<longleftrightarrow> supporting ?s1 x = None" by simp_all
      from a have "s' = s\<lparr>supporting := supporting s'\<rparr>" by (cases s, cases s') simp
      moreover from b Some have "\<forall>x. supporting s' x = None \<longleftrightarrow> supporting s x = None"
        by auto
      ultimately show ?thesis by simp
    qed
  qed
qed

lemma tallyChoice_frame:
  "tallyChoice E event s0 = Some (Inr (creator, existing, nextSet, nextCount, s))
   \<Longrightarrow> s = s0\<lparr>meta := meta s, supporting := supporting s\<rparr>
     \<and> (\<forall>e. supporting s e = None \<longleftrightarrow> supporting s0 e = None)"
proof -
  assume a: "tallyChoice E event s0 = Some (Inr (creator, existing, nextSet, nextCount, s))"
  obtain entries s1 where t: "tallyVotes E (votesOf s0 event) [] s0 = (entries, s1)"
    by (cases "tallyVotes E (votesOf s0 event) [] s0") auto
  with a obtain c where g: "getCreator E event s1 = Some (Inr (c, s))"
    by (auto simp: tallyChoice_def bindr_eq_Inr Let_def ret_def)
  from getCreator_metaOnly [OF g] have m: "s = s1\<lparr>meta := meta s\<rparr>"
    by (simp add: metaOnly_def)
  from tallyVotes_frame [OF t] have
    f: "s1 = s0\<lparr>supporting := supporting s1\<rparr>" and
    n: "\<forall>e. supporting s1 e = None \<longleftrightarrow> supporting s0 e = None" by simp_all
  from m f have "s = s0\<lparr>meta := meta s, supporting := supporting s\<rparr>"
    by (cases s0, cases s1, cases s) simp
  moreover from m have "supporting s = supporting s1" by (cases s1, cases s) simp
  ultimately show ?thesis using n by simp
qed

lemma supportNextChoice_spec:
  "supportNextChoice event creator nextSet existing s = Some (Inr (r, s'))
   \<Longrightarrow> r = None
     \<and> s' = s\<lparr>supporting := supporting s', votes := votes s', preCommit := preCommit s'\<rparr>
     \<and> supporting s' = (supporting s)(event := Some nextSet)"
  unfolding supportNextChoice_def Let_def
  by (cases s) (auto simp: ret_def throw_def split: option.splits)

lemma createPreCommit_spec:
  "createPreCommit E electors event s = Some (Inr s')
   \<Longrightarrow> s' = s\<lparr>meta := meta s', confirmPoint := confirmPoint s', toConfirm := toConfirm s'\<rparr>
     \<and> (\<forall>c p. toConfirm s' c = Some p \<longrightarrow> p = event \<or> toConfirm s c = Some p)"
proof -
  assume a: "createPreCommit E electors event s = Some (Inr s')"
  then obtain am cp ds s1 where
    f: "findDiversePedigreeMergeEvent E event electors (twoThirdsMajority (length electors))
          [] am s = Some (Inr (cp, ds, s1))" and
    k: "(case cp of
           Some c \<Rightarrow> ret (s1\<lparr>confirmPoint := (confirmPoint s1)(event := Some c),
                             toConfirm := (toConfirm s1)(c := Some event)\<rparr>)
         | None \<Rightarrow> ret s1) = Some (Inr s')"
    by (auto simp: createPreCommit_def bindr_eq_Inr)
  from findDiversePedigreeMergeEvent_metaOnly [OF f] have m: "s1 = s\<lparr>meta := meta s1\<rparr>"
    by (simp add: metaOnly_def)
  from m have t: "toConfirm s1 = toConfirm s" by (cases s, cases s1) simp
  show ?thesis
  proof (cases cp)
    case None
    with k have "s' = s1" by (simp add: ret_def)
    with m t show ?thesis by (cases s, cases s1) simp
  next
    case (Some c)
    with k have
      "s' = s1\<lparr>confirmPoint := (confirmPoint s1)(event := Some c),
               toConfirm := (toConfirm s1)(c := Some event)\<rparr>" by (simp add: ret_def)
    with m t show ?thesis by (cases s, cases s1) auto
  qed
qed

lemma finishTally_spec:
  assumes "finishTally E electors event creator nextSet hasSm existing s = Some (Inr (r, s'))"
  shows "r = None" and "protocolFrame s s'"
    and "\<And>c p. toConfirm s' c = Some p \<Longrightarrow> p = event \<or> toConfirm s c = Some p"
    and "supporting s' = (supporting s)(event := Some nextSet)"
proof -
  have "r = None \<and> protocolFrame s s'
      \<and> (\<forall>c p. toConfirm s' c = Some p \<longrightarrow> p = event \<or> toConfirm s c = Some p)
      \<and> supporting s' = (supporting s)(event := Some nextSet)"
  proof (cases "hasSm \<and> existing = None")
    case False
    with assms have
      "supportNextChoice event creator nextSet existing s = Some (Inr (r, s'))"
      by (auto simp: finishTally_def)
    from supportNextChoice_spec [OF this] show ?thesis
      by (cases s, cases s') (auto simp: protocolFrame_def)
  next
    case True
    with assms obtain s1 where
      c: "createPreCommit E electors event s = Some (Inr s1)" and
      n: "supportNextChoice event creator nextSet (Some event) s1 = Some (Inr (r, s'))"
      by (auto simp: finishTally_def bindr_eq_Inr)
    from createPreCommit_spec [OF c] have
      c1: "s1 = s\<lparr>meta := meta s1, confirmPoint := confirmPoint s1, toConfirm := toConfirm s1\<rparr>"
      and c2: "\<forall>c p. toConfirm s1 c = Some p \<longrightarrow> p = event \<or> toConfirm s c = Some p"
      by blast+
    from supportNextChoice_spec [OF n] have
      n0: "r = None" and
      n1: "s' = s1\<lparr>supporting := supporting s', votes := votes s', preCommit := preCommit s'\<rparr>"
      and n2: "supporting s' = (supporting s1)(event := Some nextSet)" by blast+
    from n1 have t: "toConfirm s' = toConfirm s1" by (cases s1, cases s') simp
    from c1 have su: "supporting s1 = supporting s" by (cases s, cases s1) simp
    from c1 n1 have "protocolFrame s s'"
      by (cases s, cases s1, cases s') (simp add: protocolFrame_def)
    with n0 n2 su t c2 show ?thesis by simp
  qed
  then show "r = None" and "protocolFrame s s'"
    and "\<And>c p. toConfirm s' c = Some p \<Longrightarrow> p = event \<or> toConfirm s c = Some p"
    and "supporting s' = (supporting s)(event := Some nextSet)" by blast+
qed

lemma finishTally_supported:
  assumes "finishTally E electors event creator nextSet hasSm existing s = Some (Inr (r, s'))"
    and "precommitsSupported s"
  shows "precommitsSupported s'"
  unfolding precommitsSupported_def
proof (intro allI impI)
  fix c p assume "toConfirm s' c = Some p"
  from finishTally_spec(3) [OF assms(1) this] assms(2) finishTally_spec(4) [OF assms(1)]
  show "supporting s' p \<noteq> None" by (auto simp: precommitsSupported_def)
qed

text \<open>The ways out of \<^verbatim>\<open>_tally\<close> once the next choice is made.\<close>

lemma tally_cases:
  assumes t: "tally E electors event s0 = Some (Inr (result, s'))"
    and c: "tallyChoice E event s0 = Some (Inr (creator, existing, nextSet, nextCount, s))"
  shows "(\<exists>pc pcs tc. existing = Some pc \<and> supporting s pc = Some pcs
            \<and> compareSupportSet E pcs nextSet \<and> toConfirm s event = Some tc
            \<and> nextCount \<ge> twoThirdsMajority (length electors)
            \<and> result = supporting s tc \<and> s' = s)
       \<or> (\<not> (\<exists>pc pcs tc. existing = Some pc \<and> supporting s pc = Some pcs
            \<and> compareSupportSet E pcs nextSet \<and> toConfirm s event = Some tc
            \<and> nextCount \<ge> twoThirdsMajority (length electors))
          \<and> (\<exists>hasSm existing' s1.
                finishTally E electors event creator nextSet hasSm existing' s1
                  = Some (Inr (result, s'))
                \<and> (s1 = s \<or> (\<exists>cp. s1 = s\<lparr>toConfirm := (toConfirm s)(cp := None)\<rparr>))))"
proof (cases existing)
  case None
  with t c show ?thesis by (auto simp: tally_def Let_def)
next
  case (Some pc)
  with t c obtain pcs where p: "supporting s pc = Some pcs"
    by (auto simp: tally_def Let_def throw_def split: option.splits)
  show ?thesis
  proof (cases "compareSupportSet E pcs nextSet")
    case False
    with t c Some p show ?thesis
      by (cases "confirmPoint s pc") (auto simp: tally_def Let_def)
  next
    case True
    show ?thesis
    proof (cases "toConfirm s event")
      case None
      with t c Some p True show ?thesis by (auto simp: tally_def Let_def)
    next
      case tc: (Some tc)
      with t c Some p True show ?thesis
        by (cases "nextCount \<ge> twoThirdsMajority (length electors)")
           (auto simp: tally_def Let_def ret_def)
    qed
  qed
qed

lemma tally_supported:
  assumes t: "tally E electors event s0 = Some (Inr (result, s'))"
    and i: "precommitsSupported s0"
  shows "precommitsSupported s'"
proof -
  from t obtain creator existing nextSet nextCount s where
    c: "tallyChoice E event s0 = Some (Inr (creator, existing, nextSet, nextCount, s))"
    by (auto simp: tally_def bindr_eq_Inr)
  from tallyChoice_frame [OF c] have
    f: "s = s0\<lparr>meta := meta s, supporting := supporting s\<rparr>" and
    n: "\<forall>e. supporting s e = None \<longleftrightarrow> supporting s0 e = None" by blast+
  from f have "toConfirm s = toConfirm s0" by (cases s0, cases s) simp
  with i n have sup: "precommitsSupported s" by (simp add: precommitsSupported_def)
  from tally_cases [OF t c] consider
    (decide) "s' = s"
  | (finish) hasSm existing' s1 where
      "finishTally E electors event creator nextSet hasSm existing' s1
         = Some (Inr (result, s'))"
      "s1 = s \<or> (\<exists>cp. s1 = s\<lparr>toConfirm := (toConfirm s)(cp := None)\<rparr>)"
    by blast
  then show ?thesis
  proof cases
    case decide
    with sup show ?thesis by simp
  next
    case finish
    from finish(2) sup have "precommitsSupported s1"
      by (auto simp: precommitsSupported_def split: if_splits)
    from finishTally_supported [OF finish(1) this] show ?thesis .
  qed
qed

lemma tally_protocolFrame:
  assumes t: "tally E electors event s0 = Some (Inr (result, s'))"
  shows "protocolFrame s0 s'"
proof -
  from t obtain creator existing nextSet nextCount s where
    c: "tallyChoice E event s0 = Some (Inr (creator, existing, nextSet, nextCount, s))"
    by (auto simp: tally_def bindr_eq_Inr)
  from tallyChoice_frame [OF c] have "s = s0\<lparr>meta := meta s, supporting := supporting s\<rparr>"
    by simp
  then have f: "protocolFrame s0 s" by (cases s0, cases s) (simp add: protocolFrame_def)
  from tally_cases [OF t c] consider
    (decide) "s' = s"
  | (finish) hasSm existing' s1 where
      "finishTally E electors event creator nextSet hasSm existing' s1
         = Some (Inr (result, s'))"
      "s1 = s \<or> (\<exists>cp. s1 = s\<lparr>toConfirm := (toConfirm s)(cp := None)\<rparr>)"
    by blast
  then show ?thesis
  proof cases
    case decide
    with f show ?thesis by simp
  next
    case finish
    from finish(2) have "protocolFrame s s1" by (auto simp: protocolFrame_def)
    with f finishTally_spec(2) [OF finish(1)] show ?thesis
      by (blast intro: protocolFrame_trans)
  qed
qed

lemma linkEvents_frame:
  "linkEvents E electors events t s = Some (Inr (t', s'))
   \<Longrightarrow> s' = s\<lparr>meta := meta s', treeParent := treeParent s', treeChildren := treeChildren s'\<rparr>"
proof (induction events arbitrary: t s)
  case Nil
  then show ?case by (simp add: ret_def)
next
  case (Cons e rest)
  from Cons.prems obtain c s1 where g: "getCreator E e s = Some (Inr (c, s1))"
    by (auto simp: bindr_eq_Inr)
  from getCreator_metaOnly [OF g] have m: "s1 = s\<lparr>meta := meta s1\<rparr>"
    by (simp add: metaOnly_def)
  from Cons.prems g obtain t2 s2 where
    r: "linkEvents E electors rest t2 s2 = Some (Inr (t', s'))" and
    s2: "s2 = s1 \<or> (\<exists>p. s2 = s1\<lparr>treeParent := (treeParent s1)(e := Some p),
                                  treeChildren := (treeChildren s1)(p := treeChildren s1 p @ [e])\<rparr>)
         \<or> s2 = s1\<lparr>treeParent := (treeParent s1)(e := None)\<rparr>"
    by (auto split: if_splits option.splits)
  from Cons.IH [OF r] have
    "s' = s2\<lparr>meta := meta s', treeParent := treeParent s', treeChildren := treeChildren s'\<rparr>" .
  with s2 m show ?case by (cases s, cases s1, cases s2, cases s') auto
qed

lemma setGenerations_generationOnly:
  "setGenerations g cur s = Some s' \<Longrightarrow> s' = s\<lparr>generation := generation s'\<rparr>"
proof (induction rule: setGenerations.raw_induct [rotated -1, consumes 1])
  case (1 loop g cur s s')
  show ?case
  proof (cases cur)
    case Nil
    with 1(2) show ?thesis by simp
  next
    case (Cons c rest)
    let ?s1 = "s\<lparr>generation := foldl (\<lambda>m event. m(event := Some g)) (generation s) cur\<rparr>"
    from Cons 1(2) have "loop (g + 1) (concat (map (treeChildren s) cur)) ?s1 = Some s'"
      by simp
    from 1(1) [OF this] show ?thesis by (cases s, cases s') simp
  qed
qed

lemma setAllGenerations_generationOnly:
  "setAllGenerations ts s = Some s' \<Longrightarrow> s' = s\<lparr>generation := generation s'\<rparr>"
proof (induction ts arbitrary: s)
  case Nil
  then show ?case by simp
next
  case (Cons p rest)
  obtain el xs where p: "p = (el, xs)" by (cases p)
  from Cons.prems p obtain s1 where
    g: "setGenerations 1 xs s = Some s1" and r: "setAllGenerations rest s1 = Some s'"
    by (auto split: option.splits)
  from setGenerations_generationOnly [OF g] Cons.IH [OF r] show ?case
    by (cases s, cases s1, cases s') simp
qed

lemma getElectorBranches_frame:
  "getElectorBranches E events electors s = Some (Inr (t, s'))
   \<Longrightarrow> s' = s\<lparr>meta := meta s', treeParent := treeParent s', treeChildren := treeChildren s',
               generation := generation s'\<rparr>"
proof -
  assume "getElectorBranches E events electors s = Some (Inr (t, s'))"
  then obtain s1 where
    l: "linkEvents E electors events [] s = Some (Inr (t, s1))" and
    g: "setAllGenerations t s1 = Some s'"
    by (auto simp: getElectorBranches_def bindr_eq_Inr ret_def split: option.splits)
  from linkEvents_frame [OF l] setAllGenerations_generationOnly [OF g] show ?thesis
    by (cases s, cases s1, cases s') simp
qed

lemma findXs_frame:
  "findXs E tails keys xBy s = Some (Inr (xBy', s'))
   \<Longrightarrow> s' = s\<lparr>initDescendants := initDescendants s'\<rparr>"
proof (induction keys arbitrary: xBy s)
  case Nil
  then show ?case by (simp add: ret_def)
next
  case (Cons k rest)
  from Cons.prems obtain xBy2 s2 where
    r: "findXs E tails rest xBy2 s2 = Some (Inr (xBy', s'))" and
    s2: "s2 = s \<or> (\<exists>t. s2 = s\<lparr>initDescendants :=
                       (initDescendants s)(t := Some [(eventHash (E ! t), [])])\<rparr>)"
    by (auto simp: throw_def split: option.splits list.splits)
  from Cons.IH [OF r] s2 show ?case by (cases s, cases s2, cases s') auto
qed

lemma candidates_frame:
  "findMergeEventProofCandidates E tails electors s = Some (Inr (c, s'))
   \<Longrightarrow> s' = s\<lparr>meta := meta s', initDescendants := initDescendants s',
               xDescendants := xDescendants s'\<rparr>"
proof -
  assume a: "findMergeEventProofCandidates E tails electors s = Some (Inr (c, s'))"
  let ?sm = "twoThirdsMajority (length electors)"
  show ?thesis
  proof (cases "length (map fst tails) < ?sm")
    case True
    with a show ?thesis by (simp add: findMergeEventProofCandidates_def Let_def ret_def)
  next
    case False
    with a obtain xBy s1 where
      x: "findXs E tails (map fst tails) [] s = Some (Inr (xBy, s1))" and
      k: "(if length (map fst xBy) < ?sm then ret (None, s1)
           else bindr (findYs E electors ?sm xBy (map fst xBy) [] s1)
                  (\<lambda>(yBy, s2). ret (Some (yBy, xBy), s2))) = Some (Inr (c, s'))"
      by (auto simp: findMergeEventProofCandidates_def Let_def bindr_eq_Inr)
    from findXs_frame [OF x] have f: "s1 = s\<lparr>initDescendants := initDescendants s1\<rparr>" .
    show ?thesis
    proof (cases "length (map fst xBy) < ?sm")
      case True
      with k have "s' = s1" by (simp add: ret_def)
      with f show ?thesis by (cases s, cases s1) simp
    next
      case False
      with k obtain yBy where
        "findYs E electors ?sm xBy (map fst xBy) [] s1 = Some (Inr (yBy, s'))"
        by (auto simp: bindr_eq_Inr ret_def)
      from findYs_keys [OF this] f show ?thesis by (cases s, cases s1, cases s') simp
    qed
  qed
qed

lemma extendAncestryMaps_metaOnly:
  "extendAncestryMaps E xBy ys maps s = Some (Inr (maps', s')) \<Longrightarrow> metaOnly s s'"
proof (induction ys arbitrary: maps s)
  case Nil
  then show ?case by (simp add: ret_def)
next
  case (Cons y ys)
  from Cons.prems obtain c s1 maps1 where
    g: "getCreator E y s = Some (Inr (c, s1))" and
    r: "extendAncestryMaps E xBy ys maps1 s1 = Some (Inr (maps', s'))"
    by (auto simp: bindr_eq_Inr throw_def split: option.splits)
  from getCreator_metaOnly [OF g] Cons.IH [OF r] show ?case by (rule metaOnly_trans)
qed

lemma setInitialVotes_metaOnly:
  "setInitialVotes E xs vs s = Some (Inr (vs', s')) \<Longrightarrow> metaOnly s s'"
proof (induction xs arbitrary: vs s)
  case Nil
  then show ?case by (simp add: ret_def)
next
  case (Cons x xs)
  from Cons.prems obtain c s1 where
    g: "getCreator E x s = Some (Inr (c, s1))" and
    r: "setInitialVotes E xs (AList.update c (Voting x) vs) s1 = Some (Inr (vs', s'))"
    by (auto simp: bindr_eq_Inr)
  from getCreator_metaOnly [OF g] Cons.IH [OF r] show ?case by (rule metaOnly_trans)
qed

lemma initYVotes_frame:
  "initYVotes E allYs maps ys s = Some (Inr s')
   \<Longrightarrow> s' = s\<lparr>meta := meta s', votes := votes s', yOf := yOf s'\<rparr>"
proof (induction ys arbitrary: s)
  case Nil
  then show ?case by (simp add: ret_def)
next
  case (Cons y ys)
  from Cons.prems obtain found vs s1 where
    v: "setInitialVotes E (setAdd y found) [] (s\<lparr>yOf := (yOf s)(y := Some y)\<rparr>)
          = Some (Inr (vs, s1))" and
    r: "initYVotes E allYs maps ys (s1\<lparr>votes := (votes s1)(y := Some vs)\<rparr>) = Some (Inr s')"
    by (auto simp: bindr_eq_Inr)
  from setInitialVotes_metaOnly [OF v] have
    "s1 = (s\<lparr>yOf := (yOf s)(y := Some y)\<rparr>)\<lparr>meta := meta s1\<rparr>" by (simp add: metaOnly_def)
  with Cons.IH [OF r] show ?case by (cases s, cases s1, cases s') simp
qed

lemma pairYsWithXs_metaOnly:
  "pairYsWithXs E xBy sm ys s = Some (Inr (ps, s')) \<Longrightarrow> metaOnly s s'"
proof (induction ys arbitrary: s ps)
  case Nil
  then show ?case by (simp add: ret_def)
next
  case (Cons y ys)
  from Cons.prems obtain c s1 where g: "getCreator E y s = Some (Inr (c, s1))"
    by (auto simp: bindr_eq_Inr)
  from Cons.prems g obtain x where x: "map_of xBy c = Some x"
    by (auto simp: throw_def split: option.splits)
  from Cons.prems g x obtain d where d: "xDescendants s1 y = Some d"
    by (auto simp: throw_def split: option.splits)
  from Cons.prems g x d obtain ps1 where
    r: "pairYsWithXs E xBy sm ys s1 = Some (Inr (ps1, s'))"
    by (auto simp: bindr_eq_Inr ret_def)
  from getCreator_metaOnly [OF g] Cons.IH [OF r] show ?case by (rule metaOnly_trans)
qed

subsection \<open>Decisions of the proof protocol\<close>

lemma tallyEvent_spec:
  assumes "tallyEvent E yBy electors event s = Some (Inr (st, s'))"
  shows "protocolFrame s s'"
    and "precommitsSupported s \<Longrightarrow> precommitsSupported s'"
    and "precommitsSupported s \<Longrightarrow> st = Decided r
         \<Longrightarrow> \<exists>s0. precommitsSupported s0 \<and> tally E electors event s0 = Some (Inr (Some r, s'))"
proof -
  from assms obtain tp where tp: "treeParent s event = Some tp"
    by (auto simp: tallyEvent_def throw_def split: option.splits)
  let ?s1 = "case yOf s tp of Some y \<Rightarrow> s\<lparr>yOf := (yOf s)(event := Some y)\<rparr> | None \<Rightarrow> s"
  have f1: "?s1 = s\<lparr>yOf := yOf ?s1\<rparr>" by (cases s) (simp split: option.splits)
  from assms tp obtain outstanding s2 where
    c: "(if supporting ?s1 event = None
         then bindr (collectVotes E yBy event tp ?s1) (\<lambda>s2. ret (outstandingVotes s2 event, s2))
         else ret (False, ?s1)) = Some (Inr (outstanding, s2))" and
    k: "(if outstanding then ret (Outstanding, s2)
         else bindr (tally E electors event s2) (\<lambda>(result, s3).
                case result of Some r \<Rightarrow> ret (Decided r, s3) | None \<Rightarrow> ret (Continue, s3)))
        = Some (Inr (st, s'))"
    by (auto simp: tallyEvent_def Let_def bindr_eq_Inr)
  have f2: "s2 = s\<lparr>meta := meta s2, votes := votes s2, yDescendants := yDescendants s2,
                   yDescStore := yDescStore s2, yOf := yOf s2\<rparr>"
  proof (cases "supporting ?s1 event = None")
    case True
    with c have "collectVotes E yBy event tp ?s1 = Some (Inr s2)"
      by (auto simp: bindr_eq_Inr ret_def)
    from collectVotes_frame [OF this] have
      "s2 = ?s1\<lparr>meta := meta s2, votes := votes s2, yDescendants := yDescendants s2,
                  yDescStore := yDescStore s2\<rparr>" .
    then show ?thesis by (cases s, cases s2) (auto split: option.splits)
  next
    case False
    with c have "s2 = ?s1" by (simp add: ret_def)
    then show ?thesis by (cases s) (auto split: option.splits)
  qed
  then have p2: "protocolFrame s s2" and
    t2: "toConfirm s2 = toConfirm s" "supporting s2 = supporting s"
    by (cases s, cases s2, simp add: protocolFrame_def)+
  have i2: "precommitsSupported s \<Longrightarrow> precommitsSupported s2"
    using t2 by (simp add: precommitsSupported_def)
  have "protocolFrame s s'
      \<and> (precommitsSupported s \<longrightarrow> precommitsSupported s')
      \<and> (precommitsSupported s \<longrightarrow> st = Decided r \<longrightarrow>
           (\<exists>s0. precommitsSupported s0 \<and> tally E electors event s0 = Some (Inr (Some r, s'))))"
  proof (cases outstanding)
    case True
    with k have "s' = s2" "st = Outstanding" by (simp_all add: ret_def)
    with p2 i2 show ?thesis by simp
  next
    case False
    with k obtain result where
      t: "tally E electors event s2 = Some (Inr (result, s'))" and
      st: "st = (case result of Some r \<Rightarrow> Decided r | None \<Rightarrow> Continue)"
      by (auto simp: bindr_eq_Inr ret_def split: option.splits)
    from tally_protocolFrame [OF t] p2 have "protocolFrame s s'"
      by (blast intro: protocolFrame_trans)
    moreover have "precommitsSupported s \<longrightarrow> precommitsSupported s'"
      using tally_supported [OF t] i2 by blast
    moreover have "precommitsSupported s \<longrightarrow> st = Decided r \<longrightarrow>
           (\<exists>s0. precommitsSupported s0 \<and> tally E electors event s0 = Some (Inr (Some r, s')))"
      using t st i2 by (auto split: option.splits)
    ultimately show ?thesis by blast
  qed
  then show "protocolFrame s s'"
    and "precommitsSupported s \<Longrightarrow> precommitsSupported s'"
    and "precommitsSupported s \<Longrightarrow> st = Decided r
         \<Longrightarrow> \<exists>s0. precommitsSupported s0 \<and> tally E electors event s0 = Some (Inr (Some r, s'))"
    by blast+
qed

lemma tallyCurrent_spec:
  "tallyCurrent E yBy electors cur nxt s = Some (Inr (result, nxt', s'))
   \<Longrightarrow> protocolFrame s s'
     \<and> (precommitsSupported s \<longrightarrow> precommitsSupported s'
          \<and> (\<forall>r. result = Some r \<longrightarrow>
                (\<exists>event s0. precommitsSupported s0
                   \<and> tally E electors event s0 = Some (Inr (Some r, s')))))"
proof (induction cur arbitrary: nxt s)
  case Nil
  then show ?case by (simp add: ret_def)
next
  case (Cons event rest)
  from Cons.prems obtain st s1 where
    e: "tallyEvent E yBy electors event s = Some (Inr (st, s1))" and
    k: "(case st of
           Decided r \<Rightarrow> ret (Some r, nxt, s1)
         | Outstanding \<Rightarrow> tallyCurrent E yBy electors rest (nxt @ [event]) s1
         | Continue \<Rightarrow> tallyCurrent E yBy electors rest (nxt @ treeChildren s1 event) s1)
        = Some (Inr (result, nxt', s'))"
    by (auto simp: bindr_eq_Inr)
  note T = tallyEvent_spec [OF e]
  show ?case
  proof (cases st)
    case (Decided r)
    with k have "result = Some r" "s' = s1" by (simp_all add: ret_def)
    with T Decided show ?thesis by blast
  next
    case Outstanding
    with k have "tallyCurrent E yBy electors rest (nxt @ [event]) s1
                   = Some (Inr (result, nxt', s'))" by simp
    from Cons.IH [OF this] T(1,2) show ?thesis
      by (blast intro: protocolFrame_trans)
  next
    case Continue
    with k have "tallyCurrent E yBy electors rest (nxt @ treeChildren s1 event) s1
                   = Some (Inr (result, nxt', s'))" by simp
    from Cons.IH [OF this] T(1,2) show ?thesis
      by (blast intro: protocolFrame_trans)
  qed
qed

lemma tallyLoop_spec:
  "tallyLoop E yBy electors cur s = Some res \<Longrightarrow> res = Inr (result, s')
   \<Longrightarrow> protocolFrame s s'
     \<and> (precommitsSupported s \<longrightarrow> precommitsSupported s'
          \<and> (\<forall>r. result = Some r \<longrightarrow>
                (\<exists>event s0. precommitsSupported s0
                   \<and> tally E electors event s0 = Some (Inr (Some r, s')))))"
proof (induction arbitrary: result s' rule: tallyLoop.raw_induct [rotated -1, consumes 1])
  case (1 loop E yBy electors cur s res)
  show ?case
  proof (cases cur)
    case Nil
    with 1(2,3) show ?thesis by (simp add: ret_def)
  next
    case (Cons e rest)
    with 1(2,3) obtain r1 nxt s1 where
      c: "tallyCurrent E yBy electors cur [] s = Some (Inr (r1, nxt, s1))" and
      k: "(case r1 of Some r \<Rightarrow> ret (Some r, s1) | None \<Rightarrow> loop E yBy electors nxt s1)
            = Some (Inr (result, s'))"
      by (auto split: option.splits sum.splits)
    note C = tallyCurrent_spec [OF c]
    show ?thesis
    proof (cases r1)
      case (Some r)
      with k have "result = Some r" "s' = s1" by (simp_all add: ret_def)
      with C Some show ?thesis by blast
    next
      case None
      with k have "loop E yBy electors nxt s1 = Some (Inr (result, s'))" by simp
      from 1(1) [OF this] C show ?thesis
        by (blast intro: protocolFrame_trans)
    qed
  qed
qed

lemma tallyBranches_spec:
  assumes "tallyBranches E yBy electors s = Some (Inr (result, s'))"
  shows "protocolFrame s s'"
    and "precommitsSupported s \<Longrightarrow> result = Some r
         \<Longrightarrow> \<exists>event s0. precommitsSupported s0
               \<and> tally E electors event s0 = Some (Inr (Some r, s'))"
  using tallyLoop_spec [OF assms [unfolded tallyBranches_def] refl] by blast+

lemma consensusProof_parts:
  assumes "consensusProof E events electors = ret consensus" and "consensus \<noteq> []"
  shows "\<exists>tails s1 yBy xBy s2 ys s3 s4.
      getElectorBranches E events electors (initState E) = Some (Inr (tails, s1))
      \<and> findMergeEventProofCandidates E tails electors s1 = Some (Inr (Some (yBy, xBy), s2))
      \<and> findConsensusMergeEventProof E xBy yBy electors s2 = Some (Inr (ys, s3))
      \<and> ys \<noteq> []
      \<and> pairYsWithXs E xBy (twoThirdsMajority (length electors)) ys s3
           = Some (Inr (consensus, s4))"
proof -
  from assms(1) obtain tails s1 s4 where
    b: "getElectorBranches E events electors (initState E) = Some (Inr (tails, s1))" and
    p: "findMergeEventProof E tails electors s1 = Some (Inr (consensus, s4))"
    by (auto simp: consensusProof_def bindr_eq_Inr ret_def)
  from p obtain cand s2 where
    c: "findMergeEventProofCandidates E tails electors s1 = Some (Inr (cand, s2))"
    by (auto simp: findMergeEventProof_def bindr_eq_Inr)
  from p c assms(2) obtain yBy xBy where yx: "cand = Some (yBy, xBy)"
    by (cases cand) (auto simp: findMergeEventProof_def ret_def)
  from p c yx assms(2) obtain ys s3 where
    f: "findConsensusMergeEventProof E xBy yBy electors s2 = Some (Inr (ys, s3))" and
    q: "ys \<noteq> []"
       "pairYsWithXs E xBy (twoThirdsMajority (length electors)) ys s3
          = Some (Inr (consensus, s4))"
    by (auto simp: findMergeEventProof_def Let_def bindr_eq_Inr ret_def split: if_splits)
  from b c yx f q show ?thesis by blast
qed

lemma findConsensusMergeEventProof_parts:
  assumes "findConsensusMergeEventProof E xBy yBy electors s = Some (Inr (ys, s'))"
  shows "(length electors = 1 \<and> ys = map snd yBy \<and> s' = s)
       \<or> (length electors \<noteq> 1 \<and>
            (\<exists>s2 consensus. s2 = s\<lparr>meta := meta s2, votes := votes s2, yOf := yOf s2\<rparr>
               \<and> tallyBranches E yBy electors s2 = Some (Inr (consensus, s'))
               \<and> ys = (case consensus of Some c \<Rightarrow> c | None \<Rightarrow> [])))"
proof (cases "length electors = 1")
  case True
  with assms show ?thesis by (simp add: findConsensusMergeEventProof_def ret_def)
next
  case False
  with assms obtain maps0 maps s1 s2 consensus where
    e: "extendAncestryMaps E xBy (map snd yBy) maps0 s = Some (Inr (maps, s1))" and
    i: "initYVotes E (map snd yBy) maps (map snd yBy) s1 = Some (Inr s2)" and
    t: "tallyBranches E yBy electors s2 = Some (Inr (consensus, s'))" and
    y: "ys = (case consensus of Some c \<Rightarrow> c | None \<Rightarrow> [])"
    by (auto simp: findConsensusMergeEventProof_def Let_def bindr_eq_Inr ret_def)
  from extendAncestryMaps_metaOnly [OF e] have "s1 = s\<lparr>meta := meta s1\<rparr>"
    by (simp add: metaOnly_def)
  with initYVotes_frame [OF i] have "s2 = s\<lparr>meta := meta s2, votes := votes s2, yOf := yOf s2\<rparr>"
    by (cases s, cases s1, cases s2) simp
  with False t y show ?thesis by blast
qed

lemma findConsensusMergeEventProof_protocolFrame:
  assumes "findConsensusMergeEventProof E xBy yBy electors s = Some (Inr (ys, s'))"
  shows "protocolFrame s s'"
proof -
  from findConsensusMergeEventProof_parts [OF assms] show ?thesis
  proof (elim disjE conjE exE)
    assume "s' = s" then show ?thesis by simp
  next
    fix s2 consensus
    assume a: "s2 = s\<lparr>meta := meta s2, votes := votes s2, yOf := yOf s2\<rparr>"
      and t: "tallyBranches E yBy electors s2 = Some (Inr (consensus, s'))"
    from a have "protocolFrame s s2" by (cases s, cases s2) (simp add: protocolFrame_def)
    with tallyBranches_spec(1) [OF t] show ?thesis by (blast intro: protocolFrame_trans)
  qed
qed

lemma findConsensus_decided:
  assumes "findConsensus E events electors = ret (Some r)" and "length electors \<noteq> 1"
  shows "\<exists>yBy s2 ys s3. precommitsSupported s2
           \<and> tallyBranches E yBy electors s2 = ret (Some ys, s3)"
proof -
  from findConsensus_result [OF assms(1)] obtain consensus where
    "consensusProof E events electors = ret consensus" "consensus \<noteq> []" by blast
  from consensusProof_parts [OF this] obtain tails s1 yBy xBy s2 ys s3 where
    b: "getElectorBranches E events electors (initState E) = Some (Inr (tails, s1))" and
    c: "findMergeEventProofCandidates E tails electors s1 = Some (Inr (Some (yBy, xBy), s2))" and
    f: "findConsensusMergeEventProof E xBy yBy electors s2 = Some (Inr (ys, s3))" and
    n: "ys \<noteq> []" by blast
  from getElectorBranches_frame [OF b] have "toConfirm s1 = toConfirm (initState E)"
    by (cases s1, cases "initState E") simp
  moreover from candidates_frame [OF c] have "toConfirm s2 = toConfirm s1"
    by (cases s1, cases s2) simp
  ultimately have t0: "toConfirm s2 = (\<lambda>_. None)" by (simp add: initState_def)
  from findConsensusMergeEventProof_parts [OF f] assms(2) obtain s2' consensus' where
    a: "s2' = s2\<lparr>meta := meta s2', votes := votes s2', yOf := yOf s2'\<rparr>" and
    t: "tallyBranches E yBy electors s2' = Some (Inr (consensus', s3))" and
    y: "ys = (case consensus' of Some c \<Rightarrow> c | None \<Rightarrow> [])" by blast
  from a t0 have "toConfirm s2' = (\<lambda>_. None)" by (cases s2, cases s2') simp
  then have "precommitsSupported s2'" by (simp add: precommitsSupported_def)
  moreover from y n obtain c where "consensus' = Some c" by (cases consensus') auto
  ultimately show ?thesis using t by (auto simp: ret_def)
qed

lemma T2_findConsensus:
  "findConsensus T2 [0, 1, 2, 3, 4, 5, 6, 7, 8, 9, 10, 11] [''A'', ''C'']
     = ret (Some \<lparr>eventHashes = [''a1'', ''c1''],
                     consensusProofHashes = [''a2'', ''c2'', ''c3'']\<rparr>)"
  by (simp add: T2_def eval_defs eval_loops)

subsection \<open>Byzantine marks\<close>

lemma useMostRecentVotingEvent_byzantine:
  "map_of vs el = Some Byzantine
   \<Longrightarrow> map_of (useMostRecentVotingEvent s c vs v) el = Some Byzantine"
  by (auto simp: useMostRecentVotingEvent_def update_conv' split: option.splits vote.splits)

lemma mostRecentVotesLevel_byzantine:
  "mostRecentVotesLevel E yBy ds cur nxt vs s = Some (Inr (nxt', vs', s'))
   \<Longrightarrow> map_of vs el = Some Byzantine \<Longrightarrow> map_of vs' el = Some Byzantine"
proof (induction cur arbitrary: nxt vs s)
  case Nil
  then show ?case by (simp add: ret_def)
next
  case (Cons e cur)
  show ?case
  proof (cases "map_of ds (eventHash (E ! e))")
    case None
    with Cons show ?thesis by simp
  next
    case (Some d)
    with Cons.prems obtain c s1 where g: "getCreator E e s = Some (Inr (c, s1))"
      by (auto simp: bindr_eq_Inr)
    let ?vs1 = "case map_of yBy c of
                  Some y \<Rightarrow> if generationGreaterEq s1 e y
                            then useMostRecentVotingEvent s1 c vs e else vs
                | None \<Rightarrow> vs"
    from Cons.prems Some g have
      r: "mostRecentVotesLevel E yBy ds cur (nxt @ d) ?vs1 s1 = Some (Inr (nxt', vs', s'))"
      by simp
    have "map_of ?vs1 el = Some Byzantine"
      using Cons.prems(2) by (simp add: useMostRecentVotingEvent_byzantine split: option.splits)
    from Cons.IH [OF r this] show ?thesis .
  qed
qed

lemma mostRecentVotesLoop_byzantine:
  "mostRecentVotesLoop E yBy ds cur vs s = Some r \<Longrightarrow> r = Inr (vs', s')
   \<Longrightarrow> map_of vs el = Some Byzantine \<Longrightarrow> map_of vs' el = Some Byzantine"
proof (induction arbitrary: vs' s' rule: mostRecentVotesLoop.raw_induct [rotated -1, consumes 1])
  case (1 loop E yBy ds cur vs s r)
  show ?case
  proof (cases cur)
    case Nil
    with 1(2,3,4) show ?thesis by (simp add: ret_def)
  next
    case (Cons e rest)
    with 1(2,3) obtain nxt1 vs1 s1 where
      l: "mostRecentVotesLevel E yBy ds cur [] vs s = Some (Inr (nxt1, vs1, s1))" and
      r: "loop E yBy ds (uniq nxt1) vs1 s1 = Some (Inr (vs', s'))"
      by (auto split: option.splits sum.splits)
    from mostRecentVotesLevel_byzantine [OF l 1(4)] have "map_of vs1 el = Some Byzantine" .
    from 1(1) [OF r refl this] show ?thesis .
  qed
qed

lemma updateToMostRecentVotes_byzantine:
  "updateToMostRecentVotes E y yBy ds vs s = Some (Inr (vs', s'))
   \<Longrightarrow> map_of vs el = Some Byzantine \<Longrightarrow> map_of vs' el = Some Byzantine"
  unfolding updateToMostRecentVotes_def by (rule mostRecentVotesLoop_byzantine) simp_all

lemma collectFromYs_byzantine:
  "collectFromYs E yBy event els s = Some (Inr s')
   \<Longrightarrow> votes s event = Some vs \<Longrightarrow> map_of vs el = Some Byzantine
   \<Longrightarrow> \<exists>vs'. votes s' event = Some vs' \<and> map_of vs' el = Some Byzantine"
proof (induction els arbitrary: s vs)
  case Nil
  then show ?case by (simp add: ret_def)
next
  case (Cons e rest)
  from Cons.prems obtain y owner where
    y: "map_of yBy e = Some y" and o: "yDescendants s event = Some owner"
    by (auto simp: throw_def split: option.splits)
  from Cons.prems y o obtain ds vs' s2 where
    u: "updateToMostRecentVotes E y yBy ds vs
          (s\<lparr>yDescStore := (yDescStore s)(owner := AList.update e ds (yDescStore s owner))\<rparr>)
        = Some (Inr (vs', s2))" and
    r: "collectFromYs E yBy event rest (s2\<lparr>votes := (votes s2)(event := Some vs')\<rparr>)
          = Some (Inr s')"
    by (auto simp: bindr_eq_Inr throw_def Let_def split: option.splits)
  from updateToMostRecentVotes_byzantine [OF u Cons.prems(3)] have
    "map_of vs' el = Some Byzantine" .
  with Cons.IH [OF r, of vs'] show ?case by simp
qed

text \<open>
  Vote collection keeps a byzantine mark, one of the event as well as one that the event
  inherits from its tree parent.
\<close>

lemma collectVotes_byzantine:
  assumes "collectVotes E yBy event tp s = Some (Inr s')"
    and "votes s event = Some vs \<or> votes s event = None \<and> votes s tp = Some vs"
    and "map_of vs el = Some Byzantine"
  shows "\<exists>vs'. votes s' event = Some vs' \<and> map_of vs' el = Some Byzantine"
proof -
  let ?s1 = "if votes s event = None
             then s\<lparr>votes := (votes s)
                    (event := Some (case votes s tp of Some vs \<Rightarrow> vs | None \<Rightarrow> []))\<rparr>
             else s"
  let ?s2 = "if yDescendants ?s1 event = None
             then (case yDescendants ?s1 tp of
                     Some owner \<Rightarrow> ?s1\<lparr>yDescendants := (yDescendants ?s1)(event := Some owner)\<rparr>
                   | None \<Rightarrow>
                       ?s1\<lparr>yDescendants := (yDescendants ?s1)(event := Some event),
                           yDescStore := (yDescStore ?s1)
                             (event := map (\<lambda>e. (e, [])) (map fst yBy))\<rparr>)
             else ?s1"
  from assms(1) have c: "collectFromYs E yBy event (map fst yBy) ?s2 = Some (Inr s')"
    by (simp add: collectVotes_def Let_def)
  from assms(2) have "votes ?s2 event = Some vs" by (auto split: option.splits)
  from collectFromYs_byzantine [OF c this assms(3)] show ?thesis .
qed

text \<open>The tally counts no byzantine vote.\<close>

lemma tallyVotes_byzantine:
  "tallyVotes E vs entries s = tallyVotes E (filter (\<lambda>v. v \<noteq> Byzantine) vs) entries s"
  by (induction E vs entries s rule: tallyVotes.induct) (auto split: option.splits)

text \<open>
  The end of \<^verbatim>\<open>_tally\<close> makes the event the vote of its creator, whatever the entry of
  the creator was.
\<close>

lemma supportNextChoice_votes:
  "supportNextChoice event creator nextSet existing s = Some (Inr (r, s'))
   \<Longrightarrow> \<exists>vs. votes s' event = Some vs \<and> map_of vs creator = Some (Voting event)"
  unfolding supportNextChoice_def Let_def
  by (auto simp: ret_def throw_def update_conv' split: option.splits)

lemma finishTally_votes:
  "finishTally E electors event creator nextSet hasSm existing s = Some (Inr (r, s'))
   \<Longrightarrow> \<exists>vs. votes s' event = Some vs \<and> map_of vs creator = Some (Voting event)"
  unfolding finishTally_def
  by (auto simp: bindr_eq_Inr dest: supportNextChoice_votes split: if_splits)

lemma F2_findConsensus: "findConsensus F2 [0, 1, 2, 3, 4, 5, 6, 7, 8] [''A'', ''C''] = ret None"
  by (simp add: F2_def eval_defs eval_loops)

text \<open>
  C4.  On the history \<open>F2\<close> with the electors A and C, \<^verbatim>\<open>_tallyBranches\<close> starts from
  the Ys \<open>a2\<close> and \<open>c3\<close>; its first two rounds leave \<open>a3\<close> and \<open>c5\<close> to process.  At \<open>c5\<close>,
  vote collection marks the vote of C byzantine (\<open>c4\<close> and \<open>c9\<close> have the same generation),
  and the tally step of the same event then replaces the mark by the voting event \<open>c5\<close>:
  the mark does not remain.
\<close>

theorem C4_byzantine_mark_replaced:
  "bindr (branchesInit F2 [0, 1, 2, 3, 4, 5, 6, 7, 8] [''A'', ''C'']) (\<lambda>(yBy, s0).
     bindr (tallyCurrent F2 yBy [''A'', ''C''] (map snd yBy) [] s0) (\<lambda>(r1, next1, s1).
       bindr (tallyCurrent F2 yBy [''A'', ''C''] next1 [] s1) (\<lambda>(r2, next2, s2).
         bindr (tallyEvent F2 yBy [''A'', ''C''] 7 s2) (\<lambda>(st3, s3).
           bindr (collectVotes F2 yBy 8 5
                    (case yOf s3 5 of Some y \<Rightarrow> s3\<lparr>yOf := (yOf s3)(8 := Some y)\<rparr>
                                     | None \<Rightarrow> s3)) (\<lambda>s4.
             bindr (tallyEvent F2 yBy [''A'', ''C''] 8 s3) (\<lambda>(st5, s5).
               bindr (tallyBranches F2 yBy [''A'', ''C''] s0) (\<lambda>(r, s6).
                 ret (yBy, next1, next2, treeParent s3 8, supporting s3 8,
                      map_of (the (votes s4 8)) ''C'',
                      st5, map_of (the (votes s5 8)) ''C'',
                      r, map_of (the (votes s6 8)) ''C''))))))))
   = ret ([(''A'', 3), (''C'', 4)], [7, 5, 6], [7, 8], Some 5, None,
          Some Byzantine,
          Continue, Some (Voting 8),
          None, Some (Voting 8))"
  by (simp add: F2_def branchesInit_def tallyBranches_def eval_defs eval_loops)

subsection \<open>Creators stay\<close>

lemma metaKept_eq: "meta a = meta a' \<Longrightarrow> meta b = meta b' \<Longrightarrow> metaKept a b = metaKept a' b'"
  by (simp add: metaKept_def)

lemma linkEvents_metaKept:
  "linkEvents E electors events t s = Some (Inr (t', s')) \<Longrightarrow> metaKept s s'"
proof (induction events arbitrary: t s)
  case Nil
  then show ?case by (simp add: ret_def)
next
  case (Cons e rest)
  from Cons.prems obtain c s1 where g: "getCreator E e s = Some (Inr (c, s1))"
    by (auto simp: bindr_eq_Inr)
  from Cons.prems g obtain t1 s2 where
    r: "linkEvents E electors rest t1 s2 = Some (Inr (t', s'))" and m: "meta s2 = meta s1"
    by (auto split: if_splits option.splits)
  from Cons.IH [OF r] m have "metaKept s1 s'" by (simp add: metaKept_def)
  with getCreator_metaKept [OF g] show ?case by (rule metaKept_trans)
qed

lemma getElectorBranches_metaKept:
  assumes "getElectorBranches E events electors s = Some (Inr (t, s'))"
  shows "metaKept s s'"
proof -
  from assms obtain s1 where
    l: "linkEvents E electors events [] s = Some (Inr (t, s1))" and
    g: "setAllGenerations t s1 = Some s'"
    by (auto simp: getElectorBranches_def bindr_eq_Inr ret_def split: option.splits)
  from setAllGenerations_generationOnly [OF g] have "meta s' = meta s1"
    by (cases s1, cases s') simp
  with linkEvents_metaKept [OF l] show ?thesis by (simp add: metaKept_def)
qed

lemma findYs_metaKept:
  "findYs E electors sm xBy keys yBy s = Some (Inr (yBy', s')) \<Longrightarrow> metaKept s s'"
proof (induction keys arbitrary: yBy s)
  case Nil
  then show ?case by (simp add: ret_def)
next
  case (Cons el rest)
  from Cons.prems obtain x where x: "map_of xBy el = Some x"
    by (auto simp: throw_def split: option.splits)
  from Cons.prems x obtain am y ds s1 where
    f: "findDiversePedigreeMergeEvent E x electors sm [] am s = Some (Inr (y, ds, s1))" and
    k: "(case y of
           Some y' \<Rightarrow> findYs E electors sm xBy rest (AList.update el y' yBy)
                        (s1\<lparr>xDescendants := (xDescendants s1)(y' := Some ds)\<rparr>)
         | None \<Rightarrow> findYs E electors sm xBy rest yBy s1) = Some (Inr (yBy', s'))"
    by (auto simp: bindr_eq_Inr)
  from k obtain yBy1 s2 where
    r: "findYs E electors sm xBy rest yBy1 s2 = Some (Inr (yBy', s'))" and m: "meta s2 = meta s1"
    by (cases y) auto
  from Cons.IH [OF r] m have "metaKept s1 s'" by (simp add: metaKept_def)
  with findDiversePedigreeMergeEvent_metaOnly [OF f, THEN metaOnly_metaKept] show ?case
    by (rule metaKept_trans)
qed

lemma candidates_metaKept:
  assumes a: "findMergeEventProofCandidates E tails electors s = Some (Inr (c, s'))"
  shows "metaKept s s'"
proof -
  let ?sm = "twoThirdsMajority (length electors)"
  show ?thesis
  proof (cases "length (map fst tails) < ?sm")
    case True
    with a show ?thesis by (simp add: findMergeEventProofCandidates_def Let_def ret_def)
  next
    case False
    with a obtain xBy s1 where
      x: "findXs E tails (map fst tails) [] s = Some (Inr (xBy, s1))" and
      k: "(if length (map fst xBy) < ?sm then ret (None, s1)
           else bindr (findYs E electors ?sm xBy (map fst xBy) [] s1)
                  (\<lambda>(yBy, s2). ret (Some (yBy, xBy), s2))) = Some (Inr (c, s'))"
      by (auto simp: findMergeEventProofCandidates_def Let_def bindr_eq_Inr)
    from findXs_frame [OF x] have f: "meta s1 = meta s" by (cases s, cases s1) simp
    show ?thesis
    proof (cases "length (map fst xBy) < ?sm")
      case True
      with k have "s' = s1" by (simp add: ret_def)
      with f show ?thesis by (simp add: metaKept_def)
    next
      case False
      with k obtain yBy where
        "findYs E electors ?sm xBy (map fst xBy) [] s1 = Some (Inr (yBy, s'))"
        by (auto simp: bindr_eq_Inr ret_def)
      from findYs_metaKept [OF this] f show ?thesis by (simp add: metaKept_def)
    qed
  qed
qed

lemma initYVotes_metaKept:
  "initYVotes E allYs maps ys s = Some (Inr s') \<Longrightarrow> metaKept s s'"
proof (induction ys arbitrary: s)
  case Nil
  then show ?case by (simp add: ret_def)
next
  case (Cons y ys)
  from Cons.prems obtain found vs s1 where
    v: "setInitialVotes E (setAdd y found) [] (s\<lparr>yOf := (yOf s)(y := Some y)\<rparr>)
          = Some (Inr (vs, s1))" and
    r: "initYVotes E allYs maps ys (s1\<lparr>votes := (votes s1)(y := Some vs)\<rparr>) = Some (Inr s')"
    by (auto simp: bindr_eq_Inr)
  from setInitialVotes_metaOnly [OF v, THEN metaOnly_metaKept] have "metaKept s s1"
    by (simp add: metaKept_def)
  moreover from Cons.IH [OF r] have "metaKept s1 s'" by (simp add: metaKept_def)
  ultimately show ?case by (rule metaKept_trans)
qed

lemma collectFromYs_metaKept:
  "collectFromYs E yBy event els s = Some (Inr s') \<Longrightarrow> metaKept s s'"
proof (induction els arbitrary: s)
  case Nil
  then show ?case by (simp add: ret_def)
next
  case (Cons el rest)
  from Cons.prems obtain y owner where
    y: "map_of yBy el = Some y" and o: "yDescendants s event = Some owner"
    by (auto simp: throw_def split: option.splits)
  from Cons.prems y o obtain ds vs vs' s2 where
    u: "updateToMostRecentVotes E y yBy ds vs
          (s\<lparr>yDescStore := (yDescStore s)(owner := AList.update el ds (yDescStore s owner))\<rparr>)
        = Some (Inr (vs', s2))" and
    r: "collectFromYs E yBy event rest (s2\<lparr>votes := (votes s2)(event := Some vs')\<rparr>)
          = Some (Inr s')"
    by (auto simp: bindr_eq_Inr throw_def Let_def split: option.splits)
  from updateToMostRecentVotes_metaOnly [OF u, THEN metaOnly_metaKept] have "metaKept s s2"
    by (simp add: metaKept_def)
  moreover from Cons.IH [OF r] have "metaKept s2 s'" by (simp add: metaKept_def)
  ultimately show ?case by (rule metaKept_trans)
qed

lemma collectVotes_metaKept:
  "collectVotes E yBy event tp s = Some (Inr s') \<Longrightarrow> metaKept s s'"
  unfolding collectVotes_def Let_def
  by (drule collectFromYs_metaKept) (auto simp: metaKept_def split: if_splits option.splits)

lemma tallyChoice_metaKept:
  assumes "tallyChoice E event s0 = Some (Inr (creator, existing, nextSet, nextCount, s))"
  shows "metaKept s0 s"
proof -
  obtain entries s1 where t: "tallyVotes E (votesOf s0 event) [] s0 = (entries, s1)"
    by (cases "tallyVotes E (votesOf s0 event) [] s0") auto
  with assms obtain c where g: "getCreator E event s1 = Some (Inr (c, s))"
    by (auto simp: tallyChoice_def bindr_eq_Inr Let_def ret_def)
  from tallyVotes_frame [OF t] have "meta s1 = meta s0" by (cases s0, cases s1) simp
  with getCreator_metaKept [OF g] show ?thesis by (simp add: metaKept_def)
qed

lemma finishTally_metaKept:
  assumes "finishTally E electors event creator nextSet hasSm existing s = Some (Inr (r, s'))"
  shows "metaKept s s'"
proof (cases "hasSm \<and> existing = None")
  case False
  with assms have
    "supportNextChoice event creator nextSet existing s = Some (Inr (r, s'))"
    by (auto simp: finishTally_def)
  from supportNextChoice_spec [OF this] have "meta s' = meta s" by (cases s, cases s') auto
  then show ?thesis by (simp add: metaKept_def)
next
  case True
  with assms obtain s1 where
    c: "createPreCommit E electors event s = Some (Inr s1)" and
    n: "supportNextChoice event creator nextSet (Some event) s1 = Some (Inr (r, s'))"
    by (auto simp: finishTally_def bindr_eq_Inr)
  from c obtain am cp ds s2 where
    f: "findDiversePedigreeMergeEvent E event electors (twoThirdsMajority (length electors))
          [] am s = Some (Inr (cp, ds, s2))" and
    k: "(case cp of
           Some c \<Rightarrow> ret (s2\<lparr>confirmPoint := (confirmPoint s2)(event := Some c),
                             toConfirm := (toConfirm s2)(c := Some event)\<rparr>)
         | None \<Rightarrow> ret s2) = Some (Inr s1)"
    by (auto simp: createPreCommit_def bindr_eq_Inr)
  from k have "meta s1 = meta s2" by (cases cp) (auto simp: ret_def)
  moreover from supportNextChoice_spec [OF n] have "meta s' = meta s1"
    by (cases s1, cases s') auto
  ultimately show ?thesis
    using findDiversePedigreeMergeEvent_metaOnly [OF f, THEN metaOnly_metaKept]
    by (simp add: metaKept_def)
qed

lemma tally_metaKept:
  assumes t: "tally E electors event s0 = Some (Inr (result, s'))"
  shows "metaKept s0 s'"
proof -
  from t obtain creator existing nextSet nextCount s where
    c: "tallyChoice E event s0 = Some (Inr (creator, existing, nextSet, nextCount, s))"
    by (auto simp: tally_def bindr_eq_Inr)
  from tally_cases [OF t c] consider (a) "s' = s"
    | (b) hasSm existing' s1 where
        "finishTally E electors event creator nextSet hasSm existing' s1
           = Some (Inr (result, s'))" "meta s1 = meta s"
    by auto
  then have "metaKept s s'"
  proof cases
    case a
    then show ?thesis by simp
  next
    case b
    from finishTally_metaKept [OF b(1)] b(2) show ?thesis by (simp add: metaKept_def)
  qed
  with tallyChoice_metaKept [OF c] show ?thesis by (rule metaKept_trans)
qed

lemma tallyEvent_metaKept:
  assumes "tallyEvent E yBy electors event s = Some (Inr (st, s'))"
  shows "metaKept s s'"
proof -
  from assms obtain tp where tp: "treeParent s event = Some tp"
    by (auto simp: tallyEvent_def throw_def split: option.splits)
  let ?s1 = "case yOf s tp of Some y \<Rightarrow> s\<lparr>yOf := (yOf s)(event := Some y)\<rparr> | None \<Rightarrow> s"
  have f1: "meta ?s1 = meta s" by (simp split: option.splits)
  from assms tp obtain outstanding s2 where
    c: "(if supporting ?s1 event = None
         then bindr (collectVotes E yBy event tp ?s1) (\<lambda>s2. ret (outstandingVotes s2 event, s2))
         else ret (False, ?s1)) = Some (Inr (outstanding, s2))" and
    k: "(if outstanding then ret (Outstanding, s2)
         else bindr (tally E electors event s2) (\<lambda>(result, s3).
                case result of Some r \<Rightarrow> ret (Decided r, s3) | None \<Rightarrow> ret (Continue, s3)))
        = Some (Inr (st, s'))"
    by (auto simp: tallyEvent_def Let_def bindr_eq_Inr)
  have "metaKept ?s1 s2"
  proof (cases "supporting ?s1 event = None")
    case True
    with c have "collectVotes E yBy event tp ?s1 = Some (Inr s2)"
      by (auto simp: bindr_eq_Inr ret_def)
    from collectVotes_metaKept [OF this] show ?thesis .
  next
    case False
    with c have "s2 = ?s1" by (simp add: ret_def)
    then show ?thesis by simp
  qed
  with f1 have a: "metaKept s s2" by (simp add: metaKept_def)
  have "metaKept s2 s'"
  proof (cases outstanding)
    case True
    with k show ?thesis by (simp add: ret_def)
  next
    case False
    with k obtain result where "tally E electors event s2 = Some (Inr (result, s'))"
      by (auto simp: bindr_eq_Inr ret_def split: option.splits)
    from tally_metaKept [OF this] show ?thesis .
  qed
  with a show ?thesis by (rule metaKept_trans)
qed

lemma tallyCurrent_metaKept:
  "tallyCurrent E yBy electors cur nxt s = Some (Inr (result, nxt', s')) \<Longrightarrow> metaKept s s'"
proof (induction cur arbitrary: nxt s)
  case Nil
  then show ?case by (simp add: ret_def)
next
  case (Cons event rest)
  from Cons.prems obtain st s1 where
    e: "tallyEvent E yBy electors event s = Some (Inr (st, s1))" and
    k: "(case st of
           Decided r \<Rightarrow> ret (Some r, nxt, s1)
         | Outstanding \<Rightarrow> tallyCurrent E yBy electors rest (nxt @ [event]) s1
         | Continue \<Rightarrow> tallyCurrent E yBy electors rest (nxt @ treeChildren s1 event) s1)
        = Some (Inr (result, nxt', s'))"
    by (auto simp: bindr_eq_Inr)
  from k have "s' = s1 \<or> (\<exists>nxt1. tallyCurrent E yBy electors rest nxt1 s1
                               = Some (Inr (result, nxt', s')))"
    by (cases st) (auto simp: ret_def)
  then have "metaKept s1 s'" using Cons.IH by auto
  with tallyEvent_metaKept [OF e] show ?case by (rule metaKept_trans)
qed

lemma tallyLoop_metaKept:
  "tallyLoop E yBy electors cur s = Some res \<Longrightarrow> res = Inr (result, s') \<Longrightarrow> metaKept s s'"
proof (induction arbitrary: result s' rule: tallyLoop.raw_induct [rotated -1, consumes 1])
  case (1 loop E yBy electors cur s res)
  show ?case
  proof (cases cur)
    case Nil
    with 1(2,3) show ?thesis by (simp add: ret_def)
  next
    case (Cons e rest)
    with 1(2,3) obtain r1 nxt s1 where
      c: "tallyCurrent E yBy electors cur [] s = Some (Inr (r1, nxt, s1))" and
      k: "(case r1 of Some r \<Rightarrow> ret (Some r, s1) | None \<Rightarrow> loop E yBy electors nxt s1)
            = Some (Inr (result, s'))"
      by (auto split: option.splits sum.splits)
    from k have "s' = s1 \<or> loop E yBy electors nxt s1 = Some (Inr (result, s'))"
      by (cases r1) (auto simp: ret_def)
    then have "metaKept s1 s'" using 1(1) by auto
    with tallyCurrent_metaKept [OF c] show ?thesis by (rule metaKept_trans)
  qed
qed

lemma findConsensusMergeEventProof_metaKept:
  assumes "findConsensusMergeEventProof E xBy yBy electors s = Some (Inr (ys, s'))"
  shows "metaKept s s'"
proof (cases "length electors = 1")
  case True
  with assms show ?thesis by (simp add: findConsensusMergeEventProof_def ret_def)
next
  case False
  with assms obtain maps0 maps s1 s2 consensus where
    e: "extendAncestryMaps E xBy (map snd yBy) maps0 s = Some (Inr (maps, s1))" and
    i: "initYVotes E (map snd yBy) maps (map snd yBy) s1 = Some (Inr s2)" and
    t: "tallyBranches E yBy electors s2 = Some (Inr (consensus, s'))"
    by (auto simp: findConsensusMergeEventProof_def Let_def bindr_eq_Inr ret_def)
  from tallyLoop_metaKept [OF t [unfolded tallyBranches_def] refl]
    initYVotes_metaKept [OF i] extendAncestryMaps_metaOnly [OF e, THEN metaOnly_metaKept]
  show ?thesis by (blast intro: metaKept_trans)
qed

subsection \<open>The snapshot\<close>

lemma snapshot_events: "snapshot E events \<Longrightarrow> e \<in> set events \<Longrightarrow> e < length E"
  by (auto simp: snapshot_def list_all_iff)

lemma snapshot_parents:
  "snapshot E events \<Longrightarrow> e < length E \<Longrightarrow> p \<in> set (parents (E ! e)) \<Longrightarrow> p < length E"
  by (auto simp: snapshot_def list_all_iff)

lemma snapshot_creator:
  "snapshot E events \<Longrightarrow> e < length E \<Longrightarrow> \<exists>c. creator0 (E ! e) = Some c \<and> c \<noteq> []"
  by (auto simp: snapshot_def list_all_iff)

lemma snapshot_treeParent:
  assumes "snapshot E events" "e < length E" "findTreeParent E e = Some p"
  shows "creator0 (E ! p) = creator0 (E ! e)"
proof -
  from assms(1,2) have
    "case findTreeParent E e of Some p \<Rightarrow> creator0 (E ! p) = creator0 (E ! e) | None \<Rightarrow> True"
    by (auto simp: snapshot_def list_all_iff)
  with assms(3) show ?thesis by simp
qed

lemma snapshot_hash:
  "snapshot E events \<Longrightarrow> e < length E \<Longrightarrow> e' < length E
   \<Longrightarrow> eventHash (E ! e') = eventHash (E ! e) \<Longrightarrow> e' = e"
  by (auto simp: snapshot_def list_all_iff)

subsection \<open>Descendants in a path\<close>

lemma pathMap_later: "pathMap E y ds \<Longrightarrow> (y', y) \<in> (parentRel E)\<^sup>* \<Longrightarrow> pathMap E y' ds"
  unfolding pathMap_def by (meson rtrancl_trans)

lemma pathMap_empty [simp]: "pathMap E y []"
  by (simp add: pathMap_def)

lemma descendantsInPathParents_pathMap:
  assumes "snapshot E events" "event < length E" "(y, event) \<in> (parentRel E)\<^sup>*"
  shows "descendantsInPathParents E event ps nxt ds = (nxt', ds')
   \<Longrightarrow> set ps \<subseteq> set (parents (E ! event)) \<Longrightarrow> pathMap E y ds \<Longrightarrow> reached E y nxt
   \<Longrightarrow> pathMap E y ds' \<and> reached E y nxt'"
proof (induction ps arbitrary: nxt ds)
  case Nil
  then show ?case by simp
next
  case (Cons parent ps)
  from Cons.prems(2) have pp: "parent \<in> set (parents (E ! event))" and
    sub: "set ps \<subseteq> set (parents (E ! event))" by auto
  from pp have rel: "(event, parent) \<in> parentRel E" by (simp add: parentRel_def)
  show ?case
  proof (cases "map_of ds (eventHash (E ! parent))")
    case None
    let ?ds1 = "AList.update (eventHash (E ! parent)) [event] ds"
    from Cons.prems(1) None have
      r: "descendantsInPathParents E event ps (nxt @ [parent]) ?ds1 = (nxt', ds')" by simp
    have "pathMap E y ?ds1"
      using Cons.prems(3) assms(2,3) pp
      by (auto simp: pathMap_def update_conv' split: if_splits)
    moreover have "reached E y (nxt @ [parent])"
      using Cons.prems(4) assms rel snapshot_parents [OF assms(1,2) pp]
      by (auto simp: reached_def intro: rtrancl_into_rtrancl)
    ultimately show ?thesis using Cons.IH [OF r sub] by blast
  next
    case (Some d)
    let ?ds1 = "if event \<in> set d then ds
                else AList.update (eventHash (E ! parent)) (d @ [event]) ds"
    from Cons.prems(1) Some have
      r: "descendantsInPathParents E event ps nxt ?ds1 = (nxt', ds')" by simp
    have "pathMap E y ?ds1"
      using Cons.prems(3) assms(2,3) pp Some
      by (auto simp: pathMap_def update_conv' split: if_splits)
    with Cons.IH [OF r sub _ Cons.prems(4)] show ?thesis by blast
  qed
qed

lemma descendantsInPathLevel_pathMap:
  assumes "snapshot E events"
  shows "descendantsInPathLevel E am cur nxt ds = (nxt', ds')
   \<Longrightarrow> reached E y cur \<Longrightarrow> pathMap E y ds \<Longrightarrow> reached E y nxt
   \<Longrightarrow> pathMap E y ds' \<and> reached E y nxt'"
proof (induction cur arbitrary: nxt ds)
  case Nil
  then show ?case by simp
next
  case (Cons event rest)
  from Cons.prems(2) have ev: "event < length E" "(y, event) \<in> (parentRel E)\<^sup>*" and
    rr: "reached E y rest" by (auto simp: reached_def)
  show ?case
  proof (cases "eventHash (E ! event) \<in> set am")
    case True
    with Cons.prems(1) have "descendantsInPathLevel E am rest nxt ds = (nxt', ds')" by simp
    from Cons.IH [OF this rr Cons.prems(3,4)] show ?thesis .
  next
    case False
    obtain nxt1 ds1 where
      p: "descendantsInPathParents E event (parents (E ! event)) nxt ds = (nxt1, ds1)"
      by (cases "descendantsInPathParents E event (parents (E ! event)) nxt ds") auto
    with Cons.prems(1) False have
      r: "descendantsInPathLevel E am rest nxt1 ds1 = (nxt', ds')" by simp
    from descendantsInPathParents_pathMap [OF assms ev p _ Cons.prems(3,4)] have
      "pathMap E y ds1" "reached E y nxt1" by auto
    from Cons.IH [OF r rr this] show ?thesis .
  qed
qed

lemma descendantsInPathLoop_pathMap:
  "descendantsInPathLoop E am cur ds = Some ds' \<Longrightarrow> snapshot E events
   \<Longrightarrow> reached E y cur \<Longrightarrow> pathMap E y ds \<Longrightarrow> pathMap E y ds'"
proof (induction rule: descendantsInPathLoop.raw_induct [rotated -1, consumes 1])
  case (1 loop E am cur ds ds')
  show ?case
  proof (cases cur)
    case Nil
    with 1(2,5) show ?thesis by simp
  next
    case (Cons e rest)
    obtain nxt1 ds1 where
      l: "descendantsInPathLevel E am cur [] ds = (nxt1, ds1)"
      by (cases "descendantsInPathLevel E am cur [] ds") auto
    with 1(2) Cons have r: "loop E am nxt1 ds1 = Some ds'" by simp
    from descendantsInPathLevel_pathMap [OF 1(3) l 1(4,5)] have
      "pathMap E y ds1" "reached E y nxt1" by (auto simp: reached_def)
    from 1(1) [OF r 1(3) this(2,1)] show ?thesis .
  qed
qed

lemma findDescendantsInPath_pathMap:
  "snapshot E events \<Longrightarrow> findDescendantsInPath E am y ds = Some ds' \<Longrightarrow> y < length E
   \<Longrightarrow> pathMap E y ds \<Longrightarrow> pathMap E y ds'"
  unfolding findDescendantsInPath_def
  by (rule descendantsInPathLoop_pathMap) (auto simp: reached_def)

subsection \<open>The Y of an X\<close>

lemma diversePedigreeLoop_candidate:
  "diversePedigreeLoop E electors sm am x td ds s = Some r \<Longrightarrow> r = Inr (Some y, ds', s')
   \<Longrightarrow> snapshot E events \<Longrightarrow> branchLinks E (treeChildren s) \<Longrightarrow> td < length E
   \<Longrightarrow> (td, x) \<in> (parentRel E)\<^sup>* \<Longrightarrow> creator0 (E ! td) = creator0 (E ! x)
   \<Longrightarrow> pathMap E td ds \<Longrightarrow> candidate E x y ds'"
proof (induction arbitrary: y ds' s' rule: diversePedigreeLoop.raw_induct [rotated -1, consumes 1])
  case (1 loop E electors sm am x td ds s r)
  from 1(2,3) obtain ds1 suff s1 where
    f: "findDescendantsInPath E am td ds = Some ds1" and
    h: "hasSufficientEndorsements E x ds1 electors sm s = Some (Inr (suff, s1))"
    by (auto split: option.splits sum.splits)
  from findDescendantsInPath_pathMap [OF 1(4) f 1(6,9)] have pm: "pathMap E td ds1" .
  from metaOnly_fields(2) [OF hasSufficientEndorsements_metaOnly [OF h]] have
    tc: "treeChildren s1 = treeChildren s" .
  show ?case
  proof (cases suff)
    case True
    with 1(2,3) f h have "y = td" "ds' = ds1" by (simp_all add: ret_def)
    with pm 1(6,7,8) show ?thesis by (simp add: candidate_def)
  next
    case False
    with 1(2,3) f h obtain c where
      c: "treeChildren s1 td = [c]" and
      r: "loop E electors sm am x c ds1 s1 = Some (Inr (Some y, ds', s'))"
      by (auto simp: ret_def split: list.splits)
    from c tc have "c \<in> set (treeChildren s td)" by simp
    with 1(5) have
      l: "c < length E" "td \<in> set (parents (E ! c))" "creator0 (E ! c) = creator0 (E ! td)"
      unfolding branchLinks_def by blast+
    from l(2) have rel: "(c, td) \<in> parentRel E" by (simp add: parentRel_def)
    then have "(c, x) \<in> (parentRel E)\<^sup>*" using 1(7) by (rule converse_rtrancl_into_rtrancl)
    moreover from pm rel have "pathMap E c ds1" by (blast intro: pathMap_later)
    moreover from 1(5) tc have "branchLinks E (treeChildren s1)" by simp
    ultimately show ?thesis using 1(1) [OF r refl 1(4)] l(1,3) 1(8) by simp
  qed
qed

lemma findDiversePedigreeMergeEvent_candidate:
  assumes "findDiversePedigreeMergeEvent E x electors sm [] am s = Some (Inr (Some y, ds, s'))"
    and "snapshot E events" "branchLinks E (treeChildren s)" "x < length E"
  shows "candidate E x y ds"
proof (cases "sm = 1")
  case True
  with assms(1) have "y = x" "ds = []"
    by (simp_all add: findDiversePedigreeMergeEvent_def ret_def)
  with assms(4) show ?thesis by (simp add: candidate_def)
next
  case False
  with assms(1) obtain c where
    c: "treeChildren s x = [c]" and
    r: "diversePedigreeLoop E electors sm am x c [] s = Some (Inr (Some y, ds, s'))"
    by (auto simp: findDiversePedigreeMergeEvent_def ret_def split: list.splits)
  from c have "c \<in> set (treeChildren s x)" by simp
  with assms(3) have
    l: "c < length E" "x \<in> set (parents (E ! c))" "creator0 (E ! c) = creator0 (E ! x)"
    unfolding branchLinks_def by blast+
  from l(2) have "(c, x) \<in> (parentRel E)\<^sup>*" by (auto simp: parentRel_def)
  from diversePedigreeLoop_candidate [OF r refl assms(2,3) l(1) this l(3)] show ?thesis
    by simp
qed

lemma findYs_candidates:
  "findYs E electors sm xBy keys yBy s = Some (Inr (yBy', s'))
   \<Longrightarrow> snapshot E events \<Longrightarrow> branchLinks E (treeChildren s)
   \<Longrightarrow> \<forall>el x. map_of xBy el = Some x \<longrightarrow> x < length E
   \<Longrightarrow> \<forall>y ds. xDescendants s y = Some ds \<longrightarrow>
         (\<exists>el x. map_of xBy el = Some x \<and> candidate E x y ds)
   \<Longrightarrow> \<forall>y ds. xDescendants s' y = Some ds \<longrightarrow>
         (\<exists>el x. map_of xBy el = Some x \<and> candidate E x y ds)"
proof (induction keys arbitrary: yBy s)
  case Nil
  then show ?case by (simp add: ret_def)
next
  case (Cons el rest)
  from Cons.prems(1) obtain x where x: "map_of xBy el = Some x"
    by (auto simp: throw_def split: option.splits)
  from Cons.prems(1) x obtain am y ds s1 where
    f: "findDiversePedigreeMergeEvent E x electors sm [] am s = Some (Inr (y, ds, s1))" and
    k: "(case y of
           Some y' \<Rightarrow> findYs E electors sm xBy rest (AList.update el y' yBy)
                        (s1\<lparr>xDescendants := (xDescendants s1)(y' := Some ds)\<rparr>)
         | None \<Rightarrow> findYs E electors sm xBy rest yBy s1) = Some (Inr (yBy', s'))"
    by (auto simp: bindr_eq_Inr)
  note m = metaOnly_fields [OF findDiversePedigreeMergeEvent_metaOnly [OF f]]
  from Cons.prems(3) m(2) have b1: "branchLinks E (treeChildren s1)" by simp
  show ?case
  proof (cases y)
    case None
    with k have r: "findYs E electors sm xBy rest yBy s1 = Some (Inr (yBy', s'))" by simp
    from Cons.prems(5) m(5) have
      "\<forall>y ds. xDescendants s1 y = Some ds \<longrightarrow>
         (\<exists>el x. map_of xBy el = Some x \<and> candidate E x y ds)" by simp
    from Cons.IH [OF r Cons.prems(2) b1 Cons.prems(4) this] show ?thesis .
  next
    case (Some y')
    let ?s2 = "s1\<lparr>xDescendants := (xDescendants s1)(y' := Some ds)\<rparr>"
    from k Some have
      r: "findYs E electors sm xBy rest (AList.update el y' yBy) ?s2 = Some (Inr (yBy', s'))"
      by simp
    from x Cons.prems(4) have "x < length E" by blast
    from findDiversePedigreeMergeEvent_candidate
      [OF f [unfolded Some] Cons.prems(2,3) this] have "candidate E x y' ds" .
    with x Cons.prems(5) m(5) have
      "\<forall>y ds. xDescendants ?s2 y = Some ds \<longrightarrow>
         (\<exists>el x. map_of xBy el = Some x \<and> candidate E x y ds)" by auto
    moreover from b1 have "branchLinks E (treeChildren ?s2)" by simp
    ultimately show ?thesis using Cons.IH [OF r Cons.prems(2) _ Cons.prems(4)] by blast
  qed
qed

subsection \<open>The flattened descendants\<close>

lemma descendantsOf_step:
  assumes "snapshot E events" "pathMap E y ds" "c < length E"
    and "e \<in> set (descendantsOf E ds c)"
  shows "e < length E \<and> (y, e) \<in> (parentRel E)\<^sup>* \<and> (e, c) \<in> parentRel E"
proof -
  from assms(4) obtain es where
    m: "map_of ds (eventHash (E ! c)) = Some es" and e: "e \<in> set es"
    by (cases "map_of ds (eventHash (E ! c))") (auto simp: descendantsOf_def)
  with assms(2) obtain p where
    v: "e < length E" "(y, e) \<in> (parentRel E)\<^sup>*" and
    p: "p \<in> set (parents (E ! e))" "eventHash (E ! p) = eventHash (E ! c)"
    unfolding pathMap_def by blast
  from snapshot_parents [OF assms(1) v(1) p(1)] have "p < length E" .
  from snapshot_hash [OF assms(1) assms(3) this p(2)] p(1) have "(e, c) \<in> parentRel E"
    by (simp add: parentRel_def)
  with v show ?thesis by simp
qed

lemma flattenLoop_between:
  "flattenLoop E ds cur result = Some out \<Longrightarrow> snapshot E events \<Longrightarrow> pathMap E y ds
   \<Longrightarrow> \<forall>c \<in> set cur. c < length E \<and> (c, x) \<in> (parentRel E)\<^sup>*
   \<Longrightarrow> \<forall>r \<in> set result. r < length E \<and> (r, x) \<in> (parentRel E)\<^sup>* \<and> (y, r) \<in> (parentRel E)\<^sup>*
   \<Longrightarrow> \<forall>r \<in> set out. r < length E \<and> (r, x) \<in> (parentRel E)\<^sup>* \<and> (y, r) \<in> (parentRel E)\<^sup>*"
proof (induction rule: flattenLoop.raw_induct [rotated -1, consumes 1])
  case (1 loop E ds cur result out)
  show ?case
  proof (cases cur)
    case Nil
    with 1(2,6) show ?thesis by auto
  next
    case (Cons e rest)
    let ?nxt = "uniq (concat (map (descendantsOf E ds) cur))"
    from 1(2) Cons have r: "loop E ds ?nxt (result @ ?nxt) = Some out" by simp
    have n: "\<forall>r \<in> set ?nxt. r < length E \<and> (r, x) \<in> (parentRel E)\<^sup>* \<and> (y, r) \<in> (parentRel E)\<^sup>*"
    proof
      fix r assume "r \<in> set ?nxt"
      then obtain c where c: "c \<in> set cur" "r \<in> set (descendantsOf E ds c)" by auto
      with 1(5) have cv: "c < length E" "(c, x) \<in> (parentRel E)\<^sup>*" by auto
      from descendantsOf_step [OF 1(3,4) cv(1) c(2)] cv(2)
      show "r < length E \<and> (r, x) \<in> (parentRel E)\<^sup>* \<and> (y, r) \<in> (parentRel E)\<^sup>*"
        by (blast intro: converse_rtrancl_into_rtrancl)
    qed
    then have "\<forall>c \<in> set ?nxt. c < length E \<and> (c, x) \<in> (parentRel E)\<^sup>*" by blast
    moreover from n 1(6) have
      "\<forall>r \<in> set (result @ ?nxt). r < length E \<and> (r, x) \<in> (parentRel E)\<^sup>* \<and> (y, r) \<in> (parentRel E)\<^sup>*"
      by auto
    ultimately show ?thesis using 1(1) [OF r 1(3,4)] by blast
  qed
qed

lemma flattenDescendants_between:
  assumes "flattenDescendants E x ds = Some out" "snapshot E events" "pathMap E y ds"
    "x < length E" "r \<in> set out"
  shows "r < length E \<and> (r, x) \<in> (parentRel E)\<^sup>* \<and> (y, r) \<in> (parentRel E)\<^sup>*"
  using flattenLoop_between [OF assms(1) [unfolded flattenDescendants_def] assms(2,3), of x]
    assms(4,5) by simp

subsection \<open>Containment of the proof\<close>

lemma metaKept_known:
  assumes "metaKept (initState E) s" "snapshot E events" "e < length E"
  shows "\<exists>c. c \<noteq> [] \<and> meta s e = Some c \<and> creator0 (E ! e) = Some c"
proof -
  from snapshot_creator [OF assms(2,3)] obtain c where
    c: "creator0 (E ! e) = Some c" "c \<noteq> []" by blast
  then have "meta (initState E) e = Some c" by (simp add: initState_def)
  with assms(1) c show ?thesis by (auto simp: metaKept_def)
qed

lemma getCreator_known:
  assumes "metaKept (initState E) s" "snapshot E events" "e < length E"
    and "getCreator E e s = Some (Inr (c, s'))"
  shows "creator0 (E ! e) = Some c"
proof -
  from metaKept_known [OF assms(1-3)] obtain c' where
    c: "c' \<noteq> []" "meta s e = Some c'" "creator0 (E ! e) = Some c'" by blast
  then have "getCreator E e s = ret (c', s)" by (simp add: getCreator_present)
  with assms(4) c(3) show ?thesis by (simp add: ret_def)
qed

lemma linkEvents_members:
  "linkEvents E electors events t s = Some (Inr (t', s'))
   \<Longrightarrow> \<forall>e \<in> V. \<exists>c. c \<noteq> [] \<and> meta s e = Some c \<and> creator0 (E ! e) = Some c
   \<Longrightarrow> set events \<subseteq> V
   \<Longrightarrow> \<forall>p. set (treeChildren s p) \<subseteq> V
   \<Longrightarrow> \<forall>el ts. map_of t el = Some ts \<longrightarrow> (\<forall>x \<in> set ts. x \<in> V \<and> creator0 (E ! x) = Some el)
   \<Longrightarrow> (\<forall>p. set (treeChildren s' p) \<subseteq> V)
     \<and> (\<forall>el ts. map_of t' el = Some ts \<longrightarrow> (\<forall>x \<in> set ts. x \<in> V \<and> creator0 (E ! x) = Some el))"
proof (induction events arbitrary: t s)
  case Nil
  then show ?case by (simp add: ret_def)
next
  case (Cons e rest)
  from Cons.prems(3) have eV: "e \<in> V" and sub: "set rest \<subseteq> V" by auto
  with Cons.prems(2) obtain c where
    c: "c \<noteq> []" "meta s e = Some c" "creator0 (E ! e) = Some c" by blast
  then have g: "getCreator E e s = ret (c, s)" by (simp add: getCreator_present)
  show ?case
  proof (cases "c \<in> set electors")
    case False
    with Cons.prems(1) g have "linkEvents E electors rest t s = Some (Inr (t', s'))" by simp
    from Cons.IH [OF this Cons.prems(2) sub Cons.prems(4,5)] show ?thesis .
  next
    case True
    show ?thesis
    proof (cases "findTreeParent E e")
      case (Some p)
      let ?s2 = "s\<lparr>treeParent := (treeParent s)(e := Some p),
                    treeChildren := (treeChildren s)(p := treeChildren s p @ [e])\<rparr>"
      from Cons.prems(1) g True Some have
        r: "linkEvents E electors rest t ?s2 = Some (Inr (t', s'))" by simp
      have "\<forall>e \<in> V. \<exists>c. c \<noteq> [] \<and> meta ?s2 e = Some c \<and> creator0 (E ! e) = Some c"
        using Cons.prems(2) by simp
      moreover have "\<forall>q. set (treeChildren ?s2 q) \<subseteq> V" using Cons.prems(4) eV by auto
      ultimately show ?thesis using Cons.IH [OF r _ sub _ Cons.prems(5)] by blast
    next
      case None
      let ?t2 = "AList.update c (case map_of t c of Some ts \<Rightarrow> ts @ [e] | None \<Rightarrow> [e]) t"
      let ?s2 = "s\<lparr>treeParent := (treeParent s)(e := None)\<rparr>"
      from Cons.prems(1) g True None have
        r: "linkEvents E electors rest ?t2 ?s2 = Some (Inr (t', s'))" by simp
      have "\<forall>e \<in> V. \<exists>c. c \<noteq> [] \<and> meta ?s2 e = Some c \<and> creator0 (E ! e) = Some c"
        using Cons.prems(2) by simp
      moreover have "\<forall>q. set (treeChildren ?s2 q) \<subseteq> V" using Cons.prems(4) by simp
      moreover have
        "\<forall>el ts. map_of ?t2 el = Some ts \<longrightarrow> (\<forall>x \<in> set ts. x \<in> V \<and> creator0 (E ! x) = Some el)"
        using Cons.prems(5) eV c(3)
        by (auto simp: update_conv' split: option.splits if_splits)
      ultimately show ?thesis using Cons.IH [OF r _ sub] by blast
    qed
  qed
qed

lemma getElectorBranches_links:
  assumes "snapshot E events"
    and "getElectorBranches E events electors (initState E) = Some (Inr (tails, s1))"
  shows "branchLinks E (treeChildren s1)"
    and "\<forall>el ts. map_of tails el = Some ts \<longrightarrow>
           (\<forall>x \<in> set ts. x < length E \<and> creator0 (E ! x) = Some el)"
proof -
  from assms(2) obtain s0 where
    l: "linkEvents E electors events [] (initState E) = Some (Inr (tails, s0))" and
    g: "setAllGenerations tails s0 = Some s1"
    by (auto simp: getElectorBranches_def bindr_eq_Inr ret_def split: option.splits)
  from setAllGenerations_generationOnly [OF g] have tc: "treeChildren s1 = treeChildren s0"
    by (cases s0, cases s1) simp
  have k: "\<forall>e \<in> set events. \<exists>c. c \<noteq> [] \<and> meta (initState E) e = Some c
             \<and> creator0 (E ! e) = Some c"
    using metaKept_known [OF metaKept_refl assms(1)] snapshot_events [OF assms(1)] by blast
  have "(\<forall>p. set (treeChildren s0 p) \<subseteq> set events)
     \<and> (\<forall>el ts. map_of tails el = Some ts \<longrightarrow>
          (\<forall>x \<in> set ts. x \<in> set events \<and> creator0 (E ! x) = Some el))"
    by (rule linkEvents_members [OF l k]) (simp_all add: initState_def)
  then have m: "\<And>p c. c \<in> set (treeChildren s0 p) \<Longrightarrow> c \<in> set events" and
    t: "\<And>el ts x. map_of tails el = Some ts \<Longrightarrow> x \<in> set ts
          \<Longrightarrow> x \<in> set events \<and> creator0 (E ! x) = Some el" by blast+
  from t snapshot_events [OF assms(1)] show
    "\<forall>el ts. map_of tails el = Some ts \<longrightarrow>
       (\<forall>x \<in> set ts. x < length E \<and> creator0 (E ! x) = Some el)" by blast
  from linkEvents_linked [OF l linked_initState] have li: "linked E tails s0" .
  show "branchLinks E (treeChildren s1)"
    unfolding branchLinks_def tc
  proof (intro allI impI)
    fix p c assume c: "c \<in> set (treeChildren s0 p)"
    from m [OF c] snapshot_events [OF assms(1)] have v: "c < length E" by blast
    from li c have f: "findTreeParent E c = Some p" by (simp add: linked_def)
    then have "p \<in> set (parents (E ! c))"
      by (auto simp: findTreeParent_def find_Some_iff)
    with snapshot_treeParent [OF assms(1) v f] v
    show "c < length E \<and> p \<in> set (parents (E ! c)) \<and> creator0 (E ! c) = creator0 (E ! p)"
      by simp
  qed
qed

lemma candidates_found:
  assumes "snapshot E events"
    and b: "getElectorBranches E events electors (initState E) = Some (Inr (tails, s1))"
    and c: "findMergeEventProofCandidates E tails electors s1 = Some (Inr (Some (yBy, xBy), s2))"
  shows "\<forall>el x. map_of xBy el = Some x \<longrightarrow> x < length E \<and> creator0 (E ! x) = Some el"
    and "\<forall>y ds. xDescendants s2 y = Some ds \<longrightarrow>
           (\<exists>el x. map_of xBy el = Some x \<and> candidate E x y ds)"
proof -
  let ?sm = "twoThirdsMajority (length electors)"
  from c obtain s1' where
    x: "findXs E tails (map fst tails) [] s1 = Some (Inr (xBy, s1'))" and
    y: "findYs E electors ?sm xBy (map fst xBy) [] s1' = Some (Inr (yBy, s2))"
    by (auto simp: findMergeEventProofCandidates_def Let_def bindr_eq_Inr ret_def
             split: if_splits)
  note L = getElectorBranches_links [OF assms(1) b]
  have xs: "map_of tails el = Some [x]" if "map_of xBy el = Some x" for el x
    using findXs_map [OF x, of el] that by (auto split: if_splits)
  with L(2) show
    X: "\<forall>el x. map_of xBy el = Some x \<longrightarrow> x < length E \<and> creator0 (E ! x) = Some el"
    by fastforce
  from getElectorBranches_frame [OF b] have "xDescendants s1 = (\<lambda>_. None)"
    by (cases s1) (simp add: initState_def)
  with findXs_frame [OF x] have
    f: "xDescendants s1' = (\<lambda>_. None)" "treeChildren s1' = treeChildren s1"
    by (cases s1, cases s1', simp)+
  from L(1) f(2) have "branchLinks E (treeChildren s1')" by simp
  from findYs_candidates [OF y assms(1) this] X f(1)
  show "\<forall>y ds. xDescendants s2 y = Some ds \<longrightarrow>
          (\<exists>el x. map_of xBy el = Some x \<and> candidate E x y ds)" by simp
qed

lemma pairYsWithXs_entries:
  "pairYsWithXs E xBy sm ys s = Some (Inr (ps, s')) \<Longrightarrow> c \<in> set ps
   \<Longrightarrow> \<exists>s0 s1 creator ds proof0.
         metaOnly s s0 \<and> getCreator E (py c) s0 = Some (Inr (creator, s1))
         \<and> map_of xBy creator = Some (px c) \<and> xDescendants s (py c) = Some ds
         \<and> flattenDescendants E (px c) ds = Some proof0
         \<and> pproof c = (if length proof0 = 0 \<and> sm = 1 then [px c] else proof0)"
proof (induction ys arbitrary: s ps)
  case Nil
  then show ?case by (simp add: ret_def)
next
  case (Cons y ys)
  from Cons.prems(1) obtain cr s1 where g: "getCreator E y s = Some (Inr (cr, s1))"
    by (auto simp: bindr_eq_Inr)
  from Cons.prems(1) g obtain x where x: "map_of xBy cr = Some x"
    by (auto simp: throw_def split: option.splits)
  from Cons.prems(1) g x obtain d where d: "xDescendants s1 y = Some d"
    by (auto simp: throw_def split: option.splits)
  from Cons.prems(1) g x d obtain proof0 ps1 where
    f: "flattenDescendants E x d = Some proof0" and
    r: "pairYsWithXs E xBy sm ys s1 = Some (Inr (ps1, s'))" and
    p: "ps = \<lparr>py = y, px = x,
               pproof = (if length proof0 = 0 \<and> sm = 1 then [x] else proof0)\<rparr> # ps1"
    by (auto simp: bindr_eq_Inr ret_def liftO_def)
  note m = getCreator_metaOnly [OF g]
  from metaOnly_fields(5) [OF m] have xd: "xDescendants s1 = xDescendants s" .
  from Cons.prems(2) p consider
    (a) "c = \<lparr>py = y, px = x,
              pproof = (if length proof0 = 0 \<and> sm = 1 then [x] else proof0)\<rparr>"
    | (b) "c \<in> set ps1" by auto
  then show ?case
  proof cases
    case a
    with g x d f xd have
      "metaOnly s s \<and> getCreator E (py c) s = Some (Inr (cr, s1))
       \<and> map_of xBy cr = Some (px c) \<and> xDescendants s (py c) = Some d
       \<and> flattenDescendants E (px c) d = Some proof0
       \<and> pproof c = (if length proof0 = 0 \<and> sm = 1 then [px c] else proof0)" by simp
    then show ?thesis by blast
  next
    case b
    from Cons.IH [OF r b] obtain s0 s1' creator ds pr where
      i: "metaOnly s1 s0" "getCreator E (py c) s0 = Some (Inr (creator, s1'))"
         "map_of xBy creator = Some (px c)" "xDescendants s1 (py c) = Some ds"
         "flattenDescendants E (px c) ds = Some pr"
         "pproof c = (if length pr = 0 \<and> sm = 1 then [px c] else pr)" by blast
    from metaOnly_trans [OF m i(1)] i xd show ?thesis by auto
  qed
qed

lemma consensus_between:
  assumes sn: "snapshot E events"
    and b: "getElectorBranches E events electors (initState E) = Some (Inr (tails, s1))"
    and c: "findMergeEventProofCandidates E tails electors s1 = Some (Inr (Some (yBy, xBy), s2))"
    and m: "findConsensusMergeEventProof E xBy yBy electors s2 = Some (Inr (ys, s3))"
    and p: "pairYsWithXs E xBy sm ys s3 = Some (Inr (consensus, s4))"
    and e: "entry \<in> set consensus"
  shows "\<exists>el. creator0 (E ! py entry) = Some el \<and> map_of xBy el = Some (px entry)"
    and "(py entry, px entry) \<in> (parentRel E)\<^sup>*"
    and "\<forall>r \<in> set (pproof entry).
           r < length E \<and> (r, px entry) \<in> (parentRel E)\<^sup>* \<and> (py entry, r) \<in> (parentRel E)\<^sup>*"
proof -
  from pairYsWithXs_entries [OF p e] obtain s0 s0' creator ds proof0 where
    i: "metaOnly s3 s0" "getCreator E (py entry) s0 = Some (Inr (creator, s0'))"
       "map_of xBy creator = Some (px entry)" "xDescendants s3 (py entry) = Some ds"
       "flattenDescendants E (px entry) ds = Some proof0"
       "pproof entry = (if length proof0 = 0 \<and> sm = 1 then [px entry] else proof0)"
    by blast
  note C = candidates_found [OF sn b c]
  from findConsensusMergeEventProof_protocolFrame [OF m] have
    "xDescendants s3 = xDescendants s2" by (simp add: protocolFrame_def)
  with i(4) have "xDescendants s2 (py entry) = Some ds" by simp
  with C(2) obtain el x where
    x: "map_of xBy el = Some x" and ca: "candidate E x (py entry) ds" by blast
  from ca have
    y: "py entry < length E" "(py entry, x) \<in> (parentRel E)\<^sup>*"
       "creator0 (E ! py entry) = creator0 (E ! x)" "pathMap E (py entry) ds"
    by (simp_all add: candidate_def)
  from x C(1) have xv: "x < length E" "creator0 (E ! x) = Some el" by auto
  have "metaKept (initState E) s0"
    using getElectorBranches_metaKept [OF b] candidates_metaKept [OF c]
      findConsensusMergeEventProof_metaKept [OF m] metaOnly_metaKept [OF i(1)]
    by (blast intro: metaKept_trans)
  from getCreator_known [OF this sn y(1) i(2)] y(3) xv(2) have "creator = el" by simp
  with i(3) x have px: "px entry = x" by simp
  with y(3) xv(2) x show
    "\<exists>el. creator0 (E ! py entry) = Some el \<and> map_of xBy el = Some (px entry)" by simp
  from y(2) px show "(py entry, px entry) \<in> (parentRel E)\<^sup>*" by simp
  show "\<forall>r \<in> set (pproof entry).
          r < length E \<and> (r, px entry) \<in> (parentRel E)\<^sup>* \<and> (py entry, r) \<in> (parentRel E)\<^sup>*"
  proof
    fix r assume r: "r \<in> set (pproof entry)"
    show "r < length E \<and> (r, px entry) \<in> (parentRel E)\<^sup>* \<and> (py entry, r) \<in> (parentRel E)\<^sup>*"
    proof (cases "length proof0 = 0 \<and> sm = 1")
      case True
      with i(6) r have "r = px entry" by simp
      with px xv(1) y(2) show ?thesis by simp
    next
      case False
      with i(6) r have "r \<in> set proof0" by auto
      from flattenDescendants_between [OF i(5) sn y(4) _ this] px xv(1) show ?thesis by simp
    qed
  qed
qed

text \<open>
  C1.  On a snapshot (the events and their parents are objects of the snapshot, every
  event carries its creator, a tree parent has the creator of its tree child, hashes
  identify events), for every result of \<^verbatim>\<open>findConsensus\<close> other than \<^verbatim>\<open>null\<close>: the X paired
  with a returned Y is \<^verbatim>\<open>xByElector[creator(Y)]\<close> and an ancestor of Y, and every event whose
  hash is in \<^verbatim>\<open>consensusProofHashes\<close> is a descendant of a paired X and an ancestor of the Y
  of this pair.  Ancestors and descendants follow \<^verbatim>\<open>_parents\<close> and include the event itself:
  with one elector Y is X, and the proof is X.
\<close>

theorem C1_containment:
  assumes "snapshot E events" and "findConsensus E events electors = ret (Some res)"
  shows "\<exists>tails s1 yBy xBy s2 consensus.
           getElectorBranches E events electors (initState E) = ret (tails, s1)
         \<and> findMergeEventProofCandidates E tails electors s1 = ret (Some (yBy, xBy), s2)
         \<and> consensusProof E events electors = ret consensus \<and> consensus \<noteq> []
         \<and> (\<forall>c \<in> set consensus.
               (\<exists>el. creator0 (E ! py c) = Some el \<and> map_of xBy el = Some (px c))
               \<and> (py c, px c) \<in> (parentRel E)\<^sup>*)
         \<and> (\<forall>e < length E. eventHash (E ! e) \<in> set (consensusProofHashes res) \<longrightarrow>
               (\<exists>c \<in> set consensus.
                  (e, px c) \<in> (parentRel E)\<^sup>* \<and> (py c, e) \<in> (parentRel E)\<^sup>*))"
proof -
  from findConsensus_result [OF assms(2)] obtain consensus where
    cp: "consensusProof E events electors = ret consensus" "consensus \<noteq> []" and
    h: "consensusProofHashes res
          = uniq (concat (map (\<lambda>current. map (\<lambda>x. eventHash (E ! x)) (pproof current))
                           consensus))" by blast
  from consensusProof_parts [OF cp] obtain tails s1 yBy xBy s2 ys s3 s4 where
    b: "getElectorBranches E events electors (initState E) = Some (Inr (tails, s1))" and
    c: "findMergeEventProofCandidates E tails electors s1 = Some (Inr (Some (yBy, xBy), s2))" and
    m: "findConsensusMergeEventProof E xBy yBy electors s2 = Some (Inr (ys, s3))" and
    p: "pairYsWithXs E xBy (twoThirdsMajority (length electors)) ys s3
          = Some (Inr (consensus, s4))" by blast
  note B = consensus_between [OF assms(1) b c m p]
  have "\<exists>c \<in> set consensus. (e, px c) \<in> (parentRel E)\<^sup>* \<and> (py c, e) \<in> (parentRel E)\<^sup>*"
    if e: "e < length E" "eventHash (E ! e) \<in> set (consensusProofHashes res)" for e
  proof -
    from e(2) h obtain entry r where
      r: "entry \<in> set consensus" "r \<in> set (pproof entry)" "eventHash (E ! r) = eventHash (E ! e)"
      by auto
    from B(3) [OF r(1)] r(2) have
      v: "r < length E" "(r, px entry) \<in> (parentRel E)\<^sup>*" "(py entry, r) \<in> (parentRel E)\<^sup>*"
      by auto
    from snapshot_hash [OF assms(1) e(1) v(1) r(3)] have "r = e" .
    with v r(1) show ?thesis by blast
  qed
  with B(1,2) b c cp show ?thesis unfolding ret_def by blast
qed

lemma T2_snapshot: "snapshot T2 [0, 1, 2, 3, 4, 5, 6, 7, 8, 9, 10, 11]"
  by (simp add: snapshot_def T2_def merge_def findTreeParent_def)

theorem C1_witness:
  "snapshot T2 [0, 1, 2, 3, 4, 5, 6, 7, 8, 9, 10, 11]
   \<and> findConsensus T2 [0, 1, 2, 3, 4, 5, 6, 7, 8, 9, 10, 11] [''A'', ''C'']
       = ret (Some \<lparr>eventHashes = [''a1'', ''c1''],
                     consensusProofHashes = [''a2'', ''c2'', ''c3'']\<rparr>)
   \<and> (\<exists>tails s1 yBy xBy s2 consensus.
         getElectorBranches T2 [0, 1, 2, 3, 4, 5, 6, 7, 8, 9, 10, 11] [''A'', ''C'']
           (initState T2) = ret (tails, s1)
       \<and> findMergeEventProofCandidates T2 tails [''A'', ''C''] s1 = ret (Some (yBy, xBy), s2)
       \<and> consensusProof T2 [0, 1, 2, 3, 4, 5, 6, 7, 8, 9, 10, 11] [''A'', ''C''] = ret consensus
       \<and> consensus \<noteq> []
       \<and> (\<forall>c \<in> set consensus.
             (\<exists>el. creator0 (T2 ! py c) = Some el \<and> map_of xBy el = Some (px c))
             \<and> (py c, px c) \<in> (parentRel T2)\<^sup>*)
       \<and> (\<forall>e < length T2.
             eventHash (T2 ! e)
               \<in> set (consensusProofHashes
                        \<lparr>eventHashes = [''a1'', ''c1''],
                         consensusProofHashes = [''a2'', ''c2'', ''c3'']\<rparr>) \<longrightarrow>
             (\<exists>c \<in> set consensus.
                (e, px c) \<in> (parentRel T2)\<^sup>* \<and> (py c, e) \<in> (parentRel T2)\<^sup>*)))"
proof -
  note w = C1_containment [OF T2_snapshot T2_findConsensus]
  show ?thesis using T2_snapshot T2_findConsensus w
    by - (rule conjI, assumption, rule conjI, assumption, assumption)
qed

subsection \<open>The branches of a snapshot\<close>

lemma parentsFirst_parent:
  "parentsFirst E \<Longrightarrow> e < length E \<Longrightarrow> p \<in> set (parents (E ! e)) \<Longrightarrow> p < e"
  by (auto simp: parentsFirst_def list_all_iff)

lemma setGenerations_returns:
  assumes "\<forall>p c. c \<in> set (treeChildren s p) \<longrightarrow> p < c \<and> c < n"
  shows "\<forall>c \<in> set cur. k \<le> c \<and> c < n \<Longrightarrow> \<exists>s'. setGenerations g cur s = Some s'"
  using assms
proof (induction "n - k" arbitrary: k g cur s)
  case 0
  then have "cur = []" by (cases cur) auto
  then show ?case by (simp add: setGenerations.simps)
next
  case (Suc d)
  show ?case
  proof (cases cur)
    case Nil
    then show ?thesis by (simp add: setGenerations.simps)
  next
    case (Cons c rest)
    let ?s1 = "s\<lparr>generation := foldl (\<lambda>m event. m(event := Some g)) (generation s) cur\<rparr>"
    let ?nxt = "concat (map (treeChildren s) cur)"
    have n1: "\<forall>c \<in> set ?nxt. Suc k \<le> c \<and> c < n"
      using Suc.prems by fastforce
    have n2: "d = n - Suc k" using Suc(2) by simp
    have n3: "\<forall>p c. c \<in> set (treeChildren ?s1 p) \<longrightarrow> p < c \<and> c < n"
      using Suc.prems(2) by simp
    have "\<exists>s'. setGenerations (g + 1) ?nxt ?s1 = Some s'"
      using Suc.hyps(1) [OF n2 n1 n3] .
    with Cons show ?thesis by (simp add: setGenerations_step)
  qed
qed

lemma setAllGenerations_returns:
  "\<forall>p c. c \<in> set (treeChildren s p) \<longrightarrow> p < c \<and> c < n
   \<Longrightarrow> \<forall>(el, ts) \<in> set tails. \<forall>t \<in> set ts. t < n
   \<Longrightarrow> \<exists>s'. setAllGenerations tails s = Some s'"
proof (induction tails arbitrary: s)
  case Nil
  then show ?case by simp
next
  case (Cons a tails)
  obtain el ts where a: "a = (el, ts)" by (cases a)
  with Cons.prems(2) have "\<forall>c \<in> set ts. 0 \<le> c \<and> c < n" by auto
  from setGenerations_returns [OF Cons.prems(1) this] obtain s1 where
    g: "setGenerations 1 ts s = Some s1" by blast
  from setGenerations_frame [OF g] Cons.prems(1) have
    "\<forall>p c. c \<in> set (treeChildren s1 p) \<longrightarrow> p < c \<and> c < n" by simp
  moreover from Cons.prems(2) have "\<forall>(el, ts) \<in> set tails. \<forall>t \<in> set ts. t < n" by simp
  ultimately obtain s' where "setAllGenerations tails s1 = Some s'"
    using Cons.IH by blast
  with a g show ?case by simp
qed

lemma linkEvents_returns:
  "\<forall>e \<in> V. \<exists>c. c \<noteq> [] \<and> meta s e = Some c \<and> creator0 (E ! e) = Some c
   \<Longrightarrow> set events \<subseteq> V \<Longrightarrow> \<exists>t' s'. linkEvents E electors events t s = ret (t', s')"
proof (induction events arbitrary: t s)
  case Nil
  then show ?case by simp
next
  case (Cons e rest)
  from Cons.prems obtain c where
    c: "c \<noteq> []" "meta s e = Some c" by auto
  then have g: "getCreator E e s = ret (c, s)" by (simp add: getCreator_present)
  from Cons.prems(2) have sub: "set rest \<subseteq> V" by simp
  have k: "\<forall>e \<in> V. \<exists>c. c \<noteq> [] \<and> meta (s\<lparr>treeParent := tp, treeChildren := tc\<rparr>) e = Some c
             \<and> creator0 (E ! e) = Some c" for tp tc
    using Cons.prems(1) by simp
  have k': "\<forall>e \<in> V. \<exists>c. c \<noteq> [] \<and> meta (s\<lparr>treeParent := tp\<rparr>) e = Some c
             \<and> creator0 (E ! e) = Some c" for tp
    using Cons.prems(1) by simp
  show ?case
    using g Cons.IH [OF Cons.prems(1) sub] Cons.IH [OF k sub] Cons.IH [OF k' sub]
    by (simp split: option.splits)
qed

lemma linkEvents_links:
  assumes "snapshot E events"
    and l: "linkEvents E electors events [] (initState E) = Some (Inr (tails, s0))"
  shows "branchLinks E (treeChildren s0)"
    and "\<forall>el ts. map_of tails el = Some ts \<longrightarrow>
           (\<forall>x \<in> set ts. x < length E \<and> creator0 (E ! x) = Some el)"
    and "distinct (map fst tails)"
proof -
  have k: "\<forall>e \<in> set events. \<exists>c. c \<noteq> [] \<and> meta (initState E) e = Some c
             \<and> creator0 (E ! e) = Some c"
    using metaKept_known [OF metaKept_refl assms(1)] snapshot_events [OF assms(1)] by blast
  have "(\<forall>p. set (treeChildren s0 p) \<subseteq> set events)
     \<and> (\<forall>el ts. map_of tails el = Some ts \<longrightarrow>
          (\<forall>x \<in> set ts. x \<in> set events \<and> creator0 (E ! x) = Some el))"
    by (rule linkEvents_members [OF l k]) (simp_all add: initState_def)
  then have m: "\<And>p c. c \<in> set (treeChildren s0 p) \<Longrightarrow> c \<in> set events" and
    t: "\<And>el ts x. map_of tails el = Some ts \<Longrightarrow> x \<in> set ts
          \<Longrightarrow> x \<in> set events \<and> creator0 (E ! x) = Some el" by blast+
  from t snapshot_events [OF assms(1)] show
    "\<forall>el ts. map_of tails el = Some ts \<longrightarrow>
       (\<forall>x \<in> set ts. x < length E \<and> creator0 (E ! x) = Some el)" by blast
  from linkEvents_linked [OF l linked_initState] have li: "linked E tails s0" .
  then show "distinct (map fst tails)" by (simp add: linked_def)
  show "branchLinks E (treeChildren s0)"
    unfolding branchLinks_def
  proof (intro allI impI)
    fix p c assume c: "c \<in> set (treeChildren s0 p)"
    from m [OF c] snapshot_events [OF assms(1)] have v: "c < length E" by blast
    from li c have f: "findTreeParent E c = Some p" by (simp add: linked_def)
    then have "p \<in> set (parents (E ! c))"
      by (auto simp: findTreeParent_def find_Some_iff)
    with snapshot_treeParent [OF assms(1) v f] v
    show "c < length E \<and> p \<in> set (parents (E ! c)) \<and> creator0 (E ! c) = creator0 (E ! p)"
      by simp
  qed
qed

lemma getElectorBranches_returns:
  assumes "snapshot E events" "parentsFirst E"
  shows "\<exists>tails s1. getElectorBranches E events electors (initState E) = ret (tails, s1)"
proof -
  have k: "\<forall>e \<in> set events. \<exists>c. c \<noteq> [] \<and> meta (initState E) e = Some c
             \<and> creator0 (E ! e) = Some c"
    using metaKept_known [OF metaKept_refl assms(1)] snapshot_events [OF assms(1)] by blast
  from linkEvents_returns [OF k subset_refl] obtain tails s0 where
    l: "linkEvents E electors events [] (initState E) = ret (tails, s0)" by blast
  note L = linkEvents_links [OF assms(1) l [unfolded ret_def]]
  have tc: "\<forall>p c. c \<in> set (treeChildren s0 p) \<longrightarrow> p < c \<and> c < length E"
    using L(1) parentsFirst_parent [OF assms(2)] unfolding branchLinks_def by blast
  have "\<forall>(el, ts) \<in> set tails. \<forall>t \<in> set ts. t < length E"
  proof (intro ballI, clarify)
    fix el ts t assume a: "(el, ts) \<in> set tails" "t \<in> set ts"
    with L(3) have "map_of tails el = Some ts" by simp
    with L(2) a(2) show "t < length E" by blast
  qed
  from setAllGenerations_returns [OF tc this] obtain s1 where
    "setAllGenerations tails s0 = Some s1" by blast
  with l show ?thesis by (simp add: getElectorBranches_def)
qed

lemma findXs_returns:
  "set keys \<subseteq> fst ` set tails \<Longrightarrow> \<exists>xBy' s'. findXs E tails keys xBy s = ret (xBy', s')"
proof (induction keys arbitrary: xBy s)
  case Nil
  then show ?case by simp
next
  case (Cons el rest)
  from Cons.prems obtain ts where t: "map_of tails el = Some ts"
    by (cases "map_of tails el") (auto simp: map_of_eq_None_iff)
  from Cons.prems have "set rest \<subseteq> fst ` set tails" by simp
  note IH = Cons.IH [OF this]
  show ?case using t IH by (cases ts; cases "tl ts") (auto split: list.splits)
qed

subsection \<open>The candidates of a snapshot\<close>

lemma descendantsInPathParents_next:
  "descendantsInPathParents E event ps nxt ds = (nxt', ds') \<Longrightarrow> set nxt' \<subseteq> set nxt \<union> set ps"
proof (induction ps arbitrary: nxt ds)
  case Nil
  then show ?case by simp
next
  case (Cons parent ps)
  then show ?case by (fastforce split: option.splits)
qed

lemma descendantsInPathLevel_next:
  "descendantsInPathLevel E am cur nxt ds = (nxt', ds')
   \<Longrightarrow> set nxt' \<subseteq> set nxt \<union> (\<Union>c \<in> set cur. set (parents (E ! c)))"
proof (induction cur arbitrary: nxt ds)
  case Nil
  then show ?case by simp
next
  case (Cons event rest)
  show ?case
  proof (cases "eventHash (E ! event) \<in> set am")
    case True
    with Cons.prems have "descendantsInPathLevel E am rest nxt ds = (nxt', ds')" by simp
    from Cons.IH [OF this] show ?thesis by auto
  next
    case False
    obtain nxt1 ds1 where
      p: "descendantsInPathParents E event (parents (E ! event)) nxt ds = (nxt1, ds1)"
      by (cases "descendantsInPathParents E event (parents (E ! event)) nxt ds") auto
    with Cons.prems False have
      r: "descendantsInPathLevel E am rest nxt1 ds1 = (nxt', ds')" by simp
    from Cons.IH [OF r] descendantsInPathParents_next [OF p] show ?thesis by auto
  qed
qed

lemma descendantsInPathLoop_returns:
  assumes "parentsFirst E"
  shows "\<forall>c \<in> set cur. c < k \<and> c < length E
   \<Longrightarrow> \<exists>ds'. descendantsInPathLoop E am cur ds = Some ds'"
proof (induction k arbitrary: cur ds)
  case 0
  then have "cur = []" by (cases cur) auto
  then show ?case by (simp add: descendantsInPathLoop.simps)
next
  case (Suc k)
  show ?case
  proof (cases cur)
    case Nil
    then show ?thesis by (simp add: descendantsInPathLoop.simps)
  next
    case (Cons c rest)
    obtain nxt1 ds1 where
      l: "descendantsInPathLevel E am cur [] ds = (nxt1, ds1)"
      by (cases "descendantsInPathLevel E am cur [] ds") auto
    have "\<forall>p \<in> set nxt1. p < k \<and> p < length E"
    proof
      fix p assume "p \<in> set nxt1"
      with descendantsInPathLevel_next [OF l] obtain c where
        c: "c \<in> set cur" "p \<in> set (parents (E ! c))" by auto
      with Suc.prems have "c < Suc k" "c < length E" by auto
      with parentsFirst_parent [OF assms this(2) c(2)] show "p < k \<and> p < length E" by simp
    qed
    from Suc.IH [OF this] obtain ds' where "descendantsInPathLoop E am nxt1 ds1 = Some ds'"
      by blast
    with Cons l show ?thesis by (subst descendantsInPathLoop.simps) simp
  qed
qed

lemma findDescendantsInPath_returns:
  "parentsFirst E \<Longrightarrow> y < length E \<Longrightarrow> \<exists>ds'. findDescendantsInPath E am y ds = Some ds'"
  unfolding findDescendantsInPath_def
  by (rule descendantsInPathLoop_returns [where k = "Suc y"]) simp_all

lemma endorsementsOfDescendants_returns:
  assumes "\<forall>e < length E. \<exists>c. c \<noteq> [] \<and> meta s e = Some c"
  shows "\<forall>e \<in> set d. e < length E
   \<Longrightarrow> \<exists>b en' tot'. endorsementsOfDescendants E electors sm d en tot s = ret (b, en', tot', s)"
proof (induction d arbitrary: en tot)
  case Nil
  then show ?case by auto
next
  case (Cons e d)
  with assms obtain c where "c \<noteq> []" "meta s e = Some c" by auto
  then have g: "getCreator E e s = ret (c, s)" by (simp add: getCreator_present)
  from Cons.prems have "\<forall>e \<in> set d. e < length E" by simp
  note IH = Cons.IH [OF this]
  show ?case using g IH [of en tot] IH [of "en @ [c]" "tot + 1"] by auto
qed

lemma endorsementsLevel_returns:
  assumes "\<forall>e < length E. \<exists>c. c \<noteq> [] \<and> meta s e = Some c"
    and "snapshot E events" "pathMap E y ds"
  shows "\<forall>c \<in> set cur. c < length E
   \<Longrightarrow> \<exists>b nxt' en' tot'.
         endorsementsLevel E electors sm ds cur nxt en tot s = ret (b, nxt', en', tot', s)
         \<and> set nxt' \<subseteq> set nxt \<union> (\<Union>c \<in> set cur. set (descendantsOf E ds c))"
proof (induction cur arbitrary: nxt en tot)
  case Nil
  then show ?case by auto
next
  case (Cons c rest)
  from Cons.prems have cv: "c < length E" and rv: "\<forall>c \<in> set rest. c < length E" by auto
  have "\<forall>e \<in> set (descendantsOf E ds c). e < length E"
    using descendantsOf_step [OF assms(2,3) cv] by blast
  from endorsementsOfDescendants_returns [OF assms(1) this] obtain b en1 tot1 where
    g: "endorsementsOfDescendants E electors sm (descendantsOf E ds c) en tot s
          = ret (b, en1, tot1, s)" by blast
  show ?case
  proof (cases b)
    case True
    with g show ?thesis by auto
  next
    case False
    from Cons.IH [OF rv, of "nxt @ descendantsOf E ds c" en1 tot1] obtain b' nxt' en' tot' where
      "endorsementsLevel E electors sm ds rest (nxt @ descendantsOf E ds c) en1 tot1 s
         = ret (b', nxt', en', tot', s)"
      "set nxt' \<subseteq> set (nxt @ descendantsOf E ds c)
                  \<union> (\<Union>c \<in> set rest. set (descendantsOf E ds c))" by blast
    with g False show ?thesis by auto
  qed
qed

lemma endorsementsLoop_returns:
  assumes "\<forall>e < length E. \<exists>c. c \<noteq> [] \<and> meta s e = Some c"
    and "snapshot E events" "parentsFirst E" "pathMap E y ds"
  shows "\<forall>c \<in> set cur. k \<le> c \<and> c < length E
   \<Longrightarrow> \<exists>b. endorsementsLoop E electors sm ds cur en tot s = ret (b, s)"
proof (induction "length E - k" arbitrary: k cur en tot)
  case 0
  then have "cur = []" by (cases cur) auto
  then show ?case by (auto simp: endorsementsLoop.simps)
next
  case (Suc d)
  show ?case
  proof (cases cur)
    case Nil
    then show ?thesis by (auto simp: endorsementsLoop.simps)
  next
    case (Cons c rest)
    from Suc.prems have cv: "\<forall>c \<in> set cur. c < length E" by simp
    from endorsementsLevel_returns [OF assms(1,2,4) cv, of electors sm "[]" en tot]
    obtain b nxt1 en1 tot1 where
      l: "endorsementsLevel E electors sm ds cur [] en tot s = ret (b, nxt1, en1, tot1, s)" and
      n: "set nxt1 \<subseteq> (\<Union>c \<in> set cur. set (descendantsOf E ds c))" by auto
    show ?thesis
    proof (cases b)
      case True
      with Cons l show ?thesis by (subst endorsementsLoop.simps) (auto simp: ret_def)
    next
      case False
      have n1: "\<forall>e \<in> set (uniq nxt1). Suc k \<le> e \<and> e < length E"
      proof
        fix e assume "e \<in> set (uniq nxt1)"
        with n obtain c where c: "c \<in> set cur" "e \<in> set (descendantsOf E ds c)" by auto
        with Suc.prems have ck: "k \<le> c" "c < length E" by auto
        from descendantsOf_step [OF assms(2,4) ck(2) c(2)] have
          e: "e < length E" "c \<in> set (parents (E ! e))" by (simp_all add: parentRel_def)
        from parentsFirst_parent [OF assms(3) e] ck(1) e(1)
        show "Suc k \<le> e \<and> e < length E" by simp
      qed
      have n2: "d = length E - Suc k" using Suc(2) by simp
      from Suc.hyps(1) [OF n2 n1] obtain b' where
        "endorsementsLoop E electors sm ds (uniq nxt1) en1 tot1 s = ret (b', s)" by blast
      with Cons l False show ?thesis by (subst endorsementsLoop.simps) (simp add: ret_def)
    qed
  qed
qed

lemma hasSufficientEndorsements_returns:
  assumes "\<forall>e < length E. \<exists>c. c \<noteq> [] \<and> meta s e = Some c"
    and "snapshot E events" "parentsFirst E" "pathMap E y ds" "x < length E"
  shows "\<exists>b. hasSufficientEndorsements E x ds electors sm s = ret (b, s)"
proof -
  from assms(1,5) obtain c where "c \<noteq> []" "meta s x = Some c" by auto
  then have g: "getCreator E x s = ret (c, s)" by (simp add: getCreator_present)
  have "\<exists>b. endorsementsLoop E electors sm ds [x] [c] 1 s = ret (b, s)"
    by (rule endorsementsLoop_returns [OF assms(1-4), where k = 0]) (use assms(5) in simp)
  with g show ?thesis by (simp add: hasSufficientEndorsements_def)
qed

lemma diversePedigreeLoop_returns:
  assumes "\<forall>e < length E. \<exists>c. c \<noteq> [] \<and> meta s e = Some c"
    and "snapshot E events" "parentsFirst E" "branchLinks E (treeChildren s)" "x < length E"
  shows "td < length E \<Longrightarrow> pathMap E td ds
   \<Longrightarrow> \<exists>r ds'. diversePedigreeLoop E electors sm am x td ds s = ret (r, ds', s)"
proof (induction "length E - td" arbitrary: td ds rule: less_induct)
  case less
  from findDescendantsInPath_returns [OF assms(3) less.prems(1)] obtain ds1 where
    f: "findDescendantsInPath E am td ds = Some ds1" by blast
  from findDescendantsInPath_pathMap [OF assms(2) f less.prems] have pm: "pathMap E td ds1" .
  from hasSufficientEndorsements_returns [OF assms(1-3) pm assms(5)] obtain b where
    h: "hasSufficientEndorsements E x ds1 electors sm s = ret (b, s)" by blast
  show ?case
  proof (cases "b \<or> (\<forall>c. treeChildren s td \<noteq> [c])")
    case True
    with f h show ?thesis
      by (subst diversePedigreeLoop.simps) (auto simp: ret_def split: list.splits)
  next
    case False
    then obtain c where c: "treeChildren s td = [c]" and nb: "\<not> b" by auto
    then have "c \<in> set (treeChildren s td)" by simp
    with assms(4) have l: "c < length E" "td \<in> set (parents (E ! c))"
      unfolding branchLinks_def by blast+
    from parentsFirst_parent [OF assms(3) l] have "td < c" .
    with l(1) have m: "length E - c < length E - td" by simp
    from l(2) have "(c, td) \<in> (parentRel E)\<^sup>*" by (auto simp: parentRel_def)
    with pm have "pathMap E c ds1" by (rule pathMap_later)
    from less.hyps [OF m l(1) this] obtain r ds' where
      "diversePedigreeLoop E electors sm am x c ds1 s = ret (r, ds', s)" by blast
    with f h c nb show ?thesis
      by (subst diversePedigreeLoop.simps) (simp add: ret_def)
  qed
qed

lemma findDiversePedigreeMergeEvent_returns:
  assumes "\<forall>e < length E. \<exists>c. c \<noteq> [] \<and> meta s e = Some c"
    and "snapshot E events" "parentsFirst E" "branchLinks E (treeChildren s)" "x < length E"
  shows "\<exists>r ds'. findDiversePedigreeMergeEvent E x electors sm [] am s = ret (r, ds', s)"
proof (cases "sm = 1 \<or> (\<forall>c. treeChildren s x \<noteq> [c])")
  case True
  then show ?thesis
    by (auto simp: findDiversePedigreeMergeEvent_def split: list.splits)
next
  case False
  then obtain c where c: "treeChildren s x = [c]" and sm: "sm \<noteq> 1" by auto
  then have "c \<in> set (treeChildren s x)" by simp
  with assms(4) have "c < length E" unfolding branchLinks_def by blast
  from diversePedigreeLoop_returns [OF assms this pathMap_empty] c sm show ?thesis
    by (simp add: findDiversePedigreeMergeEvent_def)
qed

lemma findYs_returns:
  assumes "snapshot E events" "parentsFirst E"
  shows "\<forall>e < length E. \<exists>c. c \<noteq> [] \<and> meta s e = Some c
   \<Longrightarrow> branchLinks E (treeChildren s)
   \<Longrightarrow> \<forall>el \<in> set keys. \<exists>x. map_of xBy el = Some x \<and> x < length E \<and> initDescendants s x \<noteq> None
   \<Longrightarrow> \<exists>yBy' s'. findYs E electors sm xBy keys yBy s = ret (yBy', s')"
proof (induction keys arbitrary: yBy s)
  case Nil
  then show ?case by simp
next
  case (Cons el rest)
  from Cons.prems(3) obtain x d where
    x: "map_of xBy el = Some x" "x < length E" "initDescendants s x = Some d" by auto
  from findDiversePedigreeMergeEvent_returns [OF Cons.prems(1) assms Cons.prems(2) x(2)]
  obtain r ds where
    f: "findDiversePedigreeMergeEvent E x electors sm [] (map fst d) s = ret (r, ds, s)"
    by blast
  have k0: "\<forall>el \<in> set rest. \<exists>x. map_of xBy el = Some x \<and> x < length E
             \<and> initDescendants s x \<noteq> None"
    using Cons.prems(3) by simp
  show ?case
  proof (cases r)
    case None
    with x f Cons.IH [OF Cons.prems(1,2) k0, of yBy] show ?thesis by simp
  next
    case (Some y)
    let ?s2 = "s\<lparr>xDescendants := (xDescendants s)(y := Some ds)\<rparr>"
    have k: "\<forall>el \<in> set rest. \<exists>x. map_of xBy el = Some x \<and> x < length E
               \<and> initDescendants ?s2 x \<noteq> None"
      using Cons.prems(3) by simp
    have m: "\<forall>e < length E. \<exists>c. c \<noteq> [] \<and> meta ?s2 e = Some c"
      using Cons.prems(1) by simp
    have b: "branchLinks E (treeChildren ?s2)"
      using Cons.prems(2) by simp
    from Some x f Cons.IH [OF m b k, of "AList.update el y yBy"] show ?thesis by simp
  qed
qed

lemma candidates_returns:
  assumes "snapshot E events" "parentsFirst E"
  shows "\<exists>tails s1 c s2.
           getElectorBranches E events electors (initState E) = ret (tails, s1)
         \<and> findMergeEventProofCandidates E tails electors s1 = ret (c, s2)"
proof -
  from getElectorBranches_returns [OF assms] obtain tails s1 where
    b: "getElectorBranches E events electors (initState E) = ret (tails, s1)" by blast
  note L = getElectorBranches_links [OF assms(1) b [unfolded ret_def]]
  from metaKept_known [OF getElectorBranches_metaKept [OF b [unfolded ret_def]] assms(1)] have
    k: "\<forall>e < length E. \<exists>c. c \<noteq> [] \<and> meta s1 e = Some c" by blast
  let ?sm = "twoThirdsMajority (length electors)"
  from findXs_returns [of "map fst tails" tails E "[]" s1] obtain xBy s1' where
    x: "findXs E tails (map fst tails) [] s1 = ret (xBy, s1')" by auto
  from findXs_frame [OF x [unfolded ret_def]] have
    f: "meta s1' = meta s1" "treeChildren s1' = treeChildren s1"
    by (cases s1, cases s1', simp)+
  have "\<forall>el \<in> set (map fst xBy). \<exists>x. map_of xBy el = Some x \<and> x < length E
          \<and> initDescendants s1' x \<noteq> None"
  proof
    fix el assume "el \<in> set (map fst xBy)"
    then obtain x where m: "map_of xBy el = Some x"
      by (cases "map_of xBy el") (auto simp: map_of_eq_None_iff)
    with findXs_map [OF x [unfolded ret_def], of el] have
      t: "el \<in> set (map fst tails)" "map_of tails el = Some [x]" by (auto split: if_splits)
    with L(2) have "x < length E" by fastforce
    moreover from findXs_init [OF x [unfolded ret_def], of x] t have
      "initDescendants s1' x \<noteq> None" by auto
    ultimately show "\<exists>x. map_of xBy el = Some x \<and> x < length E
          \<and> initDescendants s1' x \<noteq> None" using m by blast
  qed
  from findYs_returns [OF assms _ _ this, of electors ?sm "[]"] k f L(1) obtain yBy s2 where
    "findYs E electors ?sm xBy (map fst xBy) [] s1' = ret (yBy, s2)" by auto
  with x have "\<exists>c s2. findMergeEventProofCandidates E tails electors s1 = ret (c, s2)"
    by (simp add: findMergeEventProofCandidates_def Let_def)
  with b show ?thesis by blast
qed

subsection \<open>Early returns\<close>

lemma phases_return:
  assumes "snapshot E events \<and> parentsFirst E"
  shows "\<exists>tails s1 xBy s1' c s2.
           getElectorBranches E events electors (initState E) = ret (tails, s1)
         \<and> findXs E tails (map fst tails) [] s1 = ret (xBy, s1')
         \<and> findMergeEventProofCandidates E tails electors s1 = ret (c, s2)"
proof -
  from assms candidates_returns [of E events electors] obtain tails s1 c s2 where
    a: "getElectorBranches E events electors (initState E) = ret (tails, s1)"
       "findMergeEventProofCandidates E tails electors s1 = ret (c, s2)" by blast
  from findXs_returns [of "map fst tails" tails E "[]" s1] obtain xBy s1' where
    "findXs E tails (map fst tails) [] s1 = ret (xBy, s1')" by auto
  with a show ?thesis by blast
qed

lemma early_returns:
  "(getElectorBranches E events electors (initState E) = ret (tails, s1)
      \<and> length (map fst tails) < twoThirdsMajority (length electors)
      \<longrightarrow> findConsensus E events electors = ret None)
   \<and> (getElectorBranches E events electors (initState E) = ret (tails, s1)
      \<and> findXs E tails (map fst tails) [] s1 = ret (xByElector, s2)
      \<and> length (map fst xByElector) < twoThirdsMajority (length electors)
      \<longrightarrow> findConsensus E events electors = ret None)
   \<and> (getElectorBranches E events electors (initState E) = ret (tails, s1)
      \<and> findMergeEventProofCandidates E tails electors s1
           = ret (Some (yByElector, xByElector), s2)
      \<and> length (map fst yByElector) < twoThirdsMajority (length electors)
      \<longrightarrow> findConsensus E events electors = ret None)"
  by (auto simp: findConsensus_def findMergeEventProof_def findMergeEventProofCandidates_def
        Let_def)

lemma T2_parentsFirst: "parentsFirst T2"
  by (simp add: parentsFirst_def T2_def merge_def)

text \<open>
  C5.  On a snapshot, numbered parents first, \<^verbatim>\<open>_getElectorBranches\<close>, the X loop and
  \<^verbatim>\<open>_findMergeEventProofCandidates\<close> return.  Whenever they return, \<^verbatim>\<open>findConsensus\<close>
  returns \<^verbatim>\<open>null\<close> if fewer electors than the supermajority
  \<open>s = twoThirdsMajority (length electors)\<close> have tails after \<^verbatim>\<open>_getElectorBranches\<close>,
  if fewer than \<open>s\<close> electors get an X, and if fewer than \<open>s\<close> electors get a Y.
\<close>

theorem C5_no_supermajority:
  "(snapshot E events \<and> parentsFirst E \<longrightarrow>
      (\<exists>tails s1 xBy s1' c s2.
           getElectorBranches E events electors (initState E) = ret (tails, s1)
         \<and> findXs E tails (map fst tails) [] s1 = ret (xBy, s1')
         \<and> findMergeEventProofCandidates E tails electors s1 = ret (c, s2)))
   \<and> (getElectorBranches E events electors (initState E) = ret (tails, s1)
      \<and> length (map fst tails) < twoThirdsMajority (length electors)
      \<longrightarrow> findConsensus E events electors = ret None)
   \<and> (getElectorBranches E events electors (initState E) = ret (tails, s1)
      \<and> findXs E tails (map fst tails) [] s1 = ret (xByElector, s2)
      \<and> length (map fst xByElector) < twoThirdsMajority (length electors)
      \<longrightarrow> findConsensus E events electors = ret None)
   \<and> (getElectorBranches E events electors (initState E) = ret (tails, s1)
      \<and> findMergeEventProofCandidates E tails electors s1
           = ret (Some (yByElector, xByElector), s2)
      \<and> length (map fst yByElector) < twoThirdsMajority (length electors)
      \<longrightarrow> findConsensus E events electors = ret None)"
proof (rule conjI)
  show "snapshot E events \<and> parentsFirst E \<longrightarrow>
      (\<exists>tails s1 xBy s1' c s2.
           getElectorBranches E events electors (initState E) = ret (tails, s1)
         \<and> findXs E tails (map fst tails) [] s1 = ret (xBy, s1')
         \<and> findMergeEventProofCandidates E tails electors s1 = ret (c, s2))"
    using phases_return [of E events electors] by blast
qed (rule early_returns)

theorem C5_witness:
  "snapshot T2 [0, 1, 2, 3, 4, 5, 6, 7, 8, 9, 10, 11] \<and> parentsFirst T2
   \<and> (\<exists>tails s1 xBy s1' c s2.
         getElectorBranches T2 [0, 1, 2, 3, 4, 5, 6, 7, 8, 9, 10, 11] [''A'', ''C''] (initState T2)
           = ret (tails, s1)
       \<and> findXs T2 tails (map fst tails) [] s1 = ret (xBy, s1')
       \<and> findMergeEventProofCandidates T2 tails [''A'', ''C''] s1 = ret (c, s2))
   \<and> (\<exists>s. getElectorBranches W1 [0] [''A'', ''B''] (initState W1) = ret ([(''A'', [0])], s))
   \<and> length (map fst [(''A'', [0::nat])]) < twoThirdsMajority (length [''A'', ''B''])
   \<and> findConsensus W1 [0] [''A'', ''B''] = ret None
   \<and> (\<exists>s s'. getElectorBranches W3 [0, 1, 2] [''A'', ''B''] (initState W3)
                 = ret ([(''A'', [0]), (''B'', [1, 2])], s)
          \<and> findXs W3 [(''A'', [0]), (''B'', [1, 2])] (map fst [(''A'', [0::nat]), (''B'', [1, 2])])
               [] s = ret ([(''A'', 0)], s'))
   \<and> length (map fst [(''A'', 0::nat)]) < twoThirdsMajority (length [''A'', ''B''])
   \<and> findConsensus W3 [0, 1, 2] [''A'', ''B''] = ret None
   \<and> (\<exists>s s'. getElectorBranches W4 [0, 1, 2, 3, 4] [''A'', ''B'', ''C'', ''D''] (initState W4)
                 = ret ([(''A'', [0]), (''B'', [1]), (''C'', [2]), (''D'', [3, 4])], s)
          \<and> findMergeEventProofCandidates W4
               [(''A'', [0]), (''B'', [1]), (''C'', [2]), (''D'', [3, 4])]
               [''A'', ''B'', ''C'', ''D''] s
             = ret (Some ([], [(''A'', 0), (''B'', 1), (''C'', 2)]), s'))
   \<and> length (map fst ([] :: byElector)) < twoThirdsMajority (length [''A'', ''B'', ''C'', ''D''])
   \<and> findConsensus W4 [0, 1, 2, 3, 4] [''A'', ''B'', ''C'', ''D''] = ret None"
proof -
  have n2: "length (map fst [(''A'', [0::nat])]) < twoThirdsMajority (length [''A'', ''B''])"
    and n2': "length (map fst [(''A'', 0::nat)]) < twoThirdsMajority (length [''A'', ''B''])"
    and n4: "length (map fst ([] :: byElector))
               < twoThirdsMajority (length [''A'', ''B'', ''C'', ''D''])"
    by (simp_all add: twoThirdsMajority_def)
  have "\<exists>s. getElectorBranches W1 [0] [''A'', ''B''] (initState W1) = ret ([(''A'', [0])], s)"
    by (simp add: W1_def eval_defs eval_loops)
  then obtain sa where
    a: "getElectorBranches W1 [0] [''A'', ''B''] (initState W1) = ret ([(''A'', [0])], sa)" ..
  from C5_no_supermajority [of W1 "[0]" "[''A'', ''B'']" "[(''A'', [0])]" sa] a n2
  have ra: "findConsensus W1 [0] [''A'', ''B''] = ret None" by blast
  have "\<exists>s. getElectorBranches W3 [0, 1, 2] [''A'', ''B''] (initState W3)
                 = ret ([(''A'', [0]), (''B'', [1, 2])], s)"
    by (simp add: W3_def eval_defs eval_loops)
  then obtain sb where
    b: "getElectorBranches W3 [0, 1, 2] [''A'', ''B''] (initState W3)
          = ret ([(''A'', [0]), (''B'', [1, 2])], sb)" ..
  have "\<exists>s'. findXs W3 [(''A'', [0]), (''B'', [1, 2])]
                (map fst [(''A'', [0::nat]), (''B'', [1, 2])]) [] sb = ret ([(''A'', 0)], s')"
    by (simp add: ret_def)
  then obtain sb' where
    bx: "findXs W3 [(''A'', [0]), (''B'', [1, 2])]
           (map fst [(''A'', [0::nat]), (''B'', [1, 2])]) [] sb = ret ([(''A'', 0)], sb')" ..
  from C5_no_supermajority [of W3 "[0, 1, 2]" "[''A'', ''B'']" "[(''A'', [0]), (''B'', [1, 2])]"
      sb "[(''A'', 0)]" sb'] b bx n2'
  have rb: "findConsensus W3 [0, 1, 2] [''A'', ''B''] = ret None" by blast
  let ?t = "[(''A'', [0]), (''B'', [1]), (''C'', [2]), (''D'', [3, 4])]"
  let ?els = "[''A'', ''B'', ''C'', ''D'']"
  from W4_branches obtain sc where
    c: "getElectorBranches W4 [0, 1, 2, 3, 4] ?els (initState W4) = ret (?t, sc)" ..
  from W4_candidates [OF c] obtain sc' where
    cc: "findMergeEventProofCandidates W4 ?t ?els sc
          = ret (Some ([], [(''A'', 0), (''B'', 1), (''C'', 2)]), sc')" ..
  note w = C5_no_supermajority [of W4 "[0, 1, 2, 3, 4]" ?els ?t sc
      "[(''A'', 0), (''B'', 1), (''C'', 2)]" sc' "[]"]
  from w c cc n4 have rc: "findConsensus W4 [0, 1, 2, 3, 4] ?els = ret None" by blast
  from C5_no_supermajority [of T2 "[0, 1, 2, 3, 4, 5, 6, 7, 8, 9, 10, 11]" "[''A'', ''C'']"]
    T2_snapshot T2_parentsFirst have
    t: "\<exists>tails s1 xBy s1' c s2.
         getElectorBranches T2 [0, 1, 2, 3, 4, 5, 6, 7, 8, 9, 10, 11] [''A'', ''C''] (initState T2)
           = ret (tails, s1)
       \<and> findXs T2 tails (map fst tails) [] s1 = ret (xBy, s1')
       \<and> findMergeEventProofCandidates T2 tails [''A'', ''C''] s1 = ret (c, s2)" by blast
  from T2_snapshot T2_parentsFirst t a n2 ra b bx n2' rb c cc n4 rc show ?thesis by blast
qed

subsection \<open>The run of the proof protocol\<close>








lemma restOfLoop_throw:
  "tallyEvent E yBy electors event s = throw
   \<Longrightarrow> restOfLoop E yBy electors (event # rest, nxt, s) = throw"
  by (simp add: restOfLoop_def throw_def)











lemma branchesInit_parts:
  assumes "branchesInit E events electors = ret (yBy, s2)"
  shows "\<exists>tails s1 xBy s1' maps0 maps s1''.
           getElectorBranches E events electors (initState E) = ret (tails, s1)
         \<and> findMergeEventProofCandidates E tails electors s1 = ret (Some (yBy, xBy), s1')
         \<and> buildAncestryMaps E (map snd yBy) [] = Some maps0
         \<and> extendAncestryMaps E xBy (map snd yBy) maps0 s1' = ret (maps, s1'')
         \<and> initYVotes E (map snd yBy) maps (map snd yBy) s1'' = ret s2"
  using assms unfolding branchesInit_def Let_def
  by (auto simp: bindr_eq_Inr ret_def throw_def liftO_def split: option.splits)





text \<open>A round that changes neither the list of events nor the state repeats for ever.\<close>

lemma tallyLoop_repeats:
  assumes "tallyCurrent E yBy electors current [] s = ret (None, current, s)" and "current \<noteq> []"
  shows "tallyLoop E yBy electors current s = None"
proof (rule ccontr)
  assume "tallyLoop E yBy electors current s \<noteq> None"
  then obtain res where r: "tallyLoop E yBy electors current s = Some res" by blast
  have "tallyLoop E' yBy' electors' current' s' = Some res'
        \<Longrightarrow> \<not> (E' = E \<and> yBy' = yBy \<and> electors' = electors \<and> current' = current \<and> s' = s)"
    for E' yBy' electors' current' s' res'
  proof (induction rule: tallyLoop.raw_induct [rotated -1, consumes 1])
    case (1 loop E' yBy' electors' current' s' res')
    show ?case
    proof
      assume a: "E' = E \<and> yBy' = yBy \<and> electors' = electors \<and> current' = current \<and> s' = s"
      with 1(2) assms have "loop E yBy electors current s = Some res'"
        by (cases current) (simp_all add: ret_def)
      from 1(1) [OF this] show False by simp
    qed
  qed
  from this [OF r] show False by simp
qed








subsection \<open>A run that does not return\<close>

lemmas eval_inner = setGenerations.simps ancestorHashesLoop.simps buildAncestryLoop.simps
  descendantsInPathLoop.simps flattenLoop.simps endorsementsLoop.simps diversePedigreeLoop.simps
  hasAncestorsLoop.simps mostRecentVotesLoop.simps

lemma H1_repeats:
  "\<exists>s2. branchesInit H1 [0, 1, 2, 3, 4, 7, 5, 6] [''A'', ''C''] = ret ([(''A'', 3), (''C'', 4)], s2)
      \<and> tallyBranches H1 [(''A'', 3), (''C'', 4)] [''A'', ''C''] s2 = None"
  apply (simp add: H1_def branchesInit_def eval_defs eval_inner)
  apply (subst tallyLoop.simps)
  apply (simp add: H1_def eval_defs eval_inner)
  apply (subst tallyLoop.simps)
  apply (simp add: H1_def eval_defs eval_inner)
  apply (rule tallyLoop_repeats)
   apply (simp add: H1_def eval_defs eval_inner)
  apply simp
  done

lemma branchesInit_no_return:
  assumes "branchesInit E events electors = ret (yBy, s2)" and "length electors \<noteq> 1"
    and "twoThirdsMajority (length electors) \<le> length yBy"
    and "tallyBranches E yBy electors s2 = None"
  shows "findConsensus E events electors = None"
proof -
  from branchesInit_parts [OF assms(1)] obtain tails s1 xBy s1' maps0 maps s1'' where
    b: "getElectorBranches E events electors (initState E) = ret (tails, s1)" and
    c: "findMergeEventProofCandidates E tails electors s1 = ret (Some (yBy, xBy), s1')" and
    m: "buildAncestryMaps E (map snd yBy) [] = Some maps0" and
    e: "extendAncestryMaps E xBy (map snd yBy) maps0 s1' = ret (maps, s1'')" and
    i: "initYVotes E (map snd yBy) maps (map snd yBy) s1'' = ret s2" by blast
  from m e i assms(2,4) have
    "findConsensusMergeEventProof E xBy yBy electors s1' = None"
    by (simp add: findConsensusMergeEventProof_def Let_def liftO_def ret_def bindr_def)
  with c assms(3) have "findMergeEventProof E tails electors s1 = None"
    by (simp add: findMergeEventProof_def Let_def bindr_def ret_def)
  with b show ?thesis by (simp add: findConsensus_def bindr_def ret_def)
qed

lemma H1_no_return: "findConsensus H1 [0, 1, 2, 3, 4, 7, 5, 6] [''A'', ''C''] = None"
proof -
  from H1_repeats obtain s2 where
    "branchesInit H1 [0, 1, 2, 3, 4, 7, 5, 6] [''A'', ''C''] = ret ([(''A'', 3), (''C'', 4)], s2)"
    "tallyBranches H1 [(''A'', 3), (''C'', 4)] [''A'', ''C''] s2 = None" by blast
  from branchesInit_no_return [OF this(1) _ _ this(2)] show ?thesis
    by (simp add: twoThirdsMajority_def)
qed





subsection \<open>Copies of a history\<close>

lemma nth_store [transfer_rule]: "(rel_fun (rel_store A) (rel_fun A (rel_event A))) nth nth"
  by (simp add: rel_fun_def rel_store_def)

lemma event_fields [transfer_rule]:
  "(rel_fun (rel_event A) (=)) eventHash eventHash"
  "(rel_fun (rel_event A) (=)) creator0 creator0"
  "(rel_fun (rel_event A) (=)) treeHash treeHash"
  "(rel_fun (rel_event A) (=)) parentHash parentHash"
  "(rel_fun (rel_event A) (list_all2 A)) parents parents"
  "(rel_fun (rel_event A) (list_all2 A)) children children"
  by (simp_all add: rel_fun_def rel_event_def)

lemma vote_transfer [transfer_rule]:
  "rel_vote A Byzantine Byzantine"
  "(rel_fun A (rel_vote A)) Voting Voting"
  "(rel_fun B (rel_fun (rel_fun A B) (rel_fun (rel_vote A) B))) case_vote case_vote"
  by (auto simp: rel_fun_def rel_vote_def split: vote.splits)

lemma step_transfer [transfer_rule]:
  "rel_step A Outstanding Outstanding"
  "(rel_fun (list_all2 A) (rel_step A)) Decided Decided"
  "rel_step A Continue Continue"
  "(rel_fun B (rel_fun (rel_fun (list_all2 A) B) (rel_fun B (rel_fun (rel_step A) B))))
    case_step case_step"
  by (auto simp: rel_fun_def rel_step_def split: step.splits)

lemma state_fields [transfer_rule]:
  "(rel_fun (rel_state A) (rel_fun A (=))) meta meta"
  "(rel_fun (rel_state A) (rel_fun A (rel_option A))) treeParent treeParent"
  "(rel_fun (rel_state A) (rel_fun A (list_all2 A))) treeChildren treeChildren"
  "(rel_fun (rel_state A) (rel_fun A (=))) generation generation"
  "(rel_fun (rel_state A) (rel_fun A (rel_option (rel_dmap A)))) initDescendants
    initDescendants"
  "(rel_fun (rel_state A) (rel_fun A (rel_option (rel_dmap A)))) xDescendants xDescendants"
  "(rel_fun (rel_state A) (rel_fun A (rel_option A))) yDescendants yDescendants"
  "(rel_fun (rel_state A) (rel_fun A (list_all2 (rel_prod (=) (rel_dmap A))))) yDescStore
    yDescStore"
  "(rel_fun (rel_state A) (rel_fun A (rel_option (list_all2 A)))) supporting supporting"
  "(rel_fun (rel_state A) (rel_fun A (rel_option (list_all2 (rel_prod (=) (rel_vote A))))))
    votes votes"
  "(rel_fun (rel_state A) (rel_fun A (rel_option A))) preCommit preCommit"
  "(rel_fun (rel_state A) (rel_fun A (rel_option A))) confirmPoint confirmPoint"
  "(rel_fun (rel_state A) (rel_fun A (rel_option A))) toConfirm toConfirm"
  "(rel_fun (rel_state A) (rel_fun A (rel_option A))) yOf yOf"
  by (simp_all add: rel_fun_def rel_state_def)

lemma state_updates [transfer_rule]:
  "(rel_fun (rel_fun (rel_fun A (=)) (rel_fun A (=))) (rel_fun (rel_state A) (rel_state A)))
    meta_update meta_update"
  "(rel_fun (rel_fun (rel_fun A (rel_option A)) (rel_fun A (rel_option A))) (rel_fun (rel_state
    A) (rel_state A)))
     treeParent_update treeParent_update"
  "(rel_fun (rel_fun (rel_fun A (list_all2 A)) (rel_fun A (list_all2 A))) (rel_fun (rel_state
    A) (rel_state A)))
     treeChildren_update treeChildren_update"
  "(rel_fun (rel_fun (rel_fun A (=)) (rel_fun A (=))) (rel_fun (rel_state A) (rel_state A)))
     generation_update generation_update"
  "(rel_fun (rel_fun (rel_fun A (rel_option (rel_dmap A))) (rel_fun A (rel_option (rel_dmap
    A)))) (rel_fun (rel_state A) (rel_state A))) initDescendants_update initDescendants_update"
  "(rel_fun (rel_fun (rel_fun A (rel_option (rel_dmap A))) (rel_fun A (rel_option (rel_dmap
    A)))) (rel_fun (rel_state A) (rel_state A))) xDescendants_update xDescendants_update"
  "(rel_fun (rel_fun (rel_fun A (rel_option A)) (rel_fun A (rel_option A))) (rel_fun (rel_state
    A) (rel_state A)))
     yDescendants_update yDescendants_update"
  "(rel_fun (rel_fun (rel_fun A (list_all2 (rel_prod (=) (rel_dmap A)))) (rel_fun A (list_all2
    (rel_prod (=) (rel_dmap A))))) (rel_fun (rel_state A) (rel_state A))) yDescStore_update
      yDescStore_update"
  "(rel_fun (rel_fun (rel_fun A (rel_option (list_all2 A))) (rel_fun A (rel_option (list_all2
    A)))) (rel_fun (rel_state A) (rel_state A))) supporting_update supporting_update"
  "(rel_fun (rel_fun (rel_fun A (rel_option (list_all2 (rel_prod (=) (rel_vote A))))) (rel_fun
    A (rel_option (list_all2 (rel_prod (=) (rel_vote A)))))) (rel_fun (rel_state A) (rel_state
      A))) votes_update votes_update"
  "(rel_fun (rel_fun (rel_fun A (rel_option A)) (rel_fun A (rel_option A))) (rel_fun (rel_state
    A) (rel_state A)))
     preCommit_update preCommit_update"
  "(rel_fun (rel_fun (rel_fun A (rel_option A)) (rel_fun A (rel_option A))) (rel_fun (rel_state
    A) (rel_state A)))
     confirmPoint_update confirmPoint_update"
  "(rel_fun (rel_fun (rel_fun A (rel_option A)) (rel_fun A (rel_option A))) (rel_fun (rel_state
    A) (rel_state A)))
     toConfirm_update toConfirm_update"
  "(rel_fun (rel_fun (rel_fun A (rel_option A)) (rel_fun A (rel_option A))) (rel_fun (rel_state
    A) (rel_state A)))
     yOf_update yOf_update"
  by (simp_all add: rel_fun_def rel_state_def)

lemma initState_transfer [transfer_rule]:
  "(rel_fun (rel_store A) (rel_state A)) initState initState"
  by (simp add: rel_fun_def rel_state_def initState_def rel_store_def rel_event_def)

lemma ret_transfer [transfer_rule]: "(rel_fun R (rel_res R)) ret ret"
  by (simp add: rel_fun_def ret_def)

lemma throw_transfer [transfer_rule]: "rel_res R throw throw"
  by (simp add: throw_def)

lemma bindr_transfer [transfer_rule]:
  "(rel_fun (rel_res R) (rel_fun (rel_fun R (rel_res S)) (rel_res S))) bindr bindr"
  unfolding bindr_def by transfer_prover

lemma liftO_transfer [transfer_rule]: "(rel_fun (rel_option R) (rel_res R)) liftO liftO"
  unfolding liftO_def by transfer_prover

lemma uniq_transfer [transfer_rule]:
  assumes [transfer_rule]: "bi_unique R"
  shows "(rel_fun (list_all2 R) (list_all2 R)) uniq uniq"
  unfolding uniq_def by transfer_prover

lemma setAdd_transfer [transfer_rule]:
  assumes [transfer_rule]: "bi_unique R"
  shows "(rel_fun R (rel_fun (list_all2 R) (list_all2 R))) setAdd setAdd"
  unfolding setAdd_def by transfer_prover

lemma map_of_transfer [transfer_rule]:
  "(rel_fun (list_all2 (rel_prod (=) R)) (rel_fun (=) (rel_option R))) map_of map_of"
proof (intro rel_funI)
  fix xs :: "('a \<times> 'b) list" and ys :: "('a \<times> 'c) list" and k k' :: 'a
  assume "list_all2 (rel_prod (=) R) xs ys" and "k = k'"
  then show "rel_option R (map_of xs k) (map_of ys k')"
    by (induction rule: list_all2_induct) auto
qed

lemma update_transfer [transfer_rule]:
  "(rel_fun (=) (rel_fun R (rel_fun (list_all2 (rel_prod (=) R)) (list_all2 (rel_prod (=) R)))))
     AList.update AList.update"
proof (intro rel_funI)
  fix xs :: "('a \<times> 'b) list" and ys :: "('a \<times> 'c) list" and k k' :: 'a and v v'
  assume "k = k'" and "R v v'" and "list_all2 (rel_prod (=) R) xs ys"
  from this(3,1,2) show "list_all2 (rel_prod (=) R) (AList.update k v xs) (AList.update k' v' ys)"
    by (induction rule: list_all2_induct) auto
qed

lemma getCreator_transfer [transfer_rule]:
  assumes [transfer_rule]: "bi_unique A"
  shows "(rel_fun (rel_store A) (rel_fun A (rel_fun (rel_state A) (rel_res (rel_prod (=)
    (rel_state A))))))
           getCreator getCreator"
  unfolding getCreator_def by transfer_prover

lemma findTreeParent_transfer [transfer_rule]:
  "(rel_fun (rel_store A) (rel_fun A (rel_option A))) findTreeParent findTreeParent"
  unfolding findTreeParent_def by transfer_prover

subsection \<open>One direction at a time\<close>

lemma rel_leD: "rel_le R m m' \<Longrightarrow> m = Some y \<Longrightarrow> \<exists>y'. m' = Some y' \<and> R y y'"
  by (simp add: rel_le_def)

lemma rel_le_both: "rel_le R m m' \<Longrightarrow> rel_le R\<inverse>\<inverse> m' m \<Longrightarrow> rel_option R m m'"
  by (cases m; cases m') (auto simp: rel_le_def)

lemma rel_le_rules:
  "rel_le R None None"
  "(rel_fun R (rel_le R)) Some Some"
  "(rel_fun R (rel_le (rel_sum (=) R))) ret ret"
  "rel_le (rel_sum (=) R) throw throw"
  by (auto simp: rel_le_def rel_fun_def ret_def throw_def)

lemma flips:
  "rel_prod (=) R\<inverse>\<inverse> = (rel_prod (=) R)\<inverse>\<inverse>"
  "rel_prod R\<inverse>\<inverse> (=) = (rel_prod R (=))\<inverse>\<inverse>"
  "rel_prod R\<inverse>\<inverse> S\<inverse>\<inverse> = (rel_prod R S)\<inverse>\<inverse>"
  "rel_sum (=) R\<inverse>\<inverse> = (rel_sum (=) R)\<inverse>\<inverse>"
  "rel_option R\<inverse>\<inverse> = (rel_option R)\<inverse>\<inverse>"
  "list_all2 R\<inverse>\<inverse> = (list_all2 R)\<inverse>\<inverse>"
  "rel_fun R\<inverse>\<inverse> S\<inverse>\<inverse> = (rel_fun R S)\<inverse>\<inverse>"
  "rel_fun R\<inverse>\<inverse> (=) = (rel_fun R (=))\<inverse>\<inverse>"
  by (auto simp: fun_eq_iff rel_fun_def list.rel_flip option.rel_flip
      elim!: rel_prod.cases rel_sum.cases intro!: rel_prod.intros)

lemma rel_vote_flip: "rel_vote A\<inverse>\<inverse> = (rel_vote A)\<inverse>\<inverse>"
  by (auto simp: fun_eq_iff rel_vote_def split: vote.splits)

lemma rel_step_flip: "rel_step A\<inverse>\<inverse> = (rel_step A)\<inverse>\<inverse>"
  by (auto simp: fun_eq_iff rel_step_def list.rel_flip split: step.splits)

lemma rel_state_flip: "rel_state A\<inverse>\<inverse> = (rel_state A)\<inverse>\<inverse>"
  by (simp add: fun_eq_iff rel_state_def flips rel_vote_flip)

lemma rel_event_flip: "rel_event A\<inverse>\<inverse> = (rel_event A)\<inverse>\<inverse>"
  by (auto simp: fun_eq_iff rel_event_def list.rel_flip)

lemma rel_store_flip: "rel_store A\<inverse>\<inverse> = (rel_store A)\<inverse>\<inverse>"
  by (auto simp: fun_eq_iff rel_store_def rel_event_flip)

lemma rel_proofEntry_flip: "rel_proofEntry A\<inverse>\<inverse> = (rel_proofEntry A)\<inverse>\<inverse>"
  by (auto simp: fun_eq_iff rel_proofEntry_def list.rel_flip)

lemmas flip = flips rel_vote_flip rel_step_flip rel_state_flip rel_store_flip
  rel_proofEntry_flip

lemma bi_unique_flip: "bi_unique A \<Longrightarrow> bi_unique A\<inverse>\<inverse>"
  by (simp add: bi_unique_conversep)

subsection \<open>\_getElectorBranches on a copy\<close>

lemma linkEvents_transfer [transfer_rule]:
  assumes [transfer_rule]: "bi_unique A"
  shows "(rel_fun (rel_store A) (rel_fun (=) (rel_fun (list_all2 A) (rel_fun (list_all2
    (rel_prod (=) (list_all2 A))) (rel_fun (rel_state A) (rel_res (rel_prod (list_all2
      (rel_prod (=) (list_all2 A))) (rel_state A))))))))
           linkEvents linkEvents"
proof (intro rel_funI)
  fix E E' and electors electors' :: "elector list" and evs evs' and t t' :: tails and s s'
  assume [transfer_rule]: "rel_store A E E'" "electors = electors'"
    and l: "list_all2 A evs evs'"
    and r: "list_all2 (rel_prod (=) (list_all2 A)) t t'" "rel_state A s s'"
  from l r show "rel_res (rel_prod (list_all2 (rel_prod (=) (list_all2 A))) (rel_state A))
          (linkEvents E electors evs t s) (linkEvents E' electors' evs' t' s')"
  proof (induction arbitrary: t t' s s' rule: list_all2_induct)
    case Nil
    note [transfer_rule] = Nil
    show ?case unfolding linkEvents.simps by transfer_prover
  next
    case (Cons e es e' es')
    define g where "g = linkEvents E electors es"
    define g' where "g' = linkEvents E' electors' es'"
    have [transfer_rule]: "(rel_fun (list_all2 (rel_prod (=) (list_all2 A))) (rel_fun
      (rel_state A) (rel_res (rel_prod (list_all2 (rel_prod (=) (list_all2 A))) (rel_state A))))) g g'"
      unfolding g_def g'_def by (intro rel_funI Cons.IH)
    note [transfer_rule] = Cons.hyps(1) Cons.prems
    show ?case unfolding linkEvents.simps g_def [symmetric] g'_def [symmetric]
      by transfer_prover
  qed
qed

lemma setGenerations_le:
  assumes [transfer_rule]: "bi_unique A"
  shows "setGenerations g current s = Some y \<Longrightarrow> list_all2 A current current'
         \<Longrightarrow> rel_state A s s'
         \<Longrightarrow> \<exists>y'. setGenerations g current' s' = Some y' \<and> rel_state A y y'"
proof (induction arbitrary: current' s' rule: setGenerations.raw_induct [rotated -1, consumes 1])
  case (1 lp g current s y)
  have [transfer_rule]: "(rel_fun (=) (rel_fun (list_all2 A) (rel_fun (rel_state A) (rel_le
    (rel_state A)))))
      lp setGenerations"
    unfolding rel_le_def by (intro rel_funI allI impI) (auto dest: 1(1))
  note [transfer_rule] = 1(3-) rel_le_rules
  show ?case
    apply (rule rel_leD [OF _ 1(2)])
    apply (subst setGenerations.simps)
    by transfer_prover
qed

lemma setGenerations_transfer [transfer_rule]:
  assumes "bi_unique A"
  shows "(rel_fun (=) (rel_fun (list_all2 A) (rel_fun (rel_state A) (rel_option (rel_state
    A)))))
           setGenerations setGenerations"
proof (intro rel_funI rel_le_both, unfold rel_le_def, safe)
  fix g current current' s s' y
  assume "list_all2 A current current'" "rel_state A s s'"
  {
    assume "setGenerations g current s = Some y"
    from setGenerations_le [OF assms this] \<open>list_all2 A current current'\<close> \<open>rel_state A s s'\<close>
    show "\<exists>y'. setGenerations g current' s' = Some y' \<and> rel_state A y y'" by blast
  }
  assume "setGenerations g current' s' = Some y"
  from setGenerations_le [OF bi_unique_flip [OF assms] this, of current s]
    \<open>list_all2 A current current'\<close> \<open>rel_state A s s'\<close>
  show "\<exists>y'. setGenerations g current s = Some y' \<and> (rel_state A)\<inverse>\<inverse> y y'"
    by (simp add: flip)
qed

lemma setAllGenerations_Cons:
  "setAllGenerations (p # rest) s =
     (case setGenerations 1 (snd p) s of None \<Rightarrow> None | Some s' \<Rightarrow> setAllGenerations rest s')"
  by (cases p) simp

lemma setAllGenerations_transfer [transfer_rule]:
  assumes [transfer_rule]: "bi_unique A"
  shows "(rel_fun (list_all2 (rel_prod (=) (list_all2 A))) (rel_fun (rel_state A) (rel_option
    (rel_state A))))
           setAllGenerations setAllGenerations"
proof (intro rel_funI, goal_cases)
  case (1 a0 b0 a1 b1)
  from 1(1) 1(2) show ?case
  proof (induction arbitrary: a1 b1 rule: list_all2_induct)
    case Nil
    note [transfer_rule] = Nil
    show ?case unfolding setAllGenerations.simps(1) setAllGenerations_Cons by transfer_prover
  next
    case (Cons x xs y ys)
    define g where "g = setAllGenerations xs"
    define g' where "g' = setAllGenerations ys"
    have [transfer_rule]: "(rel_fun (rel_state A) (rel_option (rel_state A))) g g'"
      unfolding g_def g'_def by (intro rel_funI Cons.IH)
    note [transfer_rule] = Cons.hyps(1) Cons.prems
    show ?case unfolding setAllGenerations.simps(1) setAllGenerations_Cons g_def [symmetric] g'_def [symmetric]
      by transfer_prover
  qed
qed

lemma getElectorBranches_transfer [transfer_rule]:
  assumes [transfer_rule]: "bi_unique A"
  shows "(rel_fun (rel_store A) (rel_fun (list_all2 A) (rel_fun (=) (rel_fun (rel_state A)
    (rel_option (rel_sum (=) (rel_prod (list_all2 (rel_prod (=) (list_all2 A))) (rel_state A))))))))
           getElectorBranches getElectorBranches"
  unfolding getElectorBranches_def by transfer_prover

subsection \<open>\_getAncestorHashes and the graph utilities on a copy\<close>

lemma ancestorHashesLevel_transfer [transfer_rule]:
  assumes [transfer_rule]: "bi_unique A"
  shows "(rel_fun (rel_store A) (rel_fun (list_all2 A) (rel_fun (list_all2 A) (rel_fun (=)
    (rel_fun (list_all2 A) (rel_prod (list_all2 A) (rel_prod ((=)) (list_all2 A))))))))
           ancestorHashesLevel ancestorHashesLevel"
proof (intro rel_funI, goal_cases)
  case (1 a0 b0 a1 b1 a2 b2 a3 b3 a4 b4)
  note [transfer_rule] = 1(1)
  from 1(2) 1(3) 1(4) 1(5) show ?case
  proof (induction arbitrary: a2 b2 a3 b3 a4 b4 rule: list_all2_induct)
    case Nil
    note [transfer_rule] = Nil
    show ?case unfolding ancestorHashesLevel.simps by transfer_prover
  next
    case (Cons x xs y ys)
    define g where "g = ancestorHashesLevel a0 xs"
    define g' where "g' = ancestorHashesLevel b0 ys"
    have [transfer_rule]: "(rel_fun (list_all2 A) (rel_fun (=) (rel_fun (list_all2 A) (rel_prod
      (list_all2 A) (rel_prod ((=)) (list_all2 A)))))) g g'"
      unfolding g_def g'_def by (intro rel_funI Cons.IH)
    note [transfer_rule] = Cons.hyps(1) Cons.prems
    show ?case unfolding ancestorHashesLevel.simps g_def [symmetric] g'_def [symmetric]
      by transfer_prover
  qed
qed

lemma ancestorHashesLoop_le:
  assumes [transfer_rule]: "bi_unique A"
  shows "ancestorHashesLoop a0 a1 a2 a3 = Some y
         \<Longrightarrow> (rel_store A) a0 b0 \<Longrightarrow>
           (list_all2 A) a1 b1 \<Longrightarrow>
           a2 = b2 \<Longrightarrow>
           (list_all2 A) a3 b3
         \<Longrightarrow> \<exists>y'. ancestorHashesLoop b0 b1 b2 b3 = Some y' \<and> (rel_prod ((=)) (list_all2 A)) y y'"
proof (induction arbitrary: b0 b1 b2 b3 rule: ancestorHashesLoop.raw_induct [rotated -1, consumes 1])
  case (1 lp a0 a1 a2 a3 y)
  have [transfer_rule]: "(rel_fun (rel_store A) (rel_fun (list_all2 A) (rel_fun (=) (rel_fun
    (list_all2 A) (rel_le (rel_prod ((=)) (list_all2 A)))))))
      lp ancestorHashesLoop"
    unfolding rel_le_def by (intro rel_funI allI impI) (rule 1(1))
  note [transfer_rule] = 1(3-) rel_le_rules
  show ?case
    apply (rule rel_leD [OF _ 1(2)])
    apply (subst ancestorHashesLoop.simps)
    by transfer_prover
qed

lemma ancestorHashesLoop_transfer [transfer_rule]:
  assumes "bi_unique A"
  shows "(rel_fun (rel_store A) (rel_fun (list_all2 A) (rel_fun (=) (rel_fun (list_all2 A)
    (rel_option (rel_prod ((=)) (list_all2 A)))))))
           ancestorHashesLoop ancestorHashesLoop"
proof ((intro rel_funI rel_le_both; unfold rel_le_def; intro allI impI), goal_cases)
  case (1 a0 b0 a1 b1 a2 b2 a3 b3 y)
  show ?case by (rule ancestorHashesLoop_le [OF assms 1(5) 1(1-4)])
next
  case (2 a0 b0 a1 b1 a2 b2 a3 b3 y)
  have "\<exists>y'. ancestorHashesLoop a0 a1 a2 a3 = Some y' \<and> (rel_prod ((=)) (list_all2 A\<inverse>\<inverse>)) y y'"
    by (rule ancestorHashesLoop_le [OF bi_unique_flip [OF assms] 2(5)]) (simp_all add: flip 2)
  then show ?case by (simp add: flip)
qed

lemma ancestorHashesAll_transfer [transfer_rule]:
  assumes [transfer_rule]: "bi_unique A"
  shows "(rel_fun (rel_store A) (rel_fun (list_all2 A) (rel_fun (=) (rel_fun (list_all2 A)
    (rel_option (rel_prod ((=)) (list_all2 A)))))))
           ancestorHashesAll ancestorHashesAll"
proof (intro rel_funI, goal_cases)
  case (1 a0 b0 a1 b1 a2 b2 a3 b3)
  note [transfer_rule] = 1(1)
  from 1(2) 1(3) 1(4) show ?case
  proof (induction arbitrary: a2 b2 a3 b3 rule: list_all2_induct)
    case Nil
    note [transfer_rule] = Nil
    show ?case unfolding ancestorHashesAll.simps by transfer_prover
  next
    case (Cons x xs y ys)
    define g where "g = ancestorHashesAll a0 xs"
    define g' where "g' = ancestorHashesAll b0 ys"
    have [transfer_rule]: "(rel_fun (=) (rel_fun (list_all2 A) (rel_option (rel_prod ((=))
      (list_all2 A))))) g g'"
      unfolding g_def g'_def by (intro rel_funI Cons.IH)
    note [transfer_rule] = Cons.hyps(1) Cons.prems
    show ?case unfolding ancestorHashesAll.simps g_def [symmetric] g'_def [symmetric]
      by transfer_prover
  qed
qed

lemma getAncestorHashes_transfer [transfer_rule]:
  assumes [transfer_rule]: "bi_unique A"
  shows "(rel_fun (rel_store A) (rel_fun (list_all2 A) (rel_option ((=)))))
           getAncestorHashes getAncestorHashes"
  unfolding getAncestorHashes_def by transfer_prover

lemma buildAncestryLevel_transfer [transfer_rule]:
  assumes [transfer_rule]: "bi_unique A"
  shows "(rel_fun (rel_store A) (rel_fun (list_all2 A) (rel_fun (list_all2 A) (rel_fun (=)
    (rel_prod (list_all2 A) ((=)))))))
           buildAncestryLevel buildAncestryLevel"
proof (intro rel_funI, goal_cases)
  case (1 a0 b0 a1 b1 a2 b2 a3 b3)
  note [transfer_rule] = 1(1)
  from 1(2) 1(3) 1(4) show ?case
  proof (induction arbitrary: a2 b2 a3 b3 rule: list_all2_induct)
    case Nil
    note [transfer_rule] = Nil
    show ?case unfolding buildAncestryLevel.simps by transfer_prover
  next
    case (Cons x xs y ys)
    define g where "g = buildAncestryLevel a0 xs"
    define g' where "g' = buildAncestryLevel b0 ys"
    have [transfer_rule]: "(rel_fun (list_all2 A) (rel_fun (=) (rel_prod (list_all2 A) ((=)))))
      g g'"
      unfolding g_def g'_def by (intro rel_funI Cons.IH)
    note [transfer_rule] = Cons.hyps(1) Cons.prems
    show ?case unfolding buildAncestryLevel.simps g_def [symmetric] g'_def [symmetric]
      by transfer_prover
  qed
qed

lemma buildAncestryLoop_le:
  assumes [transfer_rule]: "bi_unique A"
  shows "buildAncestryLoop a0 a1 a2 = Some y
         \<Longrightarrow> (rel_store A) a0 b0 \<Longrightarrow>
           (list_all2 A) a1 b1 \<Longrightarrow>
           a2 = b2
         \<Longrightarrow> \<exists>y'. buildAncestryLoop b0 b1 b2 = Some y' \<and> ((=)) y y'"
proof (induction arbitrary: b0 b1 b2 rule: buildAncestryLoop.raw_induct [rotated -1, consumes 1])
  case (1 lp a0 a1 a2 y)
  have [transfer_rule]: "(rel_fun (rel_store A) (rel_fun (list_all2 A) (rel_fun (=) (rel_le
    ((=))))))
      lp buildAncestryLoop"
    unfolding rel_le_def by (intro rel_funI allI impI) (rule 1(1))
  note [transfer_rule] = 1(3-) rel_le_rules
  show ?case
    apply (rule rel_leD [OF _ 1(2)])
    apply (subst buildAncestryLoop.simps)
    by transfer_prover
qed

lemma buildAncestryLoop_transfer [transfer_rule]:
  assumes "bi_unique A"
  shows "(rel_fun (rel_store A) (rel_fun (list_all2 A) (rel_fun (=) (rel_option ((=))))))
           buildAncestryLoop buildAncestryLoop"
proof ((intro rel_funI rel_le_both; unfold rel_le_def; intro allI impI), goal_cases)
  case (1 a0 b0 a1 b1 a2 b2 y)
  show ?case by (rule buildAncestryLoop_le [OF assms 1(4) 1(1-3)])
next
  case (2 a0 b0 a1 b1 a2 b2 y)
  have "\<exists>y'. buildAncestryLoop a0 a1 a2 = Some y' \<and> ((=)) y y'"
    by (rule buildAncestryLoop_le [OF bi_unique_flip [OF assms] 2(4)]) (simp_all add: flip 2)
  then show ?case by (simp add: flip)
qed

lemma buildAncestryMap_transfer [transfer_rule]:
  assumes [transfer_rule]: "bi_unique A"
  shows "(rel_fun (rel_store A) (rel_fun A (rel_option ((=)))))
           buildAncestryMap buildAncestryMap"
  unfolding buildAncestryMap_def by transfer_prover

lemma descendantsInPathParents_transfer [transfer_rule]:
  assumes [transfer_rule]: "bi_unique A"
  shows "(rel_fun (rel_store A) (rel_fun A (rel_fun (list_all2 A) (rel_fun (list_all2 A)
    (rel_fun (list_all2 (rel_prod (=) (list_all2 A))) (rel_prod (list_all2 A) (list_all2
      (rel_prod (=) (list_all2 A)))))))))
           descendantsInPathParents descendantsInPathParents"
proof (intro rel_funI, goal_cases)
  case (1 a0 b0 a1 b1 a2 b2 a3 b3 a4 b4)
  note [transfer_rule] = 1(1) 1(2)
  from 1(3) 1(4) 1(5) show ?case
  proof (induction arbitrary: a3 b3 a4 b4 rule: list_all2_induct)
    case Nil
    note [transfer_rule] = Nil
    show ?case unfolding descendantsInPathParents.simps by transfer_prover
  next
    case (Cons x xs y ys)
    define g where "g = descendantsInPathParents a0 a1 xs"
    define g' where "g' = descendantsInPathParents b0 b1 ys"
    have [transfer_rule]: "(rel_fun (list_all2 A) (rel_fun (list_all2 (rel_prod (=) (list_all2
      A))) (rel_prod (list_all2 A) (list_all2 (rel_prod (=) (list_all2 A)))))) g g'"
      unfolding g_def g'_def by (intro rel_funI Cons.IH)
    note [transfer_rule] = Cons.hyps(1) Cons.prems
    show ?case unfolding descendantsInPathParents.simps g_def [symmetric] g'_def [symmetric]
      by transfer_prover
  qed
qed

lemma descendantsInPathLevel_transfer [transfer_rule]:
  assumes [transfer_rule]: "bi_unique A"
  shows "(rel_fun (rel_store A) (rel_fun (=) (rel_fun (list_all2 A) (rel_fun (list_all2 A)
    (rel_fun (list_all2 (rel_prod (=) (list_all2 A))) (rel_prod (list_all2 A) (list_all2
      (rel_prod (=) (list_all2 A)))))))))
           descendantsInPathLevel descendantsInPathLevel"
proof (intro rel_funI, goal_cases)
  case (1 a0 b0 a1 b1 a2 b2 a3 b3 a4 b4)
  note [transfer_rule] = 1(1) 1(2)
  from 1(3) 1(4) 1(5) show ?case
  proof (induction arbitrary: a3 b3 a4 b4 rule: list_all2_induct)
    case Nil
    note [transfer_rule] = Nil
    show ?case unfolding descendantsInPathLevel.simps by transfer_prover
  next
    case (Cons x xs y ys)
    define g where "g = descendantsInPathLevel a0 a1 xs"
    define g' where "g' = descendantsInPathLevel b0 b1 ys"
    have [transfer_rule]: "(rel_fun (list_all2 A) (rel_fun (list_all2 (rel_prod (=) (list_all2
      A))) (rel_prod (list_all2 A) (list_all2 (rel_prod (=) (list_all2 A)))))) g g'"
      unfolding g_def g'_def by (intro rel_funI Cons.IH)
    note [transfer_rule] = Cons.hyps(1) Cons.prems
    show ?case unfolding descendantsInPathLevel.simps g_def [symmetric] g'_def [symmetric]
      by transfer_prover
  qed
qed

lemma descendantsInPathLoop_le:
  assumes [transfer_rule]: "bi_unique A"
  shows "descendantsInPathLoop a0 a1 a2 a3 = Some y
         \<Longrightarrow> (rel_store A) a0 b0 \<Longrightarrow>
           a1 = b1 \<Longrightarrow>
           (list_all2 A) a2 b2 \<Longrightarrow>
           (list_all2 (rel_prod (=) (list_all2 A))) a3 b3
         \<Longrightarrow> \<exists>y'. descendantsInPathLoop b0 b1 b2 b3 = Some y' \<and> (list_all2 (rel_prod (=) (list_all2 A))) y y'"
proof (induction arbitrary: b0 b1 b2 b3 rule: descendantsInPathLoop.raw_induct [rotated -1, consumes 1])
  case (1 lp a0 a1 a2 a3 y)
  have [transfer_rule]: "(rel_fun (rel_store A) (rel_fun (=) (rel_fun (list_all2 A) (rel_fun
    (list_all2 (rel_prod (=) (list_all2 A))) (rel_le (list_all2 (rel_prod (=) (list_all2 A))))))))
      lp descendantsInPathLoop"
    unfolding rel_le_def by (intro rel_funI allI impI) (rule 1(1))
  note [transfer_rule] = 1(3-) rel_le_rules
  show ?case
    apply (rule rel_leD [OF _ 1(2)])
    apply (subst descendantsInPathLoop.simps)
    by transfer_prover
qed

lemma descendantsInPathLoop_transfer [transfer_rule]:
  assumes "bi_unique A"
  shows "(rel_fun (rel_store A) (rel_fun (=) (rel_fun (list_all2 A) (rel_fun (list_all2
    (rel_prod (=) (list_all2 A))) (rel_option (list_all2 (rel_prod (=) (list_all2 A))))))))
           descendantsInPathLoop descendantsInPathLoop"
proof ((intro rel_funI rel_le_both; unfold rel_le_def; intro allI impI), goal_cases)
  case (1 a0 b0 a1 b1 a2 b2 a3 b3 y)
  show ?case by (rule descendantsInPathLoop_le [OF assms 1(5) 1(1-4)])
next
  case (2 a0 b0 a1 b1 a2 b2 a3 b3 y)
  have "\<exists>y'. descendantsInPathLoop a0 a1 a2 a3 = Some y' \<and> (list_all2 (rel_prod (=) (list_all2 A\<inverse>\<inverse>))) y y'"
    by (rule descendantsInPathLoop_le [OF bi_unique_flip [OF assms] 2(5)]) (simp_all add: flip 2)
  then show ?case by (simp add: flip)
qed

lemma findDescendantsInPath_transfer [transfer_rule]:
  assumes [transfer_rule]: "bi_unique A"
  shows "(rel_fun (rel_store A) (rel_fun (=) (rel_fun A (rel_fun (list_all2 (rel_prod (=)
    (list_all2 A))) (rel_option (list_all2 (rel_prod (=) (list_all2 A))))))))
           findDescendantsInPath findDescendantsInPath"
  unfolding findDescendantsInPath_def by transfer_prover

lemma descendantsOf_transfer [transfer_rule]:
  assumes [transfer_rule]: "bi_unique A"
  shows "(rel_fun (rel_store A) (rel_fun (list_all2 (rel_prod (=) (list_all2 A))) (rel_fun A
    (list_all2 A))))
           descendantsOf descendantsOf"
  unfolding descendantsOf_def by transfer_prover

lemma flattenLoop_le:
  assumes [transfer_rule]: "bi_unique A"
  shows "flattenLoop a0 a1 a2 a3 = Some y
         \<Longrightarrow> (rel_store A) a0 b0 \<Longrightarrow>
           (list_all2 (rel_prod (=) (list_all2 A))) a1 b1 \<Longrightarrow>
           (list_all2 A) a2 b2 \<Longrightarrow>
           (list_all2 A) a3 b3
         \<Longrightarrow> \<exists>y'. flattenLoop b0 b1 b2 b3 = Some y' \<and> (list_all2 A) y y'"
proof (induction arbitrary: b0 b1 b2 b3 rule: flattenLoop.raw_induct [rotated -1, consumes 1])
  case (1 lp a0 a1 a2 a3 y)
  have [transfer_rule]: "(rel_fun (rel_store A) (rel_fun (list_all2 (rel_prod (=) (list_all2
    A))) (rel_fun (list_all2 A) (rel_fun (list_all2 A) (rel_le (list_all2 A))))))
      lp flattenLoop"
    unfolding rel_le_def by (intro rel_funI allI impI) (rule 1(1))
  note [transfer_rule] = 1(3-) rel_le_rules
  show ?case
    apply (rule rel_leD [OF _ 1(2)])
    apply (subst flattenLoop.simps)
    by transfer_prover
qed

lemma flattenLoop_transfer [transfer_rule]:
  assumes "bi_unique A"
  shows "(rel_fun (rel_store A) (rel_fun (list_all2 (rel_prod (=) (list_all2 A))) (rel_fun
    (list_all2 A) (rel_fun (list_all2 A) (rel_option (list_all2 A))))))
           flattenLoop flattenLoop"
proof ((intro rel_funI rel_le_both; unfold rel_le_def; intro allI impI), goal_cases)
  case (1 a0 b0 a1 b1 a2 b2 a3 b3 y)
  show ?case by (rule flattenLoop_le [OF assms 1(5) 1(1-4)])
next
  case (2 a0 b0 a1 b1 a2 b2 a3 b3 y)
  have "\<exists>y'. flattenLoop a0 a1 a2 a3 = Some y' \<and> (list_all2 A\<inverse>\<inverse>) y y'"
    by (rule flattenLoop_le [OF bi_unique_flip [OF assms] 2(5)]) (simp_all add: flip 2)
  then show ?case by (simp add: flip)
qed

lemma flattenDescendants_transfer [transfer_rule]:
  assumes [transfer_rule]: "bi_unique A"
  shows "(rel_fun (rel_store A) (rel_fun A (rel_fun (list_all2 (rel_prod (=) (list_all2 A)))
    (rel_option (list_all2 A)))))
           flattenDescendants flattenDescendants"
  unfolding flattenDescendants_def by transfer_prover

subsection \<open>The candidates on a copy\<close>

lemma endorsementsOfDescendants_transfer [transfer_rule]:
  assumes [transfer_rule]: "bi_unique A"
  shows "(rel_fun (rel_store A) (rel_fun (=) (rel_fun (=) (rel_fun (list_all2 A) (rel_fun (=)
    (rel_fun (=) (rel_fun (rel_state A) (rel_option (rel_sum (=) (rel_prod ((=)) (rel_prod
      ((=)) (rel_prod ((=)) (rel_state A)))))))))))))
           endorsementsOfDescendants endorsementsOfDescendants"
proof (intro rel_funI, goal_cases)
  case (1 a0 b0 a1 b1 a2 b2 a3 b3 a4 b4 a5 b5 a6 b6)
  note [transfer_rule] = 1(1) 1(2) 1(3)
  from 1(4) 1(5) 1(6) 1(7) show ?case
  proof (induction arbitrary: a4 b4 a5 b5 a6 b6 rule: list_all2_induct)
    case Nil
    note [transfer_rule] = Nil
    show ?case unfolding endorsementsOfDescendants.simps by transfer_prover
  next
    case (Cons x xs y ys)
    define g where "g = endorsementsOfDescendants a0 a1 a2 xs"
    define g' where "g' = endorsementsOfDescendants b0 b1 b2 ys"
    have [transfer_rule]: "(rel_fun (=) (rel_fun (=) (rel_fun (rel_state A) (rel_option
      (rel_sum (=) (rel_prod ((=)) (rel_prod ((=)) (rel_prod ((=)) (rel_state A))))))))) g g'"
      unfolding g_def g'_def by (intro rel_funI Cons.IH)
    note [transfer_rule] = Cons.hyps(1) Cons.prems
    show ?case unfolding endorsementsOfDescendants.simps g_def [symmetric] g'_def [symmetric]
      by transfer_prover
  qed
qed

lemma endorsementsLevel_transfer [transfer_rule]:
  assumes [transfer_rule]: "bi_unique A"
  shows "(rel_fun (rel_store A) (rel_fun (=) (rel_fun (=) (rel_fun (list_all2 (rel_prod (=)
    (list_all2 A))) (rel_fun (list_all2 A) (rel_fun (list_all2 A) (rel_fun (=) (rel_fun (=)
      (rel_fun (rel_state A) (rel_option (rel_sum (=) (rel_prod ((=)) (rel_prod (list_all2 A)
        (rel_prod ((=)) (rel_prod ((=)) (rel_state A))))))))))))))))
           endorsementsLevel endorsementsLevel"
proof (intro rel_funI, goal_cases)
  case (1 a0 b0 a1 b1 a2 b2 a3 b3 a4 b4 a5 b5 a6 b6 a7 b7 a8 b8)
  note [transfer_rule] = 1(1) 1(2) 1(3) 1(4)
  from 1(5) 1(6) 1(7) 1(8) 1(9) show ?case
  proof (induction arbitrary: a5 b5 a6 b6 a7 b7 a8 b8 rule: list_all2_induct)
    case Nil
    note [transfer_rule] = Nil
    show ?case unfolding endorsementsLevel.simps by transfer_prover
  next
    case (Cons x xs y ys)
    define g where "g = endorsementsLevel a0 a1 a2 a3 xs"
    define g' where "g' = endorsementsLevel b0 b1 b2 b3 ys"
    have [transfer_rule]: "(rel_fun (list_all2 A) (rel_fun (=) (rel_fun (=) (rel_fun (rel_state
      A) (rel_option (rel_sum (=) (rel_prod ((=)) (rel_prod (list_all2 A) (rel_prod ((=)) (rel_prod ((=)) (rel_state A))))))))))) g g'"
      unfolding g_def g'_def by (intro rel_funI Cons.IH)
    note [transfer_rule] = Cons.hyps(1) Cons.prems
    show ?case unfolding endorsementsLevel.simps g_def [symmetric] g'_def [symmetric]
      by transfer_prover
  qed
qed

lemma endorsementsLoop_le:
  assumes [transfer_rule]: "bi_unique A"
  shows "endorsementsLoop a0 a1 a2 a3 a4 a5 a6 a7 = Some y
         \<Longrightarrow> (rel_store A) a0 b0 \<Longrightarrow>
           a1 = b1 \<Longrightarrow>
           a2 = b2 \<Longrightarrow>
           (list_all2 (rel_prod (=) (list_all2 A))) a3 b3 \<Longrightarrow>
           (list_all2 A) a4 b4 \<Longrightarrow>
           a5 = b5 \<Longrightarrow>
           a6 = b6 \<Longrightarrow>
           (rel_state A) a7 b7
         \<Longrightarrow> \<exists>y'. endorsementsLoop b0 b1 b2 b3 b4 b5 b6 b7 = Some y' \<and> (rel_sum (=) (rel_prod ((=)) (rel_state A))) y y'"
proof (induction arbitrary: b0 b1 b2 b3 b4 b5 b6 b7 rule: endorsementsLoop.raw_induct [rotated -1, consumes 1])
  case (1 lp a0 a1 a2 a3 a4 a5 a6 a7 y)
  have [transfer_rule]: "(rel_fun (rel_store A) (rel_fun (=) (rel_fun (=) (rel_fun (list_all2
    (rel_prod (=) (list_all2 A))) (rel_fun (list_all2 A) (rel_fun (=) (rel_fun (=) (rel_fun
      (rel_state A) (rel_le (rel_sum (=) (rel_prod ((=)) (rel_state A))))))))))))
      lp endorsementsLoop"
    unfolding rel_le_def by (intro rel_funI allI impI) (rule 1(1))
  note [transfer_rule] = 1(3-) rel_le_rules
  show ?case
    apply (rule rel_leD [OF _ 1(2)])
    apply (subst endorsementsLoop.simps)
    by transfer_prover
qed

lemma endorsementsLoop_transfer [transfer_rule]:
  assumes "bi_unique A"
  shows "(rel_fun (rel_store A) (rel_fun (=) (rel_fun (=) (rel_fun (list_all2 (rel_prod (=)
    (list_all2 A))) (rel_fun (list_all2 A) (rel_fun (=) (rel_fun (=) (rel_fun (rel_state A)
      (rel_option (rel_sum (=) (rel_prod ((=)) (rel_state A))))))))))))
           endorsementsLoop endorsementsLoop"
proof ((intro rel_funI rel_le_both; unfold rel_le_def; intro allI impI), goal_cases)
  case (1 a0 b0 a1 b1 a2 b2 a3 b3 a4 b4 a5 b5 a6 b6 a7 b7 y)
  show ?case by (rule endorsementsLoop_le [OF assms 1(9) 1(1-8)])
next
  case (2 a0 b0 a1 b1 a2 b2 a3 b3 a4 b4 a5 b5 a6 b6 a7 b7 y)
  have "\<exists>y'. endorsementsLoop a0 a1 a2 a3 a4 a5 a6 a7 = Some y' \<and> (rel_sum (=) (rel_prod ((=)) (rel_state A\<inverse>\<inverse>))) y y'"
    by (rule endorsementsLoop_le [OF bi_unique_flip [OF assms] 2(9)]) (simp_all add: flip 2)
  then show ?case by (simp add: flip)
qed

lemma hasSufficientEndorsements_transfer [transfer_rule]:
  assumes [transfer_rule]: "bi_unique A"
  shows "(rel_fun (rel_store A) (rel_fun A (rel_fun (list_all2 (rel_prod (=) (list_all2 A)))
    (rel_fun (=) (rel_fun (=) (rel_fun (rel_state A) (rel_option (rel_sum (=) (rel_prod ((=))
      (rel_state A))))))))))
           hasSufficientEndorsements hasSufficientEndorsements"
  unfolding hasSufficientEndorsements_def by transfer_prover

lemma diversePedigreeLoop_le:
  assumes [transfer_rule]: "bi_unique A"
  shows "diversePedigreeLoop a0 a1 a2 a3 a4 a5 a6 a7 = Some y
         \<Longrightarrow> (rel_store A) a0 b0 \<Longrightarrow>
           a1 = b1 \<Longrightarrow>
           a2 = b2 \<Longrightarrow>
           a3 = b3 \<Longrightarrow>
           (A) a4 b4 \<Longrightarrow>
           (A) a5 b5 \<Longrightarrow>
           (list_all2 (rel_prod (=) (list_all2 A))) a6 b6 \<Longrightarrow>
           (rel_state A) a7 b7
         \<Longrightarrow> \<exists>y'. diversePedigreeLoop b0 b1 b2 b3 b4 b5 b6 b7 = Some y' \<and> (rel_sum (=) (rel_prod (rel_option (A)) (rel_prod (list_all2 (rel_prod (=) (list_all2 A))) (rel_state A)))) y y'"
proof (induction arbitrary: b0 b1 b2 b3 b4 b5 b6 b7 rule: diversePedigreeLoop.raw_induct [rotated -1, consumes 1])
  case (1 lp a0 a1 a2 a3 a4 a5 a6 a7 y)
  have [transfer_rule]: "(rel_fun (rel_store A) (rel_fun (=) (rel_fun (=) (rel_fun (=) (rel_fun
    A (rel_fun A (rel_fun (list_all2 (rel_prod (=) (list_all2 A))) (rel_fun (rel_state A)
      (rel_le (rel_sum (=) (rel_prod (rel_option (A)) (rel_prod (list_all2 (rel_prod (=) (list_all2 A))) (rel_state A)))))))))))))
      lp diversePedigreeLoop"
    unfolding rel_le_def by (intro rel_funI allI impI) (rule 1(1))
  note [transfer_rule] = 1(3-) rel_le_rules
  show ?case
    apply (rule rel_leD [OF _ 1(2)])
    apply (subst diversePedigreeLoop.simps)
    by transfer_prover
qed

lemma diversePedigreeLoop_transfer [transfer_rule]:
  assumes "bi_unique A"
  shows "(rel_fun (rel_store A) (rel_fun (=) (rel_fun (=) (rel_fun (=) (rel_fun A (rel_fun A
    (rel_fun (list_all2 (rel_prod (=) (list_all2 A))) (rel_fun (rel_state A) (rel_option
      (rel_sum (=) (rel_prod (rel_option (A)) (rel_prod (list_all2 (rel_prod (=) (list_all2 A))) (rel_state A)))))))))))))
           diversePedigreeLoop diversePedigreeLoop"
proof ((intro rel_funI rel_le_both; unfold rel_le_def; intro allI impI), goal_cases)
  case (1 a0 b0 a1 b1 a2 b2 a3 b3 a4 b4 a5 b5 a6 b6 a7 b7 y)
  show ?case by (rule diversePedigreeLoop_le [OF assms 1(9) 1(1-8)])
next
  case (2 a0 b0 a1 b1 a2 b2 a3 b3 a4 b4 a5 b5 a6 b6 a7 b7 y)
  have "\<exists>y'. diversePedigreeLoop a0 a1 a2 a3 a4 a5 a6 a7 = Some y' \<and> (rel_sum (=) (rel_prod (rel_option (A\<inverse>\<inverse>)) (rel_prod (list_all2 (rel_prod (=) (list_all2 A\<inverse>\<inverse>))) (rel_state A\<inverse>\<inverse>)))) y y'"
    by (rule diversePedigreeLoop_le [OF bi_unique_flip [OF assms] 2(9)]) (simp_all add: flip 2)
  then show ?case by (simp add: flip)
qed

lemma findDiversePedigreeMergeEvent_transfer [transfer_rule]:
  assumes [transfer_rule]: "bi_unique A"
  shows "(rel_fun (rel_store A) (rel_fun A (rel_fun (=) (rel_fun (=) (rel_fun (list_all2
    (rel_prod (=) (list_all2 A))) (rel_fun (=) (rel_fun (rel_state A) (rel_option (rel_sum (=)
      (rel_prod (rel_option (A)) (rel_prod (list_all2 (rel_prod (=) (list_all2 A))) (rel_state A))))))))))))
           findDiversePedigreeMergeEvent findDiversePedigreeMergeEvent"
  unfolding findDiversePedigreeMergeEvent_def by transfer_prover

lemma findXs_transfer [transfer_rule]:
  assumes [transfer_rule]: "bi_unique A"
  shows "(rel_fun (rel_store A) (rel_fun (list_all2 (rel_prod (=) (list_all2 A))) (rel_fun (=)
    (rel_fun (list_all2 (rel_prod (=) A)) (rel_fun (rel_state A) (rel_option (rel_sum (=)
      (rel_prod (list_all2 (rel_prod (=) A)) (rel_state A)))))))))
           findXs findXs"
proof (intro rel_funI, goal_cases)
  case (1 a0 b0 a1 b1 a2 b2 a3 b3 a4 b4)
  note [transfer_rule] = 1(1) 1(2)
  from 1(3) have "list_all2 (=) a2 b2" by (simp add: list.rel_eq)
  from this 1(4) 1(5) show ?case
  proof (induction arbitrary: a3 b3 a4 b4 rule: list_all2_induct)
    case Nil
    note [transfer_rule] = Nil
    show ?case unfolding findXs.simps by transfer_prover
  next
    case (Cons x xs y ys)
    define g where "g = findXs a0 a1 xs"
    define g' where "g' = findXs b0 b1 ys"
    have [transfer_rule]: "(rel_fun (list_all2 (rel_prod (=) A)) (rel_fun (rel_state A)
      (rel_option (rel_sum (=) (rel_prod (list_all2 (rel_prod (=) A)) (rel_state A)))))) g g'"
      unfolding g_def g'_def by (intro rel_funI Cons.IH)
    note [transfer_rule] = Cons.hyps(1) Cons.prems
    show ?case unfolding findXs.simps g_def [symmetric] g'_def [symmetric]
      by transfer_prover
  qed
qed

lemma findYs_transfer [transfer_rule]:
  assumes [transfer_rule]: "bi_unique A"
  shows "(rel_fun (rel_store A) (rel_fun (=) (rel_fun (=) (rel_fun (list_all2 (rel_prod (=) A))
    (rel_fun (=) (rel_fun (list_all2 (rel_prod (=) A)) (rel_fun (rel_state A) (rel_option
      (rel_sum (=) (rel_prod (list_all2 (rel_prod (=) A)) (rel_state A)))))))))))
           findYs findYs"
proof (intro rel_funI, goal_cases)
  case (1 a0 b0 a1 b1 a2 b2 a3 b3 a4 b4 a5 b5 a6 b6)
  note [transfer_rule] = 1(1) 1(2) 1(3) 1(4)
  from 1(5) have "list_all2 (=) a4 b4" by (simp add: list.rel_eq)
  from this 1(6) 1(7) show ?case
  proof (induction arbitrary: a5 b5 a6 b6 rule: list_all2_induct)
    case Nil
    note [transfer_rule] = Nil
    show ?case unfolding findYs.simps by transfer_prover
  next
    case (Cons x xs y ys)
    define g where "g = findYs a0 a1 a2 a3 xs"
    define g' where "g' = findYs b0 b1 b2 b3 ys"
    have [transfer_rule]: "(rel_fun (list_all2 (rel_prod (=) A)) (rel_fun (rel_state A)
      (rel_option (rel_sum (=) (rel_prod (list_all2 (rel_prod (=) A)) (rel_state A)))))) g g'"
      unfolding g_def g'_def by (intro rel_funI Cons.IH)
    note [transfer_rule] = Cons.hyps(1) Cons.prems
    show ?case unfolding findYs.simps g_def [symmetric] g'_def [symmetric]
      by transfer_prover
  qed
qed

lemma findMergeEventProofCandidates_transfer [transfer_rule]:
  assumes [transfer_rule]: "bi_unique A"
  shows "(rel_fun (rel_store A) (rel_fun (list_all2 (rel_prod (=) (list_all2 A))) (rel_fun (=)
    (rel_fun (rel_state A) (rel_option (rel_sum (=) (rel_prod (rel_option (rel_prod (list_all2
      (rel_prod (=) A)) (list_all2 (rel_prod (=) A)))) (rel_state A))))))))
           findMergeEventProofCandidates findMergeEventProofCandidates"
  unfolding findMergeEventProofCandidates_def by transfer_prover

subsection \<open>The votes on a copy\<close>

lemma viable_transfer [transfer_rule]:
  assumes [transfer_rule]: "bi_unique A"
  shows "(rel_fun (rel_store A) (rel_fun (=) (rel_fun A (rel_fun (list_all2 A) (rel_option
    (rel_sum (=) ((=))))))))
           viable viable"
proof (intro rel_funI, goal_cases)
  case (1 a0 b0 a1 b1 a2 b2 a3 b3)
  note [transfer_rule] = 1(1) 1(2) 1(3)
  from 1(4) show ?case
  proof (induction rule: list_all2_induct)
    case Nil
    show ?case unfolding viable.simps by transfer_prover
  next
    case (Cons x xs y ys)
    define g where "g = viable a0 a1 a2 xs"
    define g' where "g' = viable b0 b1 b2 ys"
    have [transfer_rule]: "(rel_option (rel_sum (=) ((=)))) g g'"
      unfolding g_def g'_def by (intro rel_funI Cons.IH)
    note [transfer_rule] = Cons.hyps(1)
    show ?case unfolding viable.simps g_def [symmetric] g'_def [symmetric]
      by transfer_prover
  qed
qed

lemma hasAncestorsLevel_transfer [transfer_rule]:
  assumes [transfer_rule]: "bi_unique A"
  shows "(rel_fun (rel_store A) (rel_fun (list_all2 A) (rel_fun (=) (rel_fun (=) (rel_fun
    (list_all2 A) (rel_fun (list_all2 A) (rel_fun (list_all2 A) (rel_fun (list_all2 A) (rel_fun
      (list_all2 A) (rel_option (rel_sum (=) (rel_prod ((=)) (rel_prod (list_all2 A) (rel_prod (list_all2 A) (rel_prod (list_all2 A) (list_all2 A))))))))))))))))
           hasAncestorsLevel hasAncestorsLevel"
proof (intro rel_funI, goal_cases)
  case (1 a0 b0 a1 b1 a2 b2 a3 b3 a4 b4 a5 b5 a6 b6 a7 b7 a8 b8)
  note [transfer_rule] = 1(1) 1(2) 1(3) 1(4)
  from 1(5) 1(6) 1(7) 1(8) 1(9) show ?case
  proof (induction arbitrary: a5 b5 a6 b6 a7 b7 a8 b8 rule: list_all2_induct)
    case Nil
    note [transfer_rule] = Nil
    show ?case unfolding hasAncestorsLevel.simps by transfer_prover
  next
    case (Cons x xs y ys)
    define g where "g = hasAncestorsLevel a0 a1 a2 a3 xs"
    define g' where "g' = hasAncestorsLevel b0 b1 b2 b3 ys"
    have [transfer_rule]: "(rel_fun (list_all2 A) (rel_fun (list_all2 A) (rel_fun (list_all2 A)
      (rel_fun (list_all2 A) (rel_option (rel_sum (=) (rel_prod ((=)) (rel_prod (list_all2 A)
        (rel_prod (list_all2 A) (rel_prod (list_all2 A) (list_all2 A))))))))))) g g'"
      unfolding g_def g'_def by (intro rel_funI Cons.IH)
    note [transfer_rule] = Cons.hyps(1) Cons.prems
    show ?case unfolding hasAncestorsLevel.simps g_def [symmetric] g'_def [symmetric]
      by transfer_prover
  qed
qed

lemma hasAncestorsLoop_le:
  assumes [transfer_rule]: "bi_unique A"
  shows "hasAncestorsLoop a0 a1 a2 a3 a4 a5 a6 a7 = Some y
         \<Longrightarrow> (rel_store A) a0 b0 \<Longrightarrow>
           (list_all2 A) a1 b1 \<Longrightarrow>
           a2 = b2 \<Longrightarrow>
           a3 = b3 \<Longrightarrow>
           (list_all2 A) a4 b4 \<Longrightarrow>
           (list_all2 A) a5 b5 \<Longrightarrow>
           (list_all2 A) a6 b6 \<Longrightarrow>
           (list_all2 A) a7 b7
         \<Longrightarrow> \<exists>y'. hasAncestorsLoop b0 b1 b2 b3 b4 b5 b6 b7 = Some y' \<and> (rel_sum (=) (list_all2 A)) y y'"
proof (induction arbitrary: b0 b1 b2 b3 b4 b5 b6 b7 rule: hasAncestorsLoop.raw_induct [rotated -1, consumes 1])
  case (1 lp a0 a1 a2 a3 a4 a5 a6 a7 y)
  have [transfer_rule]: "(rel_fun (rel_store A) (rel_fun (list_all2 A) (rel_fun (=) (rel_fun
    (=) (rel_fun (list_all2 A) (rel_fun (list_all2 A) (rel_fun (list_all2 A) (rel_fun
      (list_all2 A) (rel_le (rel_sum (=) (list_all2 A)))))))))))
      lp hasAncestorsLoop"
    unfolding rel_le_def by (intro rel_funI allI impI) (rule 1(1))
  note [transfer_rule] = 1(3-) rel_le_rules
  show ?case
    apply (rule rel_leD [OF _ 1(2)])
    apply (subst hasAncestorsLoop.simps)
    by transfer_prover
qed

lemma hasAncestorsLoop_transfer [transfer_rule]:
  assumes "bi_unique A"
  shows "(rel_fun (rel_store A) (rel_fun (list_all2 A) (rel_fun (=) (rel_fun (=) (rel_fun
    (list_all2 A) (rel_fun (list_all2 A) (rel_fun (list_all2 A) (rel_fun (list_all2 A)
      (rel_option (rel_sum (=) (list_all2 A)))))))))))
           hasAncestorsLoop hasAncestorsLoop"
proof ((intro rel_funI rel_le_both; unfold rel_le_def; intro allI impI), goal_cases)
  case (1 a0 b0 a1 b1 a2 b2 a3 b3 a4 b4 a5 b5 a6 b6 a7 b7 y)
  show ?case by (rule hasAncestorsLoop_le [OF assms 1(9) 1(1-8)])
next
  case (2 a0 b0 a1 b1 a2 b2 a3 b3 a4 b4 a5 b5 a6 b6 a7 b7 y)
  have "\<exists>y'. hasAncestorsLoop a0 a1 a2 a3 a4 a5 a6 a7 = Some y' \<and> (rel_sum (=) (list_all2 A\<inverse>\<inverse>)) y y'"
    by (rule hasAncestorsLoop_le [OF bi_unique_flip [OF assms] 2(9)]) (simp_all add: flip 2)
  then show ?case by (simp add: flip)
qed

lemma allEndorsedYs_transfer [transfer_rule]:
  assumes [transfer_rule]: "bi_unique A"
  shows "(rel_fun (rel_store A) (rel_fun A (rel_fun (list_all2 A) (rel_fun (=) (rel_option
    (rel_sum (=) (list_all2 A)))))))
           allEndorsedYs allEndorsedYs"
  unfolding allEndorsedYs_def by transfer_prover

lemma generationGreater_transfer [transfer_rule]:
  "(rel_fun (rel_state A) (rel_fun A (rel_fun A (=))))
           generationGreater generationGreater"
  unfolding generationGreater_def by transfer_prover

lemma generationGreaterEq_transfer [transfer_rule]:
  "(rel_fun (rel_state A) (rel_fun A (rel_fun A (=))))
           generationGreaterEq generationGreaterEq"
  unfolding generationGreaterEq_def by transfer_prover

lemma useMostRecentVotingEvent_transfer [transfer_rule]:
  assumes [transfer_rule]: "bi_unique A"
  shows "(rel_fun (rel_state A) (rel_fun (=) (rel_fun (list_all2 (rel_prod (=) (rel_vote A)))
    (rel_fun A (list_all2 (rel_prod (=) (rel_vote A)))))))
           useMostRecentVotingEvent useMostRecentVotingEvent"
  unfolding useMostRecentVotingEvent_def by transfer_prover

lemma mostRecentVotesLevel_transfer [transfer_rule]:
  assumes [transfer_rule]: "bi_unique A"
  shows "(rel_fun (rel_store A) (rel_fun (list_all2 (rel_prod (=) A)) (rel_fun (list_all2
    (rel_prod (=) (list_all2 A))) (rel_fun (list_all2 A) (rel_fun (list_all2 A) (rel_fun
      (list_all2 (rel_prod (=) (rel_vote A))) (rel_fun (rel_state A) (rel_option (rel_sum (=)
        (rel_prod (list_all2 A) (rel_prod (list_all2 (rel_prod (=) (rel_vote A))) (rel_state A))))))))))))
           mostRecentVotesLevel mostRecentVotesLevel"
proof (intro rel_funI, goal_cases)
  case (1 a0 b0 a1 b1 a2 b2 a3 b3 a4 b4 a5 b5 a6 b6)
  note [transfer_rule] = 1(1) 1(2) 1(3)
  from 1(4) 1(5) 1(6) 1(7) show ?case
  proof (induction arbitrary: a4 b4 a5 b5 a6 b6 rule: list_all2_induct)
    case Nil
    note [transfer_rule] = Nil
    show ?case unfolding mostRecentVotesLevel.simps by transfer_prover
  next
    case (Cons x xs y ys)
    define g where "g = mostRecentVotesLevel a0 a1 a2 xs"
    define g' where "g' = mostRecentVotesLevel b0 b1 b2 ys"
    have [transfer_rule]: "(rel_fun (list_all2 A) (rel_fun (list_all2 (rel_prod (=) (rel_vote
      A))) (rel_fun (rel_state A) (rel_option (rel_sum (=) (rel_prod (list_all2 A) (rel_prod
        (list_all2 (rel_prod (=) (rel_vote A))) (rel_state A)))))))) g g'"
      unfolding g_def g'_def by (intro rel_funI Cons.IH)
    note [transfer_rule] = Cons.hyps(1) Cons.prems
    show ?case unfolding mostRecentVotesLevel.simps g_def [symmetric] g'_def [symmetric]
      by transfer_prover
  qed
qed

lemma mostRecentVotesLoop_le:
  assumes [transfer_rule]: "bi_unique A"
  shows "mostRecentVotesLoop a0 a1 a2 a3 a4 a5 = Some y
         \<Longrightarrow> (rel_store A) a0 b0 \<Longrightarrow>
           (list_all2 (rel_prod (=) A)) a1 b1 \<Longrightarrow>
           (list_all2 (rel_prod (=) (list_all2 A))) a2 b2 \<Longrightarrow>
           (list_all2 A) a3 b3 \<Longrightarrow>
           (list_all2 (rel_prod (=) (rel_vote A))) a4 b4 \<Longrightarrow>
           (rel_state A) a5 b5
         \<Longrightarrow> \<exists>y'. mostRecentVotesLoop b0 b1 b2 b3 b4 b5 = Some y' \<and> (rel_sum (=) (rel_prod (list_all2 (rel_prod (=) (rel_vote A))) (rel_state A))) y y'"
proof (induction arbitrary: b0 b1 b2 b3 b4 b5 rule: mostRecentVotesLoop.raw_induct [rotated -1, consumes 1])
  case (1 lp a0 a1 a2 a3 a4 a5 y)
  have [transfer_rule]: "(rel_fun (rel_store A) (rel_fun (list_all2 (rel_prod (=) A)) (rel_fun
    (list_all2 (rel_prod (=) (list_all2 A))) (rel_fun (list_all2 A) (rel_fun (list_all2
      (rel_prod (=) (rel_vote A))) (rel_fun (rel_state A) (rel_le (rel_sum (=) (rel_prod
        (list_all2 (rel_prod (=) (rel_vote A))) (rel_state A))))))))))
      lp mostRecentVotesLoop"
    unfolding rel_le_def by (intro rel_funI allI impI) (rule 1(1))
  note [transfer_rule] = 1(3-) rel_le_rules
  show ?case
    apply (rule rel_leD [OF _ 1(2)])
    apply (subst mostRecentVotesLoop.simps)
    by transfer_prover
qed

lemma mostRecentVotesLoop_transfer [transfer_rule]:
  assumes "bi_unique A"
  shows "(rel_fun (rel_store A) (rel_fun (list_all2 (rel_prod (=) A)) (rel_fun (list_all2
    (rel_prod (=) (list_all2 A))) (rel_fun (list_all2 A) (rel_fun (list_all2 (rel_prod (=)
      (rel_vote A))) (rel_fun (rel_state A) (rel_option (rel_sum (=) (rel_prod (list_all2
        (rel_prod (=) (rel_vote A))) (rel_state A))))))))))
           mostRecentVotesLoop mostRecentVotesLoop"
proof ((intro rel_funI rel_le_both; unfold rel_le_def; intro allI impI), goal_cases)
  case (1 a0 b0 a1 b1 a2 b2 a3 b3 a4 b4 a5 b5 y)
  show ?case by (rule mostRecentVotesLoop_le [OF assms 1(7) 1(1-6)])
next
  case (2 a0 b0 a1 b1 a2 b2 a3 b3 a4 b4 a5 b5 y)
  have "\<exists>y'. mostRecentVotesLoop a0 a1 a2 a3 a4 a5 = Some y' \<and> (rel_sum (=) (rel_prod (list_all2 (rel_prod (=) (rel_vote A\<inverse>\<inverse>))) (rel_state A\<inverse>\<inverse>))) y y'"
    by (rule mostRecentVotesLoop_le [OF bi_unique_flip [OF assms] 2(7)]) (simp_all add: flip 2)
  then show ?case by (simp add: flip)
qed

lemma updateToMostRecentVotes_transfer [transfer_rule]:
  assumes [transfer_rule]: "bi_unique A"
  shows "(rel_fun (rel_store A) (rel_fun A (rel_fun (list_all2 (rel_prod (=) A)) (rel_fun
    (list_all2 (rel_prod (=) (list_all2 A))) (rel_fun (list_all2 (rel_prod (=) (rel_vote A)))
      (rel_fun (rel_state A) (rel_option (rel_sum (=) (rel_prod (list_all2 (rel_prod (=)
        (rel_vote A))) (rel_state A))))))))))
           updateToMostRecentVotes updateToMostRecentVotes"
  unfolding updateToMostRecentVotes_def by transfer_prover

subsection \<open>\_tally on a copy\<close>

lemma bi_unique_rel_vote [transfer_rule]: "bi_unique A \<Longrightarrow> bi_unique (rel_vote A)"
  by (auto simp: bi_unique_def rel_vote_def split: vote.splits)

lemma compareSupportSet_transfer [transfer_rule]:
  assumes [transfer_rule]: "bi_unique A"
  shows "(rel_fun (rel_store A) (rel_fun (list_all2 A) (rel_fun (list_all2 A) (=))))
           compareSupportSet compareSupportSet"
  unfolding compareSupportSet_def by transfer_prover

lemma findIndex_transfer [transfer_rule]:
  assumes [transfer_rule]: "bi_unique A"
  shows "(rel_fun (rel_fun (rel_prod (list_all2 A) (=)) (=)) (rel_fun (list_all2 (rel_prod
    (list_all2 A) (=))) (rel_option ((=)))))
           findIndex findIndex"
proof (intro rel_funI, goal_cases)
  case (1 a0 b0 a1 b1)
  note [transfer_rule] = 1(1)
  from 1(2) show ?case
  proof (induction rule: list_all2_induct)
    case Nil
    show ?case unfolding findIndex.simps by transfer_prover
  next
    case (Cons x xs y ys)
    define g where "g = findIndex a0 xs"
    define g' where "g' = findIndex b0 ys"
    have [transfer_rule]: "(rel_option ((=))) g g'"
      unfolding g_def g'_def by (intro rel_funI Cons.IH)
    note [transfer_rule] = Cons.hyps(1)
    show ?case unfolding findIndex.simps g_def [symmetric] g'_def [symmetric]
      by transfer_prover
  qed
qed

lemma findSetInTally_transfer [transfer_rule]:
  assumes [transfer_rule]: "bi_unique A"
  shows "(rel_fun (rel_store A) (rel_fun (rel_option (list_all2 A)) (rel_fun (list_all2
    (rel_prod (list_all2 A) (=))) (rel_option ((=))))))
           findSetInTally findSetInTally"
  unfolding findSetInTally_def by transfer_prover

lemma findIndex_less: "findIndex P xs = Some i \<Longrightarrow> i < length xs"
  by (induction xs arbitrary: i) (auto split: if_splits)

lemma findSetInTally_less: "findSetInTally E st entries = Some i \<Longrightarrow> i < length entries"
  by (auto simp: findSetInTally_def split: option.splits dest: findIndex_less)

lemma drop_entry: "i < length xs \<Longrightarrow> drop i xs = xs ! i # drop (Suc i) xs"
  by (simp add: Cons_nth_drop_Suc)

lemma tallyVotes_Cons:
  "tallyVotes E (v # vs) entries s =
     (case v of
        Byzantine \<Rightarrow> tallyVotes E vs entries s
      | Voting e \<Rightarrow>
          (case supporting s e of
             None \<Rightarrow> tallyVotes E vs entries s
           | Some supp \<Rightarrow>
               (case findSetInTally E (Some supp) entries of
                  Some i \<Rightarrow>
                    (case drop i entries of
                       [] \<Rightarrow> tallyVotes E vs entries s
                     | en # _ \<Rightarrow>
                         tallyVotes E vs (entries[i := (fst en, snd en + 1)])
                           (s\<lparr>supporting := (supporting s)(e := Some (fst en))\<rparr>))
                | None \<Rightarrow> tallyVotes E vs (entries @ [(supp, 1)]) s)))"
  by (cases v) (auto split: option.splits dest!: findSetInTally_less simp: drop_entry)

lemma unionPreCommit_Cons:
  "unionPreCommit s (v # vs) unionSet =
     (case v of
        Byzantine \<Rightarrow> unionPreCommit s vs unionSet
      | Voting r \<Rightarrow>
          (case preCommit s r of
             None \<Rightarrow> unionPreCommit s vs unionSet
           | Some pc \<Rightarrow>
               (case supporting s pc of
                  None \<Rightarrow> throw
                | Some supp \<Rightarrow>
                    (case unionSet of
                       None \<Rightarrow> throw
                     | Some u \<Rightarrow>
                         unionPreCommit s vs
                           (if length supp > length u then Some supp else unionSet)))))"
  by (cases v) simp_all

lemma tallyVotes_transfer [transfer_rule]:
  assumes [transfer_rule]: "bi_unique A"
  shows "(rel_fun (rel_store A) (rel_fun (list_all2 (rel_vote A)) (rel_fun (list_all2 (rel_prod
    (list_all2 A) (=))) (rel_fun (rel_state A) (rel_prod (list_all2 (rel_prod (list_all2 A)
      (=))) (rel_state A))))))
           tallyVotes tallyVotes"
proof (intro rel_funI, goal_cases)
  case (1 a0 b0 a1 b1 a2 b2 a3 b3)
  note [transfer_rule] = 1(1)
  from 1(2) 1(3) 1(4) show ?case
  proof (induction arbitrary: a2 b2 a3 b3 rule: list_all2_induct)
    case Nil
    note [transfer_rule] = Nil
    show ?case unfolding tallyVotes.simps(1) tallyVotes_Cons by transfer_prover
  next
    case (Cons x xs y ys)
    define g where "g = tallyVotes a0 xs"
    define g' where "g' = tallyVotes b0 ys"
    have [transfer_rule]: "(rel_fun (list_all2 (rel_prod (list_all2 A) (=))) (rel_fun
      (rel_state A) (rel_prod (list_all2 (rel_prod (list_all2 A) (=))) (rel_state A)))) g g'"
      unfolding g_def g'_def by (intro rel_funI Cons.IH)
    note [transfer_rule] = Cons.hyps(1) Cons.prems
    show ?case unfolding tallyVotes.simps(1) tallyVotes_Cons g_def [symmetric] g'_def [symmetric]
      by transfer_prover
  qed
qed

lemma unionPreCommit_transfer [transfer_rule]:
  assumes [transfer_rule]: "bi_unique A"
  shows "(rel_fun (rel_state A) (rel_fun (list_all2 (rel_vote A)) (rel_fun (rel_option
    (list_all2 A)) (rel_option (rel_sum (=) (rel_option (list_all2 A)))))))
           unionPreCommit unionPreCommit"
proof (intro rel_funI, goal_cases)
  case (1 a0 b0 a1 b1 a2 b2)
  note [transfer_rule] = 1(1)
  from 1(2) 1(3) show ?case
  proof (induction arbitrary: a2 b2 rule: list_all2_induct)
    case Nil
    note [transfer_rule] = Nil
    show ?case unfolding unionPreCommit.simps(1) unionPreCommit_Cons by transfer_prover
  next
    case (Cons x xs y ys)
    define g where "g = unionPreCommit a0 xs"
    define g' where "g' = unionPreCommit b0 ys"
    have [transfer_rule]: "(rel_fun (rel_option (list_all2 A)) (rel_option (rel_sum (=)
      (rel_option (list_all2 A))))) g g'"
      unfolding g_def g'_def by (intro rel_funI Cons.IH)
    note [transfer_rule] = Cons.hyps(1) Cons.prems
    show ?case unfolding unionPreCommit.simps(1) unionPreCommit_Cons g_def [symmetric] g'_def [symmetric]
      by transfer_prover
  qed
qed

lemma votesOf_transfer [transfer_rule]:
  "(rel_fun (rel_state A) (rel_fun A (list_all2 (rel_vote A))))
           votesOf votesOf"
  unfolding votesOf_def by transfer_prover

lemma findUnionPreCommitSet_transfer [transfer_rule]:
  assumes [transfer_rule]: "bi_unique A"
  shows "(rel_fun (rel_state A) (rel_fun A (rel_fun A (rel_option (rel_sum (=) (rel_option
    (list_all2 A)))))))
           findUnionPreCommitSet findUnionPreCommitSet"
  unfolding findUnionPreCommitSet_def by transfer_prover

lemma votingEvents_transfer [transfer_rule]:
  "(rel_fun (list_all2 (rel_vote A)) (list_all2 A))
           votingEvents votingEvents"
  unfolding votingEvents_def by transfer_prover

lemma those_the: "those ys = (if None \<in> set ys then None else Some (map the ys))"
  by (induction ys) (auto split: option.splits)

lemma chooseNext_alt:
  "chooseNext E event entries existingPreCommit s =
     bindr (case existingPreCommit of
              Some pc \<Rightarrow>
                bindr (findUnionPreCommitSet s event pc)
                  (\<lambda>unionSet. ret (findSetInTally E unionSet entries))
            | None \<Rightarrow> ret None)
       (\<lambda>fromPreCommit.
          case fromPreCommit of
            Some i \<Rightarrow>
              (case drop i entries of
                 [] \<Rightarrow> throw
               | en # _ \<Rightarrow> ret (Some i, fst en, snd en))
          | None \<Rightarrow>
              (case those (map (yOf s) (votingEvents (votesOf s event))) of
                 None \<Rightarrow> throw
               | Some zs \<Rightarrow>
                   (let unionSet = uniq zs
                    in case findSetInTally E (Some unionSet) entries of
                         Some i \<Rightarrow>
                           (case drop i entries of
                              [] \<Rightarrow> throw
                            | en # _ \<Rightarrow> ret (Some i, fst en, snd en))
                       | None \<Rightarrow> ret (None, unionSet, 0))))"
  unfolding chooseNext_def
  by (auto simp: bindr_def ret_def those_the Let_def drop_entry
      split: option.splits sum.splits dest!: findSetInTally_less)

lemma chooseNext_transfer [transfer_rule]:
  assumes [transfer_rule]: "bi_unique A"
  shows "(rel_fun (rel_store A) (rel_fun A (rel_fun (list_all2 (rel_prod (list_all2 A) (=)))
    (rel_fun (rel_option (A)) (rel_fun (rel_state A) (rel_option (rel_sum (=) (rel_prod
      (rel_option ((=))) (rel_prod (list_all2 A) ((=)))))))))))
           chooseNext chooseNext"
  unfolding chooseNext_alt by transfer_prover

lemma previousChoice_transfer [transfer_rule]:
  assumes [transfer_rule]: "bi_unique A"
  shows "(rel_fun (rel_store A) (rel_fun A (rel_fun (=) (rel_fun (list_all2 (rel_prod
    (list_all2 A) (=))) (rel_fun (rel_state A) (rel_option (rel_sum (=) (rel_option
      ((=))))))))))
           previousChoice previousChoice"
  unfolding previousChoice_def by transfer_prover

lemma createPreCommit_transfer [transfer_rule]:
  assumes [transfer_rule]: "bi_unique A"
  shows "(rel_fun (rel_store A) (rel_fun (=) (rel_fun A (rel_fun (rel_state A) (rel_option
    (rel_sum (=) (rel_state A)))))))
           createPreCommit createPreCommit"
  unfolding createPreCommit_def by transfer_prover

lemma supportNextChoice_transfer [transfer_rule]:
  assumes [transfer_rule]: "bi_unique A"
  shows "(rel_fun A (rel_fun (=) (rel_fun (list_all2 A) (rel_fun (rel_option (A)) (rel_fun
    (rel_state A) (rel_option (rel_sum (=) (rel_prod (rel_option (list_all2 A)) (rel_state A)))))))))
           supportNextChoice supportNextChoice"
  unfolding supportNextChoice_def by transfer_prover

lemma finishTally_transfer [transfer_rule]:
  assumes [transfer_rule]: "bi_unique A"
  shows "(rel_fun (rel_store A) (rel_fun (=) (rel_fun A (rel_fun (=) (rel_fun (list_all2 A)
    (rel_fun (=) (rel_fun (rel_option (A)) (rel_fun (rel_state A) (rel_option (rel_sum (=)
      (rel_prod (rel_option (list_all2 A)) (rel_state A))))))))))))
           finishTally finishTally"
  unfolding finishTally_def by transfer_prover

lemma tallyChoice_transfer [transfer_rule]:
  assumes [transfer_rule]: "bi_unique A"
  shows "(rel_fun (rel_store A) (rel_fun A (rel_fun (rel_state A) (rel_option (rel_sum (=)
    (rel_prod ((=)) (rel_prod (rel_option (A)) (rel_prod (list_all2 A) (rel_prod ((=)) (rel_state A))))))))))
           tallyChoice tallyChoice"
  unfolding tallyChoice_def by transfer_prover

lemma tally_transfer [transfer_rule]:
  assumes [transfer_rule]: "bi_unique A"
  shows "(rel_fun (rel_store A) (rel_fun (=) (rel_fun A (rel_fun (rel_state A) (rel_option
    (rel_sum (=) (rel_prod (rel_option (list_all2 A)) (rel_state A))))))))
           tally tally"
  unfolding tally_def by transfer_prover

subsection \<open>\_tallyBranches on a copy\<close>

lemma collectFromYs_transfer [transfer_rule]:
  assumes [transfer_rule]: "bi_unique A"
  shows "(rel_fun (rel_store A) (rel_fun (list_all2 (rel_prod (=) A)) (rel_fun A (rel_fun (=)
    (rel_fun (rel_state A) (rel_option (rel_sum (=) (rel_state A))))))))
           collectFromYs collectFromYs"
proof (intro rel_funI, goal_cases)
  case (1 a0 b0 a1 b1 a2 b2 a3 b3 a4 b4)
  note [transfer_rule] = 1(1) 1(2) 1(3)
  from 1(4) have "list_all2 (=) a3 b3" by (simp add: list.rel_eq)
  from this 1(5) show ?case
  proof (induction arbitrary: a4 b4 rule: list_all2_induct)
    case Nil
    note [transfer_rule] = Nil
    show ?case unfolding collectFromYs.simps by transfer_prover
  next
    case (Cons x xs y ys)
    define g where "g = collectFromYs a0 a1 a2 xs"
    define g' where "g' = collectFromYs b0 b1 b2 ys"
    have [transfer_rule]: "(rel_fun (rel_state A) (rel_option (rel_sum (=) (rel_state A)))) g
      g'"
      unfolding g_def g'_def by (intro rel_funI Cons.IH)
    note [transfer_rule] = Cons.hyps(1) Cons.prems
    show ?case unfolding collectFromYs.simps g_def [symmetric] g'_def [symmetric]
      by transfer_prover
  qed
qed

lemma collectVotes_transfer [transfer_rule]:
  assumes [transfer_rule]: "bi_unique A"
  shows "(rel_fun (rel_store A) (rel_fun (list_all2 (rel_prod (=) A)) (rel_fun A (rel_fun A
    (rel_fun (rel_state A) (rel_option (rel_sum (=) (rel_state A))))))))
           collectVotes collectVotes"
  unfolding collectVotes_def by transfer_prover

lemma outstandingVotes_transfer [transfer_rule]:
  assumes [transfer_rule]: "bi_unique A"
  shows "(rel_fun (rel_state A) (rel_fun A (=)))
           outstandingVotes outstandingVotes"
  unfolding outstandingVotes_def by transfer_prover

lemma tallyEvent_transfer [transfer_rule]:
  assumes [transfer_rule]: "bi_unique A"
  shows "(rel_fun (rel_store A) (rel_fun (list_all2 (rel_prod (=) A)) (rel_fun (=) (rel_fun A
    (rel_fun (rel_state A) (rel_option (rel_sum (=) (rel_prod (rel_step A) (rel_state A)))))))))
           tallyEvent tallyEvent"
  unfolding tallyEvent_def by transfer_prover

lemma tallyCurrent_transfer [transfer_rule]:
  assumes [transfer_rule]: "bi_unique A"
  shows "(rel_fun (rel_store A) (rel_fun (list_all2 (rel_prod (=) A)) (rel_fun (=) (rel_fun
    (list_all2 A) (rel_fun (list_all2 A) (rel_fun (rel_state A) (rel_option (rel_sum (=)
      (rel_prod (rel_option (list_all2 A)) (rel_prod (list_all2 A) (rel_state A)))))))))))
           tallyCurrent tallyCurrent"
proof (intro rel_funI, goal_cases)
  case (1 a0 b0 a1 b1 a2 b2 a3 b3 a4 b4 a5 b5)
  note [transfer_rule] = 1(1) 1(2) 1(3)
  from 1(4) 1(5) 1(6) show ?case
  proof (induction arbitrary: a4 b4 a5 b5 rule: list_all2_induct)
    case Nil
    note [transfer_rule] = Nil
    show ?case unfolding tallyCurrent.simps by transfer_prover
  next
    case (Cons x xs y ys)
    define g where "g = tallyCurrent a0 a1 a2 xs"
    define g' where "g' = tallyCurrent b0 b1 b2 ys"
    have [transfer_rule]: "(rel_fun (list_all2 A) (rel_fun (rel_state A) (rel_option (rel_sum
      (=) (rel_prod (rel_option (list_all2 A)) (rel_prod (list_all2 A) (rel_state A))))))) g g'"
      unfolding g_def g'_def by (intro rel_funI Cons.IH)
    note [transfer_rule] = Cons.hyps(1) Cons.prems
    show ?case unfolding tallyCurrent.simps g_def [symmetric] g'_def [symmetric]
      by transfer_prover
  qed
qed

lemma tallyLoop_le:
  assumes [transfer_rule]: "bi_unique A"
  shows "tallyLoop a0 a1 a2 a3 a4 = Some y
         \<Longrightarrow> (rel_store A) a0 b0 \<Longrightarrow>
           (list_all2 (rel_prod (=) A)) a1 b1 \<Longrightarrow>
           a2 = b2 \<Longrightarrow>
           (list_all2 A) a3 b3 \<Longrightarrow>
           (rel_state A) a4 b4
         \<Longrightarrow> \<exists>y'. tallyLoop b0 b1 b2 b3 b4 = Some y' \<and> (rel_sum (=) (rel_prod (rel_option (list_all2 A)) (rel_state A))) y y'"
proof (induction arbitrary: b0 b1 b2 b3 b4 rule: tallyLoop.raw_induct [rotated -1, consumes 1])
  case (1 lp a0 a1 a2 a3 a4 y)
  have [transfer_rule]: "(rel_fun (rel_store A) (rel_fun (list_all2 (rel_prod (=) A)) (rel_fun
    (=) (rel_fun (list_all2 A) (rel_fun (rel_state A) (rel_le (rel_sum (=) (rel_prod
      (rel_option (list_all2 A)) (rel_state A)))))))))
      lp tallyLoop"
    unfolding rel_le_def by (intro rel_funI allI impI) (rule 1(1))
  note [transfer_rule] = 1(3-) rel_le_rules
  show ?case
    apply (rule rel_leD [OF _ 1(2)])
    apply (subst tallyLoop.simps)
    by transfer_prover
qed

lemma tallyLoop_transfer [transfer_rule]:
  assumes "bi_unique A"
  shows "(rel_fun (rel_store A) (rel_fun (list_all2 (rel_prod (=) A)) (rel_fun (=) (rel_fun
    (list_all2 A) (rel_fun (rel_state A) (rel_option (rel_sum (=) (rel_prod (rel_option
      (list_all2 A)) (rel_state A)))))))))
           tallyLoop tallyLoop"
proof ((intro rel_funI rel_le_both; unfold rel_le_def; intro allI impI), goal_cases)
  case (1 a0 b0 a1 b1 a2 b2 a3 b3 a4 b4 y)
  show ?case by (rule tallyLoop_le [OF assms 1(6) 1(1-5)])
next
  case (2 a0 b0 a1 b1 a2 b2 a3 b3 a4 b4 y)
  have "\<exists>y'. tallyLoop a0 a1 a2 a3 a4 = Some y' \<and> (rel_sum (=) (rel_prod (rel_option (list_all2 A\<inverse>\<inverse>)) (rel_state A\<inverse>\<inverse>))) y y'"
    by (rule tallyLoop_le [OF bi_unique_flip [OF assms] 2(6)]) (simp_all add: flip 2)
  then show ?case by (simp add: flip)
qed

lemma tallyBranches_transfer [transfer_rule]:
  assumes [transfer_rule]: "bi_unique A"
  shows "(rel_fun (rel_store A) (rel_fun (list_all2 (rel_prod (=) A)) (rel_fun (=) (rel_fun
    (rel_state A) (rel_option (rel_sum (=) (rel_prod (rel_option (list_all2 A)) (rel_state A))))))))
           tallyBranches tallyBranches"
  unfolding tallyBranches_def by transfer_prover

subsection \<open>findConsensus on a copy\<close>

lemma buildAncestryMaps_transfer [transfer_rule]:
  assumes [transfer_rule]: "bi_unique A"
  shows "(rel_fun (rel_store A) (rel_fun (list_all2 A) (rel_fun (=) (rel_option ((=))))))
           buildAncestryMaps buildAncestryMaps"
proof (intro rel_funI, goal_cases)
  case (1 a0 b0 a1 b1 a2 b2)
  note [transfer_rule] = 1(1)
  from 1(2) 1(3) show ?case
  proof (induction arbitrary: a2 b2 rule: list_all2_induct)
    case Nil
    note [transfer_rule] = Nil
    show ?case unfolding buildAncestryMaps.simps by transfer_prover
  next
    case (Cons x xs y ys)
    define g where "g = buildAncestryMaps a0 xs"
    define g' where "g' = buildAncestryMaps b0 ys"
    have [transfer_rule]: "(rel_fun (=) (rel_option ((=)))) g g'"
      unfolding g_def g'_def by (intro rel_funI Cons.IH)
    note [transfer_rule] = Cons.hyps(1) Cons.prems
    show ?case unfolding buildAncestryMaps.simps g_def [symmetric] g'_def [symmetric]
      by transfer_prover
  qed
qed

lemma keysOf_transfer [transfer_rule]:
  "(rel_fun (rel_option (list_all2 (rel_prod (=) (list_all2 A)))) (=))
           keysOf keysOf"
  unfolding keysOf_def by transfer_prover

lemma extendAncestryMaps_transfer [transfer_rule]:
  assumes [transfer_rule]: "bi_unique A"
  shows "(rel_fun (rel_store A) (rel_fun (list_all2 (rel_prod (=) A)) (rel_fun (list_all2 A)
    (rel_fun (=) (rel_fun (rel_state A) (rel_option (rel_sum (=) (rel_prod ((=)) (rel_state
      A)))))))))
           extendAncestryMaps extendAncestryMaps"
proof (intro rel_funI, goal_cases)
  case (1 a0 b0 a1 b1 a2 b2 a3 b3 a4 b4)
  note [transfer_rule] = 1(1) 1(2)
  from 1(3) 1(4) 1(5) show ?case
  proof (induction arbitrary: a3 b3 a4 b4 rule: list_all2_induct)
    case Nil
    note [transfer_rule] = Nil
    show ?case unfolding extendAncestryMaps.simps by transfer_prover
  next
    case (Cons x xs y ys)
    define g where "g = extendAncestryMaps a0 a1 xs"
    define g' where "g' = extendAncestryMaps b0 b1 ys"
    have [transfer_rule]: "(rel_fun (=) (rel_fun (rel_state A) (rel_option (rel_sum (=)
      (rel_prod ((=)) (rel_state A)))))) g g'"
      unfolding g_def g'_def by (intro rel_funI Cons.IH)
    note [transfer_rule] = Cons.hyps(1) Cons.prems
    show ?case unfolding extendAncestryMaps.simps g_def [symmetric] g'_def [symmetric]
      by transfer_prover
  qed
qed

lemma setInitialVotes_transfer [transfer_rule]:
  assumes [transfer_rule]: "bi_unique A"
  shows "(rel_fun (rel_store A) (rel_fun (list_all2 A) (rel_fun (list_all2 (rel_prod (=)
    (rel_vote A))) (rel_fun (rel_state A) (rel_option (rel_sum (=) (rel_prod (list_all2
      (rel_prod (=) (rel_vote A))) (rel_state A))))))))
           setInitialVotes setInitialVotes"
proof (intro rel_funI, goal_cases)
  case (1 a0 b0 a1 b1 a2 b2 a3 b3)
  note [transfer_rule] = 1(1)
  from 1(2) 1(3) 1(4) show ?case
  proof (induction arbitrary: a2 b2 a3 b3 rule: list_all2_induct)
    case Nil
    note [transfer_rule] = Nil
    show ?case unfolding setInitialVotes.simps by transfer_prover
  next
    case (Cons x xs y ys)
    define g where "g = setInitialVotes a0 xs"
    define g' where "g' = setInitialVotes b0 ys"
    have [transfer_rule]: "(rel_fun (list_all2 (rel_prod (=) (rel_vote A))) (rel_fun (rel_state
      A) (rel_option (rel_sum (=) (rel_prod (list_all2 (rel_prod (=) (rel_vote A))) (rel_state A)))))) g g'"
      unfolding g_def g'_def by (intro rel_funI Cons.IH)
    note [transfer_rule] = Cons.hyps(1) Cons.prems
    show ?case unfolding setInitialVotes.simps g_def [symmetric] g'_def [symmetric]
      by transfer_prover
  qed
qed

lemma initYVotes_transfer [transfer_rule]:
  assumes [transfer_rule]: "bi_unique A"
  shows "(rel_fun (rel_store A) (rel_fun (list_all2 A) (rel_fun (=) (rel_fun (list_all2 A)
    (rel_fun (rel_state A) (rel_option (rel_sum (=) (rel_state A))))))))
           initYVotes initYVotes"
proof (intro rel_funI, goal_cases)
  case (1 a0 b0 a1 b1 a2 b2 a3 b3 a4 b4)
  note [transfer_rule] = 1(1) 1(2) 1(3)
  from 1(4) 1(5) show ?case
  proof (induction arbitrary: a4 b4 rule: list_all2_induct)
    case Nil
    note [transfer_rule] = Nil
    show ?case unfolding initYVotes.simps by transfer_prover
  next
    case (Cons x xs y ys)
    define g where "g = initYVotes a0 a1 a2 xs"
    define g' where "g' = initYVotes b0 b1 b2 ys"
    have [transfer_rule]: "(rel_fun (rel_state A) (rel_option (rel_sum (=) (rel_state A)))) g
      g'"
      unfolding g_def g'_def by (intro rel_funI Cons.IH)
    note [transfer_rule] = Cons.hyps(1) Cons.prems
    show ?case unfolding initYVotes.simps g_def [symmetric] g'_def [symmetric]
      by transfer_prover
  qed
qed

lemma findConsensusMergeEventProof_transfer [transfer_rule]:
  assumes [transfer_rule]: "bi_unique A"
  shows "(rel_fun (rel_store A) (rel_fun (list_all2 (rel_prod (=) A)) (rel_fun (list_all2
    (rel_prod (=) A)) (rel_fun (=) (rel_fun (rel_state A) (rel_option (rel_sum (=) (rel_prod
      (list_all2 A) (rel_state A)))))))))
           findConsensusMergeEventProof findConsensusMergeEventProof"
  unfolding findConsensusMergeEventProof_def by transfer_prover

lemma proofEntry_transfer [transfer_rule]:
  "(rel_fun A (rel_fun A (rel_fun (list_all2 A) (rel_fun (=) (rel_proofEntry A)))))
    proofEntry_ext proofEntry_ext"
  "(rel_fun (rel_proofEntry A) A) py py"
  "(rel_fun (rel_proofEntry A) A) px px"
  "(rel_fun (rel_proofEntry A) (list_all2 A)) pproof pproof"
  by (simp_all add: rel_fun_def rel_proofEntry_def)

lemma pairYsWithXs_transfer [transfer_rule]:
  assumes [transfer_rule]: "bi_unique A"
  shows "(rel_fun (rel_store A) (rel_fun (list_all2 (rel_prod (=) A)) (rel_fun (=) (rel_fun
    (list_all2 A) (rel_fun (rel_state A) (rel_option (rel_sum (=) (rel_prod (list_all2
      (rel_proofEntry A)) (rel_state A)))))))))
           pairYsWithXs pairYsWithXs"
proof (intro rel_funI, goal_cases)
  case (1 a0 b0 a1 b1 a2 b2 a3 b3 a4 b4)
  note [transfer_rule] = 1(1) 1(2) 1(3)
  from 1(4) 1(5) show ?case
  proof (induction arbitrary: a4 b4 rule: list_all2_induct)
    case Nil
    note [transfer_rule] = Nil
    show ?case unfolding pairYsWithXs.simps by transfer_prover
  next
    case (Cons x xs y ys)
    define g where "g = pairYsWithXs a0 a1 a2 xs"
    define g' where "g' = pairYsWithXs b0 b1 b2 ys"
    have [transfer_rule]: "(rel_fun (rel_state A) (rel_option (rel_sum (=) (rel_prod (list_all2
      (rel_proofEntry A)) (rel_state A))))) g g'"
      unfolding g_def g'_def by (intro rel_funI Cons.IH)
    note [transfer_rule] = Cons.hyps(1) Cons.prems
    show ?case unfolding pairYsWithXs.simps g_def [symmetric] g'_def [symmetric]
      by transfer_prover
  qed
qed

lemma findMergeEventProof_transfer [transfer_rule]:
  assumes [transfer_rule]: "bi_unique A"
  shows "(rel_fun (rel_store A) (rel_fun (list_all2 (rel_prod (=) (list_all2 A))) (rel_fun (=)
    (rel_fun (rel_state A) (rel_option (rel_sum (=) (rel_prod (list_all2 (rel_proofEntry A))
      (rel_state A))))))))
           findMergeEventProof findMergeEventProof"
  unfolding findMergeEventProof_def by transfer_prover

lemma findConsensus_transfer [transfer_rule]:
  assumes [transfer_rule]: "bi_unique A"
  shows "(rel_fun (rel_store A) (rel_fun (list_all2 A) (rel_fun (=) (rel_option (rel_sum (=)
    (rel_option ((=))))))))
           findConsensus findConsensus"
  unfolding findConsensus_def by transfer_prover

lemma findConsensus_copy:
  assumes "bi_unique A" and "rel_store A E E'" and "list_all2 A events events'"
  shows "findConsensus E events electors = findConsensus E' events' electors"
  using findConsensus_transfer [OF assms(1), THEN rel_funD, OF assms(2), THEN rel_funD,
      OF assms(3), THEN rel_funD, OF refl, of electors]
  by (simp add: option.rel_eq sum.rel_eq)

subsection \<open>Hash-equal copies\<close>

lemma mirror_unique: "bi_unique (mirror n)"
  by (auto simp: bi_unique_def mirror_def)

lemma mirror_refs:
  assumes "list_all (\<lambda>p. p < n) ps"
  shows "list_all2 (mirror n) ps (map (\<lambda>r. n - Suc r) ps)"
  using assms by (induction ps) (auto simp: mirror_def)

lemma mirrored_store:
  assumes "list_all (\<lambda>e. list_all (\<lambda>p. p < length E) (parents e)
                       \<and> list_all (\<lambda>c. c < length E) (children e)) E"
  shows "rel_store (mirror (length E)) E (mirrored E)"
  unfolding rel_store_def
proof (intro allI impI)
  fix r r'
  assume "mirror (length E) r r'"
  then have r: "r < length E" and r': "r' = length E - Suc r" by (simp_all add: mirror_def)
  from r have "mirrored E ! r' = renamed (\<lambda>r. length E - Suc r) (E ! r)"
    unfolding r' mirrored_def by (simp add: rev_nth)
  moreover from assms r have "list_all (\<lambda>p. p < length E) (parents (E ! r))"
    and "list_all (\<lambda>c. c < length E) (children (E ! r))"
    by (simp_all add: list_all_length)
  ultimately show "rel_event (mirror (length E)) (E ! r) (mirrored E ! r')"
    by (simp add: rel_event_def renamed_def mirror_refs)
qed

text \<open>
  C2, as the code has it.  Two hash-equal copies of a history are two lists of event
  objects with a one-to-one correspondence of the objects under which the events have the
  same hash, creator, tree hash and \<^verbatim>\<open>parentHash\<close> and corresponding \<^verbatim>\<open>_parents\<close> and
  \<^verbatim>\<open>_children\<close>; they are presented in the same order when \<^verbatim>\<open>history.events\<close> lists
  corresponding objects at every position (\<^verbatim>\<open>blockHeight\<close> only reaches the log).  For two
  such copies and the same electors \<^verbatim>\<open>findConsensus\<close> gives identical outputs: the same
  result with the same order of \<^verbatim>\<open>eventHashes\<close> and \<^verbatim>\<open>consensusProofHashes\<close>, \<^verbatim>\<open>null\<close>
  for both, a TypeError for both, or no return for both.  Both lists of a non-null result
  are free of duplicates.  Nothing sorts them: in the history \<open>R1\<close> the event hashes come
  out as m1, m0, r1.
\<close>

theorem C2_copies:
  "bi_unique A \<longrightarrow> rel_store A E E' \<longrightarrow> list_all2 A events events' \<longrightarrow>
     findConsensus E' events' electors = findConsensus E events electors
     \<and> (\<forall>r. findConsensus E events electors = ret (Some r) \<longrightarrow>
           distinct (eventHashes r) \<and> distinct (consensusProofHashes r))"
proof (intro impI conjI allI)
  assume "bi_unique A" and "rel_store A E E'" and "list_all2 A events events'"
  from findConsensus_copy [OF this]
  show "findConsensus E' events' electors = findConsensus E events electors" by simp
next
  fix r
  assume "findConsensus E events electors = ret (Some r)"
  from findConsensus_result [OF this] obtain consensus where
    c: "consensusProof E events electors = ret consensus" and
    h: "getAncestorHashes E (map px consensus) = Some (eventHashes r)" and
    p: "consensusProofHashes r
          = uniq (concat (map (\<lambda>current. map (\<lambda>x. eventHash (E ! x)) (pproof current))
                           consensus))" by blast
  from getAncestorHashes_spec [OF h] show "distinct (eventHashes r)" by simp
  from p show "distinct (consensusProofHashes r)" by simp
qed

theorem C2_counterexample:
  "findConsensus R1 [0] [''A'']
     = ret (Some \<lparr>eventHashes = [''m1'', ''m0'', ''r1''], consensusProofHashes = [''m1'']\<rparr>)
   \<and> \<not> sorted [''m1'', ''m0'', ''r1'']"
  using R1_findConsensus by simp

theorem C2_witness:
  "bi_unique (mirror 12) \<and> rel_store (mirror 12) T2 (mirrored T2)
   \<and> list_all2 (mirror 12) [0, 1, 2, 3, 4, 5, 6, 7, 8, 9, 10, 11]
         [11, 10, 9, 8, 7, 6, 5, 4, 3, 2, 1, 0]
   \<and> findConsensus T2 [0, 1, 2, 3, 4, 5, 6, 7, 8, 9, 10, 11] [''A'', ''C'']
       = ret (Some \<lparr>eventHashes = [''a1'', ''c1''],
                     consensusProofHashes = [''a2'', ''c2'', ''c3'']\<rparr>)
   \<and> findConsensus (mirrored T2) [11, 10, 9, 8, 7, 6, 5, 4, 3, 2, 1, 0] [''A'', ''C'']
       = ret (Some \<lparr>eventHashes = [''a1'', ''c1''],
                     consensusProofHashes = [''a2'', ''c2'', ''c3'']\<rparr>)
   \<and> distinct [''a1'', ''c1''] \<and> distinct [''a2'', ''c2'', ''c3'']"
proof -
  have n: "length T2 = 12" by (simp add: T2_def)
  have s: "rel_store (mirror 12) T2 (mirrored T2)"
    using mirrored_store [of T2] unfolding n by (simp add: T2_def merge_def)
  have l: "list_all2 (mirror 12) [0, 1, 2, 3, 4, 5, 6, 7, 8, 9, 10, 11]
         [11, 10, 9, 8, 7, 6, 5, 4, 3, 2, 1, 0]"
    by (simp add: mirror_def)
  from C2_copies [of "mirror 12" T2 "mirrored T2" "[0, 1, 2, 3, 4, 5, 6, 7, 8, 9, 10, 11]"
      "[11, 10, 9, 8, 7, 6, 5, 4, 3, 2, 1, 0]" "[''A'', ''C'']"]
    mirror_unique s l T2_findConsensus
  show ?thesis by simp
qed

end
